(* ===== verification/Kernel_Prelude.thy ===== *)
theory Kernel_Prelude
  imports Main "HOL-Library.Word" "HOL-Library.Signed_Division"
begin

text \<open>
  Shared vocabulary of the development: the outcome type of a kernel routine, the 32-bit
  integers of the machine with their wrap-around written out, half-open blocks of an address
  space, and the contract of a space allocator that the resource maps and the kernel heap
  both fulfil.
\<close>

section \<open>Outcomes of kernel routines\<close>

text \<open>
  A kernel routine returns normally (\<open>Ok\<close>), calls \<open>panic\<close> with a message, touches memory
  outside of its data structure (\<open>Fault\<close>: a null pointer, or an index outside of an array),
  or goes to sleep before it has a result (\<open>Sleep\<close>).
\<close>

datatype 'a outcome = Ok 'a | Panic string | Fault | Sleep

fun obind :: "'a outcome \<Rightarrow> ('a \<Rightarrow> 'b outcome) \<Rightarrow> 'b outcome" where
  "obind (Ok x) f = f x"
| "obind (Panic m) f = Panic m"
| "obind Fault f = Fault"
| "obind Sleep f = Sleep"

named_theorems outcome_elims "inversion of successful outcomes"
named_theorems width_simps "machine arithmetic that stays within its width"
named_theorems model_defs "definitions of the model unfolded by default in component proofs"

lemma obind_cong [fundef_cong]:
  assumes "m = m'" and "\<And>x. m' = Ok x \<Longrightarrow> f x = g x"
  shows "obind m f = obind m' g"
  using assms by (cases m') auto

lemma obind_eq_Ok [simp]: "obind m f = Ok y \<longleftrightarrow> (\<exists>x. m = Ok x \<and> f x = Ok y)"
  by (cases m) auto

lemma Ok_eq_obind [simp]: "Ok y = obind m f \<longleftrightarrow> (\<exists>x. m = Ok x \<and> f x = Ok y)"
  by (cases m) auto

lemma obind_assoc: "obind (obind m f) g = obind m (\<lambda>x. obind (f x) g)"
  by (cases m) auto

lemma obind_Ok_right [simp]: "obind m Ok = m"
  by (cases m) auto

fun is_Ok :: "'a outcome \<Rightarrow> bool" where
  "is_Ok (Ok x) = True"
| "is_Ok (Panic m) = False"
| "is_Ok Fault = False"
| "is_Ok Sleep = False"

lemma is_OkE [outcome_elims]: assumes "is_Ok m" obtains x where "m = Ok x"
  using assms by (cases m) auto

lemma is_Ok_obind [simp]: "is_Ok (obind m f) \<longleftrightarrow> (\<exists>x. m = Ok x \<and> is_Ok (f x))"
  by (cases m) auto

text \<open>Array access: an index outside of the array is a fault.\<close>

definition aget :: "'a list \<Rightarrow> nat \<Rightarrow> 'a outcome" where
  "aget xs i = (if i < length xs then Ok (xs ! i) else Fault)"

lemma aget_Ok [simp]: "i < length xs \<Longrightarrow> aget xs i = Ok (xs ! i)"
  by (simp add: aget_def)

lemma aget_eq_Ok: "aget xs i = Ok x \<longleftrightarrow> i < length xs \<and> x = xs ! i"
  by (auto simp: aget_def)

lemma aget_append [simp]: "aget (xs @ y # ys) (length xs) = Ok y"
  by (simp add: aget_def)

section \<open>Machine integers\<close>

text \<open>
  \<open>int\<close> and \<open>long\<close> have 32 bits and two's complement on the machines the kernel runs on, \<open>short\<close>
  has 16.  Unsigned quantities are natural numbers below a power of two.
\<close>

definition int32 :: "int \<Rightarrow> int" where
  "int32 x = (x + 2147483648) mod 4294967296 - 2147483648"

definition int16 :: "int \<Rightarrow> int" where
  "int16 x = (x + 32768) mod 65536 - 32768"

definition uint16 :: "int \<Rightarrow> int" where
  "uint16 x = x mod 65536"

definition uint32 :: "int \<Rightarrow> int" where
  "uint32 x = x mod 4294967296"

definition INT_MAX :: int where
  "INT_MAX = 2147483647"

lemma int32_id [simp, width_simps]:
  "- 2147483648 \<le> x \<Longrightarrow> x \<le> INT_MAX \<Longrightarrow> int32 x = x"
  by (simp add: int32_def INT_MAX_def)

lemma int16_id [simp, width_simps]: "- 32768 \<le> x \<Longrightarrow> x \<le> 32767 \<Longrightarrow> int16 x = x"
  by (simp add: int16_def)

lemma uint16_id [simp, width_simps]: "0 \<le> x \<Longrightarrow> x \<le> 65535 \<Longrightarrow> uint16 x = x"
  by (simp add: uint16_def)

lemma uint32_id [simp, width_simps]: "0 \<le> x \<Longrightarrow> x < 4294967296 \<Longrightarrow> uint32 x = x"
  by (simp add: uint32_def)

lemma int32_range: "- 2147483648 \<le> int32 x" "int32 x \<le> INT_MAX"
  by (simp_all add: int32_def INT_MAX_def)

lemma uint16_range [simp]: "0 \<le> uint16 x" "uint16 x \<le> 65535"
  by (simp_all add: uint16_def)

lemma smod_int_nonneg [simp]: "0 \<le> a \<Longrightarrow> 0 < b \<Longrightarrow> a smod b = (a mod b :: int)"
  by (cases "a = 0") (simp_all add: signed_modulo_int_def)

lemma sdiv_int_nonneg [simp]: "0 \<le> a \<Longrightarrow> 0 < b \<Longrightarrow> a sdiv b = (a div b :: int)"
  by (cases "a = 0") (simp_all add: signed_divide_int_def)

section \<open>Blocks of an address space\<close>

definition blk :: "int \<Rightarrow> int \<Rightarrow> int set" where
  "blk a n = {a..<a + n}"

lemma mem_blk [simp]: "x \<in> blk a n \<longleftrightarrow> a \<le> x \<and> x < a + n"
  by (simp add: blk_def)

lemma blk_empty_iff: "blk a n = {} \<longleftrightarrow> n \<le> 0"
  by (auto simp: blk_def)

lemma blk_nonpos [simp]: "n \<le> 0 \<Longrightarrow> blk a n = {}"
  by (simp add: blk_def)

lemma blk_append: "0 \<le> m \<Longrightarrow> 0 \<le> n \<Longrightarrow> blk a m \<union> blk (a + m) n = blk a (m + n)"
  by auto

lemma blk_disjoint: "0 < m \<Longrightarrow> 0 < n \<Longrightarrow> blk a m \<inter> blk b n = {} \<longleftrightarrow> a + m \<le> b \<or> b + n \<le> a"
proof
  assume pos: "0 < m" "0 < n" and "blk a m \<inter> blk b n = {}"
  then have "max a b \<notin> blk a m \<inter> blk b n" by blast
  with pos show "a + m \<le> b \<or> b + n \<le> a" by (auto simp: max_def split: if_splits)
next
  assume "a + m \<le> b \<or> b + n \<le> a"
  then show "blk a m \<inter> blk b n = {}" by auto
qed

lemma finite_blk [simp]: "finite (blk a n)"
  by (simp add: blk_def)

lemma card_blk [simp]: "card (blk a n) = nat n"
  by (simp add: blk_def)

section \<open>The contract of a space allocator\<close>

text \<open>
  Resource maps and the kernel heap hand out blocks of an address space.  \<open>space s\<close> is the
  space that state \<open>s\<close> owns and may still hand out; \<open>alloc\<close> returns the address 0 when it has
  nothing to give.  \<open>legal\<close> are the request sizes the contract covers.  The laws are about safety: a block handed out was available and is not available
  any more, and a release makes at most the released block available.
\<close>

datatype request = Alloc int | Release nat

text \<open>
  A client that allocates blocks and releases blocks it holds, in any order: \<open>live\<close> is the
  list of the blocks it holds.
\<close>

fun client :: "('s \<Rightarrow> int \<Rightarrow> (int \<times> 's) outcome) \<Rightarrow> ('s \<Rightarrow> int \<Rightarrow> int \<Rightarrow> 's outcome) \<Rightarrow>
    's \<Rightarrow> (int \<times> int) list \<Rightarrow> request list \<Rightarrow> ('s \<times> (int \<times> int) list) outcome" where
  "client alloc release s live [] = Ok (s, live)"
| "client alloc release s live (Alloc n # rs) =
     obind (alloc s n)
       (\<lambda>(a, s'). client alloc release s' (if a = 0 then live else (a, n) # live) rs)"
| "client alloc release s live (Release i # rs) =
     (if i < length live
      then obind (release s (fst (live ! i)) (snd (live ! i)))
             (\<lambda>s'. client alloc release s' (take i live @ drop (Suc i) live) rs)
      else client alloc release s live rs)"

locale space_allocator =
  fixes inv :: "'s \<Rightarrow> bool"
    and space :: "'s \<Rightarrow> int set"
    and arena :: "int set"
    and alloc :: "'s \<Rightarrow> int \<Rightarrow> (int \<times> 's) outcome"
    and release :: "'s \<Rightarrow> int \<Rightarrow> int \<Rightarrow> 's outcome"
    and legal :: "int \<Rightarrow> bool"
  assumes space_arena: "inv s \<Longrightarrow> space s \<subseteq> arena"
    and alloc_inv: "inv s \<Longrightarrow> legal n \<Longrightarrow> alloc s n = Ok (a, s') \<Longrightarrow> inv s'"
    and alloc_block: "inv s \<Longrightarrow> legal n \<Longrightarrow> alloc s n = Ok (a, s') \<Longrightarrow> a \<noteq> 0 \<Longrightarrow>
      0 < n \<and> blk a n \<subseteq> space s \<and> space s' \<subseteq> space s - blk a n"
    and alloc_none: "inv s \<Longrightarrow> legal n \<Longrightarrow> alloc s n = Ok (0, s') \<Longrightarrow> space s' \<subseteq> space s"
    and release_block: "inv s \<Longrightarrow> 0 < n \<Longrightarrow> blk a n \<subseteq> arena \<Longrightarrow> blk a n \<inter> space s = {} \<Longrightarrow>
      release s a n = Ok s' \<Longrightarrow> inv s' \<and> space s' \<subseteq> space s \<union> blk a n"
begin

text \<open>The blocks held lie in the arena, apart from the available space and from each other.\<close>

definition held_ok :: "'s \<Rightarrow> (int \<times> int) list \<Rightarrow> bool" where
  "held_ok s live \<longleftrightarrow>
     (\<forall>b\<in>set live. 0 < snd b \<and> blk (fst b) (snd b) \<subseteq> arena \<and> blk (fst b) (snd b) \<inter> space s = {})
     \<and> sorted_wrt (\<lambda>b c. blk (fst b) (snd b) \<inter> blk (fst c) (snd c) = {}) live"

lemma held_ok_Nil [simp]: "held_ok s []"
  by (simp add: held_ok_def)

lemma held_ok_mono: "held_ok s live \<Longrightarrow> space s' \<subseteq> space s \<Longrightarrow> held_ok s' live"
  unfolding held_ok_def by blast

lemma held_ok_alloc:
  assumes "inv s" "held_ok s live" "alloc s n = Ok (a, s')" "legal n"
  shows "held_ok s' (if a = 0 then live else (a, n) # live)"
proof (cases "a = 0")
  case True
  then show ?thesis using assms alloc_none held_ok_mono by auto
next
  case False
  then have b: "0 < n" "blk a n \<subseteq> space s" "space s' \<subseteq> space s - blk a n"
    using alloc_block [OF assms(1,4,3)] by auto
  have "\<forall>c\<in>set live. blk a n \<inter> blk (fst c) (snd c) = {}"
    using assms(2) b(2) unfolding held_ok_def by blast
  moreover have "held_ok s' live" using held_ok_mono [OF assms(2)] b(3) by blast
  moreover have "blk a n \<subseteq> arena" "blk a n \<inter> space s' = {}"
    using b space_arena [OF assms(1)] by blast+
  ultimately show ?thesis
    using False b(1) unfolding held_ok_def by simp
qed

lemma held_ok_release:
  assumes "held_ok s live" "i < length live" "space s' \<subseteq> space s \<union> blk (fst (live ! i)) (snd (live ! i))"
  shows "held_ok s' (take i live @ drop (Suc i) live)"
proof -
  define P Q b where "P = take i live" "Q = drop (Suc i) live" "b = live ! i"
  have live: "live = P @ b # Q"
    using id_take_nth_drop [OF assms(2)] by (simp add: P_Q_b_def)
  have apart: "\<forall>c\<in>set (P @ Q). blk (fst c) (snd c) \<inter> blk (fst b) (snd b) = {}"
    using assms(1) unfolding held_ok_def live by (auto simp: sorted_wrt_append)
  have "held_ok s (P @ Q)"
    using assms(1) unfolding held_ok_def live by (auto simp: sorted_wrt_append)
  moreover have "space s' \<subseteq> space s \<union> blk (fst b) (snd b)"
    using assms(3) by (simp add: P_Q_b_def)
  ultimately have "held_ok s' (P @ Q)"
    using apart unfolding held_ok_def by blast
  then show ?thesis by (simp add: P_Q_b_def)
qed

theorem client_held_ok:
  assumes "inv s" "held_ok s live" "client alloc release s live rs = Ok (s', live')"
    "\<forall>n. Alloc n \<in> set rs \<longrightarrow> legal n"
  shows "inv s' \<and> held_ok s' live'"
  using assms
proof (induction rs arbitrary: s live s' live')
  case (Cons r rs)
  show ?case
  proof (cases r)
    case (Alloc n)
    then obtain a s1 where "alloc s n = Ok (a, s1)"
        "client alloc release s1 (if a = 0 then live else (a, n) # live) rs = Ok (s', live')"
      using Cons.prems(3) by (auto split: prod.splits)
    moreover have "legal n" "\<forall>n. Alloc n \<in> set rs \<longrightarrow> legal n" using Cons.prems(4) Alloc by auto
    ultimately show ?thesis
      using Cons.IH alloc_inv [OF Cons.prems(1)] held_ok_alloc [OF Cons.prems(1,2)] by blast
  next
    case (Release i)
    show ?thesis
    proof (cases "i < length live")
      case True
      then obtain s1 where s1: "release s (fst (live ! i)) (snd (live ! i)) = Ok s1"
          "client alloc release s1 (take i live @ drop (Suc i) live) rs = Ok (s', live')"
        using Cons.prems(3) Release by auto
      have "live ! i \<in> set live" using True by simp
      then have r: "inv s1 \<and> space s1 \<subseteq> space s \<union> blk (fst (live ! i)) (snd (live ! i))"
        using Cons.prems(2) s1(1) unfolding held_ok_def
        by (intro release_block [OF Cons.prems(1)]) auto
      then have "held_ok s1 (take i live @ drop (Suc i) live)"
        using held_ok_release [OF Cons.prems(2) True] by blast
      then show ?thesis using Cons.IH r s1(2) Cons.prems(4) by auto
    next
      case False
      then have "client alloc release s live rs = Ok (s', live')"
        using Cons.prems(3) Release by simp
      then show ?thesis using Cons.IH [OF Cons.prems(1,2)] Cons.prems(4) by auto
    qed
  qed
qed simp

end

end
