(* ===== verification/Rmap.thy ===== *)
theory Rmap
  imports Kernel_Prelude
begin

text \<open>
  Resource maps, \<open>sys/subr_rmap.c\<close> with \<open>h/map.h\<close>: \<open>rminit\<close>, \<open>rmalloc\<close>, \<open>rmfree\<close> and
  \<open>rmget\<close> on the array of segment descriptors.
\<close>

section \<open>Data\<close>

text \<open>
  \<open>struct mapent\<close>; the array \<open>m_ent\<close> holds the slots that follow the \<open>struct map\<close> header,
  the delimiter included.  \<open>m_nam\<close> is the name stored in the address field of the last slot,
  which no routine ever uses as an address.  \<open>is_swapmap\<close> is the test \<open>mp == swapmap\<close>.  The
  fields \<open>m_lost\<close> and \<open>m_wakeups\<close> record what the outside sees: the segments the overflow
  message reports as lost, and the number of \<open>wakeup\<close> calls on the map.
\<close>

record mapent =
  m_size :: int
  m_addr :: int

record rmap =
  m_free :: nat
  m_want :: nat
  m_ent :: "mapent list"
  m_nam :: string
  is_swapmap :: bool
  m_lost :: "(int \<times> int) list"
  m_wakeups :: nat

text \<open>The globals \<open>rmalloc\<close> reads: the swap interleaving parameters and the cluster size.\<close>

record swapcfg =
  dmmax :: int
  nswdev :: int

definition CLSIZE :: int where
  "CLSIZE = 1"

section \<open>Operations\<close>

text \<open>
  \<open>rminit\<close> writes into the \<open>mapsize\<close> slots it is given; the slots it does not write keep
  their contents, which in the kernel's static storage are zero.
\<close>

definition rminit :: "rmap \<Rightarrow> int \<Rightarrow> int \<Rightarrow> string \<Rightarrow> int \<Rightarrow> rmap outcome" where
  "rminit mp sz addr name mapsize =
     (if m_ent mp = [] then Fault
      else if mapsize < 3 then
        Ok (mp\<lparr>m_free := 0, m_ent := (m_ent mp)[0 := (m_ent mp ! 0)\<lparr>m_size := 0\<rparr>],
               m_nam := name\<rparr>)
      else
        Ok (mp\<lparr>m_free := (if sz = 0 then nat (mapsize - 3) + 1 else nat (mapsize - 3)),
               m_ent := (m_ent mp)[0 := \<lparr>m_size = sz, m_addr = addr\<rparr>],
               m_nam := name\<rparr>))"

text \<open>The search of \<open>rmfree\<close>: \<open>for (; bp->m_addr <= addr && bp->m_size != 0; bp++)\<close>.\<close>

fun scan_after :: "mapent list \<Rightarrow> int \<Rightarrow> nat \<Rightarrow> nat outcome" where
  "scan_after [] addr i = Fault"
| "scan_after (b # bs) addr i =
     (if m_addr b \<le> addr \<and> m_size b \<noteq> 0 then scan_after bs addr (Suc i) else Ok i)"

text \<open>The search for the delimiter: \<open>for (; bp->m_size != 0; bp++)\<close>.\<close>

fun scan_end :: "mapent list \<Rightarrow> nat \<Rightarrow> nat outcome" where
  "scan_end [] i = Fault"
| "scan_end (b # bs) i = (if m_size b \<noteq> 0 then scan_end bs (Suc i) else Ok i)"

text \<open>
  Closing a gap at slot \<open>i\<close>.  \<open>rmalloc\<close> does it with
  \<open>do { bp++; (bp-1)->m_addr = bp->m_addr; } while ((bp-1)->m_size = bp->m_size)\<close>,
  \<open>rmfree\<close> and \<open>rmget\<close> with \<open>while (bp->m_size) { bp++; *(bp-1) = *bp; }\<close>.
\<close>

function compress_do :: "mapent list \<Rightarrow> nat \<Rightarrow> mapent list outcome" where
  "compress_do xs i =
     (if Suc i < length xs then
        (let xs' = xs[i := xs ! Suc i]
         in if m_size (xs ! Suc i) \<noteq> 0 then compress_do xs' (Suc i) else Ok xs')
      else Fault)"
  by pat_completeness auto
termination
  by (relation "measure (\<lambda>(xs, i). length xs - i)") auto

function compress_while :: "mapent list \<Rightarrow> nat \<Rightarrow> mapent list outcome" where
  "compress_while xs i =
     (if i < length xs then
        (if m_size (xs ! i) = 0 then Ok xs
         else if Suc i < length xs then compress_while (xs[i := xs ! Suc i]) (Suc i)
         else Fault)
      else Fault)"
  by pat_completeness auto
termination
  by (relation "measure (\<lambda>(xs, i). length xs - i)") auto

text \<open>
  Making room at slot \<open>i\<close> in \<open>rmfree\<close>: the new entry is exchanged with the slot, and what
  was there with the next one, \<open>do \<dots> while (sz = t)\<close>.
\<close>

function push_up :: "mapent list \<Rightarrow> nat \<Rightarrow> int \<Rightarrow> int \<Rightarrow> mapent list outcome" where
  "push_up xs i addr sz =
     (if i < length xs then
        (let b = xs ! i; xs' = xs[i := \<lparr>m_size = sz, m_addr = addr\<rparr>]
         in if m_size b \<noteq> 0 then push_up xs' (Suc i) (m_addr b) (m_size b) else Ok xs')
      else Fault)"
  by pat_completeness auto
termination
  by (relation "measure (\<lambda>(xs, i, addr, sz). length xs - i)") auto

text \<open>The code after the label \<open>done\<close>: wake up whoever sleeps on the map.\<close>

definition rm_done :: "rmap \<Rightarrow> rmap" where
  "rm_done mp = (if m_want mp \<noteq> 0 then mp\<lparr>m_want := 0, m_wakeups := Suc (m_wakeups mp)\<rparr> else mp)"

text \<open>
  The overflow path of \<open>rmfree\<close>: drop the smaller of the last two segments.  With fewer than
  two segments the code reads and writes the slot before the first one, outside of the array.
\<close>

definition rm_discard :: "rmap \<Rightarrow> nat \<Rightarrow> rmap outcome" where
  "rm_discard mp i =
     obind (scan_end (drop i (m_ent mp)) i) (\<lambda>j.
       if j < 2 then Fault
       else
         (let xs = m_ent mp;
              k = (if m_size (xs ! (j - 1)) > m_size (xs ! (j - 2)) then j - 2 else j - 1);
              b = xs ! k;
              c = xs ! Suc k
          in Ok (mp\<lparr>m_ent := xs[k := c, Suc k := c\<lparr>m_size := 0\<rparr>],
                    m_free := Suc (m_free mp),
                    m_lost := m_lost mp @ [(m_addr b, int32 (m_addr b + m_size b))]\<rparr>)))"

lemma rm_discard_free: "rm_discard mp i = Ok mp' \<Longrightarrow> m_free mp' = Suc (m_free mp)"
  by (auto simp: rm_discard_def Let_def split: if_splits)

function rmfree :: "rmap \<Rightarrow> int \<Rightarrow> int \<Rightarrow> rmap outcome" where
  "rmfree mp sz addr =
     (if addr \<le> 0 \<or> sz \<le> 0 then Panic ''bad rmfree''
      else obind (scan_after (m_ent mp) addr 0) (\<lambda>i.
        let xs = m_ent mp; bp = xs ! i; lp = xs ! (i - 1)
        in if 0 < i \<and> int32 (m_addr lp + m_size lp) \<ge> addr then
             (if int32 (m_addr lp + m_size lp) > addr then Panic ''bad rmfree''
              else
                (let xs1 = xs[i - 1 := lp\<lparr>m_size := int32 (m_size lp + sz)\<rparr>]
                 in if m_size bp \<noteq> 0 \<and> int32 (addr + sz) \<ge> m_addr bp then
                      (if int32 (addr + sz) > m_addr bp then Panic ''bad rmfree''
                       else obind (compress_while
                              (xs1[i - 1 := lp\<lparr>m_size := int32 (int32 (m_size lp + sz)
                                                                  + m_size bp)\<rparr>]) i)
                              (\<lambda>xs2. Ok (rm_done (mp\<lparr>m_ent := xs2, m_free := Suc (m_free mp)\<rparr>))))
                    else Ok (rm_done (mp\<lparr>m_ent := xs1\<rparr>))))
           else if int32 (addr + sz) \<ge> m_addr bp \<and> m_size bp \<noteq> 0 then
             (if int32 (addr + sz) > m_addr bp then Panic ''bad rmfree''
              else Ok (rm_done (mp\<lparr>m_ent := xs[i := \<lparr>m_size = int32 (m_size bp + sz),
                                                     m_addr = int32 (m_addr bp - sz)\<rparr>]\<rparr>)))
           else if m_free mp = 0 then obind (rm_discard mp i) (\<lambda>mp'. rmfree mp' sz addr)
           else obind (push_up xs i addr sz)
                  (\<lambda>xs'. Ok (rm_done (mp\<lparr>m_ent := xs', m_free := m_free mp - 1\<rparr>)))))"
  by pat_completeness auto
termination
  by (relation "measure (\<lambda>(mp, sz, addr). if m_free mp = 0 then 1 else 0)")
     (auto dest: rm_discard_free)

text \<open>
  \<open>rmalloc\<close>: the loop over the segments from slot \<open>i\<close> on; the result 0 means that nothing
  fits.  \<open>%\<close> truncates and traps on a zero divisor.
\<close>

function rmalloc_loop :: "swapcfg \<Rightarrow> rmap \<Rightarrow> int \<Rightarrow> nat \<Rightarrow> (int \<times> rmap) outcome" where
  "rmalloc_loop sc mp sz i =
     (if \<not> i < length (m_ent mp) then Fault
      else
        (let b = m_ent mp ! i;
             first = int32 (dmmax sc - m_addr b smod dmmax sc)
         in if m_size b = 0 then Ok (0, mp)
            else if m_size b < sz then rmalloc_loop sc mp sz (Suc i)
            else if is_swapmap mp \<and> nswdev sc > 1 \<and> dmmax sc = 0 then Fault
            else if is_swapmap mp \<and> nswdev sc > 1 \<and> first < m_size b then
              (if int32 (m_size b - first) < sz then rmalloc_loop sc mp sz (Suc i)
               else
                 (let addr = int32 (m_addr b + first);
                      rest = int32 (int32 (m_size b - first) - sz);
                      mp1 = mp\<lparr>m_ent := (m_ent mp)[i := b\<lparr>m_size := first\<rparr>]\<rparr>
                  in if rest \<noteq> 0
                     then obind (rmfree mp1 rest (int32 (addr + sz))) (\<lambda>mp2. Ok (addr, mp2))
                     else Ok (addr, mp1)))
            else
              (let addr = m_addr b;
                   b1 = \<lparr>m_size = int32 (m_size b - sz), m_addr = int32 (m_addr b + sz)\<rparr>;
                   xs1 = (m_ent mp)[i := b1]
               in obind (if m_size b1 = 0
                         then obind (compress_do xs1 i)
                                (\<lambda>xs2. Ok (mp\<lparr>m_ent := xs2, m_free := Suc (m_free mp)\<rparr>))
                         else Ok (mp\<lparr>m_ent := xs1\<rparr>))
                    (\<lambda>mp2. if is_swapmap mp \<and> addr smod CLSIZE \<noteq> 0
                            then Panic ''rmalloc swapmap'' else Ok (addr, mp2)))))"
  by pat_completeness auto
termination
  by (relation "measure (\<lambda>(sc, mp, sz, i). length (m_ent mp) - i)") auto

definition rmalloc :: "swapcfg \<Rightarrow> rmap \<Rightarrow> int \<Rightarrow> (int \<times> rmap) outcome" where
  "rmalloc sc mp sz =
     (if sz \<le> 0 \<or> is_swapmap mp \<and> sz > dmmax sc then Panic ''rmalloc''
      else rmalloc_loop sc mp sz 0)"

text \<open>
  \<open>rmget\<close>: the search for the segment that holds \<open>addr\<close>, and the shift towards the end of
  the array, \<open>while (bp2 > bp) { *(bp2+1) = *bp2; bp2--; }\<close>, which runs downwards.
\<close>

fun scan_hold :: "mapent list \<Rightarrow> int \<Rightarrow> nat \<Rightarrow> nat outcome" where
  "scan_hold [] addr i = Fault"
| "scan_hold (b # bs) addr i =
     (if m_size b = 0 then Ok i
      else if m_addr b \<le> addr \<and> int32 (m_addr b + m_size b) > addr then Ok i
      else scan_hold bs addr (Suc i))"

fun shift_down :: "mapent list \<Rightarrow> nat \<Rightarrow> nat \<Rightarrow> mapent list" where
  "shift_down xs i 0 = xs"
| "shift_down xs i (Suc j) =
     (if i < Suc j then shift_down (xs[Suc (Suc j) := xs ! Suc j]) i j else xs)"

definition rmget :: "rmap \<Rightarrow> int \<Rightarrow> int \<Rightarrow> (int \<times> rmap) outcome" where
  "rmget mp sz addr =
     (if sz \<le> 0 then Panic ''rmget''
      else if is_swapmap mp then Ok (0, mp)
      else obind (scan_hold (m_ent mp) addr 0) (\<lambda>i.
        let xs = m_ent mp; b = xs ! i
        in if m_size b = 0 then Ok (0, mp)
           else if int32 (m_addr b + m_size b) < int32 (addr + sz) then Ok (0, mp)
           else if m_addr b = addr then
             (if m_size b = sz
              then obind (compress_while xs i)
                     (\<lambda>xs'. Ok (addr, mp\<lparr>m_ent := xs', m_free := Suc (m_free mp)\<rparr>))
              else Ok (addr, mp\<lparr>m_ent := xs[i := \<lparr>m_size = int32 (m_size b - sz),
                                                m_addr = int32 (m_addr b + sz)\<rparr>]\<rparr>))
           else if int32 (m_addr b + m_size b) = int32 (addr + sz) then
             Ok (addr, mp\<lparr>m_ent := xs[i := b\<lparr>m_size := int32 (m_size b - sz)\<rparr>]\<rparr>)
           else if m_free mp = 0 then Ok (0, mp)
           else obind (scan_end (drop i xs) i) (\<lambda>j.
             if \<not> Suc j < length xs then Fault
             else
               (let xs1 = shift_down (xs[Suc j := (xs ! Suc j)\<lparr>m_size := 0\<rparr>]) i (j - 1);
                    c = \<lparr>m_size = int32 (int32 (m_addr b + m_size b) - int32 (addr + sz)),
                         m_addr = int32 (addr + sz)\<rparr>
                in Ok (addr, mp\<lparr>m_ent := xs1[Suc i := c, i := b\<lparr>m_size := int32 (addr - m_addr b)\<rparr>],
                                 m_free := m_free mp - 1\<rparr>)))))"


section \<open>Segment lists and the space they describe\<close>

declare compress_do.simps [simp del] compress_while.simps [simp del] push_up.simps [simp del]
  rmfree.simps [simp del] rmalloc_loop.simps [simp del]

abbreviation used :: "mapent \<Rightarrow> bool" where
  "used b \<equiv> m_size b \<noteq> 0"

definition rm_segs :: "rmap \<Rightarrow> mapent list" where
  "rm_segs mp = takeWhile used (m_ent mp)"

definition fspace :: "mapent list \<Rightarrow> int set" where
  "fspace S = (\<Union>b\<in>set S. blk (m_addr b) (m_size b))"

definition rm_space :: "rmap \<Rightarrow> int set" where
  "rm_space mp = fspace (rm_segs mp)"

text \<open>
  Segments in ascending order above \<open>lo\<close>, of positive size, inside of the 32-bit range and
  never adjacent: what \<open>rmfree\<close>'s coalescing keeps.
\<close>

fun wf_segs :: "int \<Rightarrow> mapent list \<Rightarrow> bool" where
  "wf_segs lo [] = True"
| "wf_segs lo (b # bs) = (lo < m_addr b \<and> 0 < m_size b \<and> m_addr b + m_size b \<le> INT_MAX
                          \<and> wf_segs (m_addr b + m_size b) bs)"

fun seg_hi :: "int \<Rightarrow> mapent list \<Rightarrow> int" where
  "seg_hi lo [] = lo"
| "seg_hi lo (b # bs) = seg_hi (m_addr b + m_size b) bs"

text \<open>
  The invariant: well-formed segments, then only empty slots, of which one is the delimiter
  and \<open>m_free\<close> are available.
\<close>

definition rm_inv :: "rmap \<Rightarrow> bool" where
  "rm_inv mp \<longleftrightarrow> wf_segs 0 (rm_segs mp) \<and> (\<forall>b\<in>set (dropWhile used (m_ent mp)). \<not> used b)
     \<and> length (m_ent mp) = length (rm_segs mp) + Suc (m_free mp)"

definition rm_rep :: "rmap \<Rightarrow> mapent list \<Rightarrow> bool" where
  "rm_rep mp S \<longleftrightarrow> wf_segs 0 S
     \<and> (\<exists>z Z. m_ent mp = S @ z # Z \<and> (\<forall>b\<in>set (z # Z). \<not> used b) \<and> length Z = m_free mp)"

lemma rm_inv_wf: "rm_inv mp \<Longrightarrow> wf_segs 0 (rm_segs mp)"
  unfolding rm_inv_def by blast

lemma rm_inv_length: "rm_inv mp \<Longrightarrow> length (m_ent mp) = length (rm_segs mp) + Suc (m_free mp)"
  unfolding rm_inv_def by blast

lemma fspace_simps [simp]:
  "fspace [] = {}" "fspace (b # S) = blk (m_addr b) (m_size b) \<union> fspace S"
  "fspace (S @ T) = fspace S \<union> fspace T"
  by (auto simp: fspace_def)

lemma wf_segs_append [simp]:
  "wf_segs lo (S @ T) \<longleftrightarrow> wf_segs lo S \<and> wf_segs (seg_hi lo S) T"
  by (induction S arbitrary: lo) auto

lemma seg_hi_append [simp]: "seg_hi lo (S @ T) = seg_hi (seg_hi lo S) T"
  by (induction S arbitrary: lo) auto

lemma wf_segs_mono: "wf_segs lo S \<Longrightarrow> lo' \<le> lo \<Longrightarrow> wf_segs lo' S"
  by (cases S) auto

lemma wf_segs_hi: "wf_segs lo S \<Longrightarrow> lo \<le> seg_hi lo S"
  by (induction S arbitrary: lo) force+

lemma wf_segs_hi_max: "wf_segs lo S \<Longrightarrow> lo \<le> INT_MAX \<Longrightarrow> seg_hi lo S \<le> INT_MAX"
  by (induction S arbitrary: lo) auto

lemma fspace_bounds: "wf_segs lo S \<Longrightarrow> x \<in> fspace S \<Longrightarrow> lo < x \<and> x < seg_hi lo S"
proof (induction S arbitrary: lo)
  case Nil
  then show ?case by simp
next
  case (Cons b S)
  note hi = wf_segs_hi [of "m_addr b + m_size b" S]
  from Cons show ?case by (fastforce dest: hi)
qed

lemma wf_segs_used: "wf_segs lo S \<Longrightarrow> b \<in> set S \<Longrightarrow> 0 < m_size b \<and> lo < m_addr b"
  by (induction S arbitrary: lo) force+

lemma wf_segs_all_used: "wf_segs lo S \<Longrightarrow> \<forall>b\<in>set S. used b"
  using wf_segs_used by fastforce

lemma rm_rep_segs: "rm_rep mp S \<Longrightarrow> rm_segs mp = S"
  using wf_segs_all_used [of 0 S] by (auto simp: rm_rep_def rm_segs_def)

lemma rm_inv_rep: "rm_inv mp \<longleftrightarrow> rm_rep mp (rm_segs mp)"
proof
  assume inv: "rm_inv mp"
  have split: "m_ent mp = rm_segs mp @ dropWhile used (m_ent mp)"
    by (simp add: rm_segs_def)
  then have "length (dropWhile used (m_ent mp)) = Suc (m_free mp)"
    using inv by (metis add_left_cancel length_append rm_inv_def)
  then obtain z Z where "dropWhile used (m_ent mp) = z # Z" "length Z = m_free mp"
    by (auto simp: length_Suc_conv)
  with split inv show "rm_rep mp (rm_segs mp)"
    unfolding rm_rep_def rm_inv_def by metis
next
  assume rep: "rm_rep mp (rm_segs mp)"
  then obtain z Z where Z: "m_ent mp = rm_segs mp @ z # Z" "\<forall>b\<in>set (z # Z). \<not> used b"
      "length Z = m_free mp" "wf_segs 0 (rm_segs mp)"
    by (auto simp: rm_rep_def)
  have "m_ent mp = rm_segs mp @ dropWhile used (m_ent mp)"
    by (simp add: rm_segs_def)
  with Z(1) have "dropWhile used (m_ent mp) = z # Z"
    by (metis same_append_eq)
  with Z show "rm_inv mp"
    by (auto simp: rm_inv_def)
qed

lemma rm_repE:
  assumes "rm_inv mp"
  obtains S z Z where "m_ent mp = S @ z # Z" "rm_segs mp = S" "wf_segs 0 S"
    "\<forall>b\<in>set (z # Z). \<not> used b" "length Z = m_free mp"
  using assms that unfolding rm_inv_rep rm_rep_def by blast

lemma rm_repI:
  assumes "m_ent mp = S @ z # Z" "wf_segs 0 S" "\<forall>b\<in>set (z # Z). \<not> used b" "length Z = m_free mp"
  shows "rm_inv mp" "rm_segs mp = S" "rm_space mp = fspace S"
proof -
  have rep: "rm_rep mp S"
    using assms unfolding rm_rep_def by blast
  then show "rm_segs mp = S"
    by (rule rm_rep_segs)
  then show "rm_inv mp" "rm_space mp = fspace S"
    using rep by (simp_all add: rm_inv_rep rm_space_def)
qed

section \<open>The array loops\<close>

lemma compress_do_spec:
  assumes "\<forall>b\<in>set S. used b" "\<not> used z"
  shows "compress_do (P @ x # S @ z # Z) (length P) = Ok (P @ S @ z # z # Z)"
  using assms
proof (induction S arbitrary: P x)
  case Nil
  then show ?case by (simp add: compress_do.simps nth_append list_update_append)
next
  case (Cons s S)
  from Cons.IH [of "P @ [s]" s] Cons.prems show ?case
    by (subst compress_do.simps) (simp add: nth_append list_update_append)
qed

lemma compress_while_spec:
  assumes "used x" "\<forall>b\<in>set S. used b" "\<not> used z"
  shows "compress_while (P @ x # S @ z # Z) (length P) = Ok (P @ S @ z # z # Z)"
  using assms
proof (induction S arbitrary: P x)
  case Nil
  then show ?case
    by (subst compress_while.simps)
       (simp add: nth_append list_update_append compress_while.simps [where i = "Suc (length P)"])
next
  case (Cons s S)
  from Cons.IH [of s "P @ [s]"] Cons.prems show ?case
    by (subst compress_while.simps) (simp add: nth_append list_update_append)
qed

lemma push_up_spec:
  assumes "\<forall>b\<in>set S. used b" "\<not> used z"
  shows "push_up (P @ S @ z # Z) (length P) a n = Ok (P @ \<lparr>m_size = n, m_addr = a\<rparr> # S @ Z)"
  using assms
proof (induction S arbitrary: P a n)
  case Nil
  then show ?case by (simp add: push_up.simps)
next
  case (Cons s S)
  from Cons.IH [of "P @ [\<lparr>m_size = n, m_addr = a\<rparr>]" "m_addr s" "m_size s"] Cons.prems
  show ?case by (subst push_up.simps) simp
qed

lemma shift_down_spec:
  "shift_down (P @ c # S @ z # Z) (length P) (length P + length S) = P @ c # hd (S @ [z]) # S @ Z"
proof (induction S arbitrary: z Z rule: rev_induct)
  case Nil
  show ?case by (cases "length P") simp_all
next
  case (snoc s S)
  have "(P @ c # S @ [s]) ! Suc (length P + length S) = s"
    by (simp add: nth_append)
  then show ?case
    using snoc.IH [of s "s # Z"]
    by (cases S) (simp_all add: nth_append list_update_append)
qed

lemma scan_after_spec:
  assumes "\<forall>b\<in>set L. m_addr b \<le> addr \<and> used b" "\<not> (m_addr r \<le> addr \<and> used r)"
  shows "scan_after (L @ r # R) addr i = Ok (i + length L)"
  using assms by (induction L arbitrary: i) auto

lemma scan_end_spec:
  assumes "\<forall>b\<in>set L. used b" "\<not> used r"
  shows "scan_end (L @ r # R) i = Ok (i + length L)"
  using assms by (induction L arbitrary: i) auto


section \<open>rmfree\<close>

lemma rm_done_simps [simp]:
  "m_ent (rm_done mp) = m_ent mp" "m_free (rm_done mp) = m_free mp"
  "m_lost (rm_done mp) = m_lost mp" "is_swapmap (rm_done mp) = is_swapmap mp"
  "m_nam (rm_done mp) = m_nam mp" "m_want (rm_done mp) = 0"
  by (simp_all add: rm_done_def)

lemma wf_segs_split:
  assumes "wf_segs lo S"
  obtains L R where "S = L @ R" "\<forall>b\<in>set L. m_addr b \<le> a \<and> used b" "\<forall>b\<in>set R. a < m_addr b"
proof
  show "S = takeWhile (\<lambda>b. m_addr b \<le> a) S @ dropWhile (\<lambda>b. m_addr b \<le> a) S"
    by simp
  show "\<forall>b\<in>set (takeWhile (\<lambda>b. m_addr b \<le> a) S). m_addr b \<le> a \<and> used b"
    using wf_segs_all_used [OF assms] by (auto dest: set_takeWhileD)
  show "\<forall>b\<in>set (dropWhile (\<lambda>b. m_addr b \<le> a) S). a < m_addr b"
    using assms
  proof (induction S arbitrary: lo)
    case (Cons b S)
    have "\<forall>c\<in>set S. m_addr b + m_size b < m_addr c"
      using Cons.prems wf_segs_used by fastforce
    with Cons show ?case by auto
  qed simp
qed

text \<open>The array around the insertion point of \<open>a\<close>: segments \<open>L\<close> below, \<open>R\<close> above.\<close>

definition rm_at :: "rmap \<Rightarrow> int \<Rightarrow> mapent list \<Rightarrow> mapent list \<Rightarrow> mapent \<Rightarrow> mapent list \<Rightarrow> bool" where
  "rm_at mp a L R z Z \<longleftrightarrow> m_ent mp = L @ R @ z # Z \<and> wf_segs 0 (L @ R)
     \<and> (\<forall>b\<in>set (z # Z). \<not> used b) \<and> length Z = m_free mp
     \<and> (\<forall>b\<in>set L. m_addr b \<le> a) \<and> (\<forall>b\<in>set R. a < m_addr b)"

lemma rm_at_exists:
  assumes "rm_inv mp"
  obtains L R z Z where "rm_at mp a L R z Z"
proof -
  from assms obtain S z Z where S: "m_ent mp = S @ z # Z" "wf_segs 0 S"
      "\<forall>b\<in>set (z # Z). \<not> used b" "length Z = m_free mp"
    by (rule rm_repE)
  from S(2) obtain L R where "S = L @ R" "\<forall>b\<in>set L. m_addr b \<le> a \<and> used b"
      "\<forall>b\<in>set R. a < m_addr b"
    by (rule wf_segs_split)
  with S show ?thesis
    by (auto simp: rm_at_def intro!: that)
qed

lemma rm_at_used: "rm_at mp a L R z Z \<Longrightarrow> b \<in> set (L @ R) \<Longrightarrow> used b"
  unfolding rm_at_def using wf_segs_all_used by blast

lemma rm_at_space: "rm_at mp a L R z Z \<Longrightarrow> rm_space mp = fspace L \<union> fspace R"
  by (subst rm_repI(3) [of mp "L @ R" z Z]) (auto simp: rm_at_def)

lemma rm_at_segs: "rm_at mp a L R z Z \<Longrightarrow> rm_segs mp = L @ R"
  by (rule rm_repI(2) [of mp "L @ R" z Z]) (auto simp: rm_at_def)

lemma rm_at_scan:
  assumes "rm_at mp a L R z Z"
  shows "scan_after (m_ent mp) a 0 = Ok (length L)"
proof (cases R)
  case Nil
  have "scan_after (L @ z # Z) a 0 = Ok (0 + length L)"
    using assms rm_at_used [OF assms] by (intro scan_after_spec) (auto simp: rm_at_def)
  then show ?thesis using assms Nil by (simp add: rm_at_def)
next
  case (Cons r R')
  have "scan_after (L @ r # R' @ z # Z) a 0 = Ok (0 + length L)"
    using assms Cons rm_at_used [OF assms] by (intro scan_after_spec) (auto simp: rm_at_def)
  then show ?thesis using assms Cons by (simp add: rm_at_def)
qed

lemma rmfree_step:
  assumes "0 < a" "0 < n" and xs: "m_ent mp = L @ r # T" and "scan_after (m_ent mp) a 0 = Ok (length L)"
  shows "rmfree mp n a =
    (let e = int32 (m_addr (last L) + m_size (last L))
     in if L \<noteq> [] \<and> e \<ge> a then
          (if e > a then Panic ''bad rmfree''
           else if used r \<and> int32 (a + n) \<ge> m_addr r then
             (if int32 (a + n) > m_addr r then Panic ''bad rmfree''
              else obind (compress_while (butlast L @ (last L)\<lparr>m_size :=
                     int32 (int32 (m_size (last L) + n) + m_size r)\<rparr> # r # T) (length L))
                     (\<lambda>xs2. Ok (rm_done (mp\<lparr>m_ent := xs2, m_free := Suc (m_free mp)\<rparr>))))
           else Ok (rm_done (mp\<lparr>m_ent := butlast L @ (last L)\<lparr>m_size := int32 (m_size (last L) + n)\<rparr>
                                   # r # T\<rparr>)))
        else if int32 (a + n) \<ge> m_addr r \<and> used r then
          (if int32 (a + n) > m_addr r then Panic ''bad rmfree''
           else Ok (rm_done (mp\<lparr>m_ent := L @ \<lparr>m_size = int32 (m_size r + n),
                                    m_addr = int32 (m_addr r - n)\<rparr> # T\<rparr>)))
        else if m_free mp = 0 then obind (rm_discard mp (length L)) (\<lambda>mp'. rmfree mp' n a)
        else obind (push_up (m_ent mp) (length L) a n)
               (\<lambda>xs'. Ok (rm_done (mp\<lparr>m_ent := xs', m_free := m_free mp - 1\<rparr>))))"
proof (cases L rule: rev_cases)
  case Nil
  then show ?thesis
    using assms by (subst rmfree.simps) (simp add: Let_def)
next
  case (snoc L' l)
  then show ?thesis
    using assms by (subst rmfree.simps) (simp add: Let_def nth_append list_update_append)
qed

definition rm_touches :: "rmap \<Rightarrow> int \<Rightarrow> int \<Rightarrow> bool" where
  "rm_touches mp a n \<longleftrightarrow> a - 1 \<in> rm_space mp \<or> a + n \<in> rm_space mp"

definition rm_ext :: "rmap \<Rightarrow> rmap \<Rightarrow> bool" where
  "rm_ext mp mp' \<longleftrightarrow> rm_inv mp' \<and> length (m_ent mp') = length (m_ent mp)
     \<and> is_swapmap mp' = is_swapmap mp \<and> m_nam mp' = m_nam mp"

lemma disjoint_below_hi:
  assumes "wf_segs lo L" "L \<noteq> []" "0 < n" "\<forall>b\<in>set L. m_addr b \<le> a"
    "blk a n \<inter> fspace L = {}"
  shows "seg_hi lo L \<le> a"
proof -
  obtain L' l where L: "L = L' @ [l]" using assms(2) by (cases L rule: rev_cases) auto
  show ?thesis
  proof (rule ccontr)
    assume "\<not> seg_hi lo L \<le> a"
    then have "a \<in> blk a n" "a \<in> fspace L"
      using assms by (simp_all add: L)
    then show False using assms(5) by blast
  qed
qed


text \<open>The four ways to place a block that is not free yet.\<close>

lemma rm_at_below:
  assumes "rm_at mp a L R z Z" "0 < n" "blk a n \<inter> rm_space mp = {}" "0 \<le> a"
  shows "seg_hi 0 L \<le> a"
  using assms disjoint_below_hi [of 0 L n a] rm_at_space [OF assms(1)]
  by (cases "L = []") (auto simp: rm_at_def)

lemma rm_at_above:
  assumes "rm_at mp a L (r # R) z Z" "0 < n" "blk a n \<inter> rm_space mp = {}"
  shows "a + n \<le> m_addr r"
proof -
  have "blk a n \<inter> blk (m_addr r) (m_size r) = {}"
    using assms(3) rm_at_space [OF assms(1)] by auto
  then show ?thesis
    using assms(1,2) by (auto simp: rm_at_def blk_disjoint)
qed

lemma rmfree_join_both:
  assumes at: "rm_at mp a (L @ [l]) (r # R) z Z" and "0 < a" "0 < n" "a + n \<le> INT_MAX"
    and l: "m_addr l + m_size l = a" and r: "a + n = m_addr r"
  shows "rmfree mp n a = Ok (rm_done (mp\<lparr>m_ent := L @ l\<lparr>m_size := m_size l + n + m_size r\<rparr> # R @ z # z # Z,
           m_free := Suc (m_free mp)\<rparr>))"
proof -
  let ?l = "l\<lparr>m_size := m_size l + n + m_size r\<rparr>"
  have "compress_while ((L @ [?l]) @ r # R @ z # Z) (length (L @ [?l])) = Ok ((L @ [?l]) @ R @ z # z # Z)"
    using at rm_at_used [OF at] by (intro compress_while_spec) (auto simp: rm_at_def)
  then show ?thesis
    using at assms(2-) rm_at_used [OF at, of r] rm_at_scan [OF at] wf_segs_hi [of 0 L]
    by (subst rmfree_step [of a n mp "L @ [l]" r "R @ z # Z"]) (auto simp: rm_at_def Let_def add.assoc)
qed

lemma rmfree_join_left:
  assumes at: "rm_at mp a (L @ [l]) R z Z" and "0 < a" "0 < n" "a + n \<le> INT_MAX"
    and l: "m_addr l + m_size l = a" and r: "R \<noteq> [] \<Longrightarrow> a + n < m_addr (hd R)"
  shows "rmfree mp n a = Ok (rm_done (mp\<lparr>m_ent := L @ l\<lparr>m_size := m_size l + n\<rparr> # R @ z # Z\<rparr>))"
proof -
  obtain q Q where q: "R @ z # Z = q # Q" by (cases R) auto
  have "\<not> (used q \<and> int32 (a + n) \<ge> m_addr q)"
    using q r at assms(2-4) by (cases R) (auto simp: rm_at_def)
  then show ?thesis
    using at assms(2-5) rm_at_scan [OF at] wf_segs_hi [of 0 L] q
    by (subst rmfree_step [of a n mp "L @ [l]" q Q]) (auto simp: rm_at_def Let_def)
qed

lemma rmfree_join_right:
  assumes at: "rm_at mp a L (r # R) z Z" and "0 < a" "0 < n" "a + n \<le> INT_MAX"
    and l: "seg_hi 0 L < a" and r: "a + n = m_addr r"
  shows "rmfree mp n a = Ok (rm_done (mp\<lparr>m_ent := L @ \<lparr>m_size = m_size r + n, m_addr = a\<rparr> # R @ z # Z\<rparr>))"
proof -
  have a: "int32 (m_addr r - n) = a"
    using assms by simp
  have nl: "\<not> (L \<noteq> [] \<and> int32 (m_addr (last L) + m_size (last L)) \<ge> a)"
    using l at wf_segs_hi [of 0 "butlast L"]
    by (cases L rule: rev_cases) (auto simp: rm_at_def)
  have c: "int32 (a + n) = m_addr r" "used r" "int32 (m_size r + n) = m_size r + n"
    using at assms(2-4) r rm_at_used [OF at, of r] by (auto simp: rm_at_def)
  have "m_ent mp = L @ r # R @ z # Z"
    using at by (simp add: rm_at_def)
  from rmfree_step [OF assms(2,3) this rm_at_scan [OF at]] show ?thesis
    by (simp only: Let_def nl c a if_False if_True HOL.simp_thms order.refl less_irrefl split: if_split)
qed

lemma rmfree_alone:
  assumes at: "rm_at mp a L R z Z" and "0 < a" "0 < n" "a + n \<le> INT_MAX"
    and l: "seg_hi 0 L < a" and r: "R \<noteq> [] \<Longrightarrow> a + n < m_addr (hd R)"
  shows "rmfree mp n a =
    (if m_free mp = 0 then obind (rm_discard mp (length L)) (\<lambda>mp'. rmfree mp' n a)
     else Ok (rm_done (mp\<lparr>m_ent := L @ \<lparr>m_size = n, m_addr = a\<rparr> # R @ Z, m_free := m_free mp - 1\<rparr>)))"
proof -
  obtain q Q where q: "R @ z # Z = q # Q" by (cases R) auto
  have nq: "\<not> (int32 (a + n) \<ge> m_addr q \<and> used q)"
    using q r at assms(2-4) by (cases R) (auto simp: rm_at_def)
  have nl: "\<not> (L \<noteq> [] \<and> int32 (m_addr (last L) + m_size (last L)) \<ge> a)"
    using l at wf_segs_hi [of 0 "butlast L"]
    by (cases L rule: rev_cases) (auto simp: rm_at_def)
  have "push_up (L @ R @ z # Z) (length L) a n = Ok (L @ \<lparr>m_size = n, m_addr = a\<rparr> # R @ Z)"
    using at rm_at_used [OF at] by (intro push_up_spec) (auto simp: rm_at_def)
  then show ?thesis
    using at rm_at_scan [OF at] q nl nq assms(2,3)
    by (subst rmfree_step [of a n mp L q Q]) (auto simp: rm_at_def Let_def)
qed


text \<open>
  The segments after the block is in place.  Every case of the code gives this list, so the
  invariant and the space of the result are shown once.
\<close>

definition seg_join :: "mapent list \<Rightarrow> mapent list \<Rightarrow> int \<Rightarrow> int \<Rightarrow> mapent list" where
  "seg_join L R a n =
     (let (L', lo) = (if L \<noteq> [] \<and> seg_hi 0 L = a then (butlast L, m_addr (last L)) else (L, a));
          (R', hi) = (if R \<noteq> [] \<and> a + n = m_addr (hd R) then (tl R, a + n + m_size (hd R)) else (R, a + n))
      in L' @ \<lparr>m_size = hi - lo, m_addr = lo\<rparr> # R')"

lemma seg_join_wf:
  assumes "wf_segs 0 (L @ R)" "0 < a" "0 < n" "a + n \<le> INT_MAX" "seg_hi 0 L \<le> a"
    "R \<noteq> [] \<Longrightarrow> a + n \<le> m_addr (hd R)"
  shows "wf_segs 0 (seg_join L R a n)"
  using assms
  by (cases L rule: rev_cases; cases R) (auto simp: seg_join_def)

lemma seg_join_space:
  assumes "wf_segs 0 (L @ R)" "0 < n" "seg_hi 0 L \<le> a" "R \<noteq> [] \<Longrightarrow> a + n \<le> m_addr (hd R)"
  shows "fspace (seg_join L R a n) = fspace L \<union> fspace R \<union> blk a n"
  using assms
  by (cases L rule: rev_cases; cases R) (auto simp: seg_join_def)

definition rm_joins :: "mapent list \<Rightarrow> mapent list \<Rightarrow> int \<Rightarrow> int \<Rightarrow> bool" where
  "rm_joins L R a n \<longleftrightarrow> L \<noteq> [] \<and> seg_hi 0 L = a \<or> R \<noteq> [] \<and> a + n = m_addr (hd R)"

text \<open>Placing a block: the resulting array, given that the block joins a neighbour or a slot is free.\<close>

lemma rmfree_placed:
  assumes at: "rm_at mp a L R z Z" and a: "0 < a" and n: "0 < n" and le: "a + n \<le> INT_MAX"
    and lo: "seg_hi 0 L \<le> a" and hi: "R \<noteq> [] \<Longrightarrow> a + n \<le> m_addr (hd R)"
    and room: "0 < m_free mp \<or> rm_joins L R a n"
  shows "\<exists>mp' z' Z'. rmfree mp n a = Ok (rm_done mp') \<and> m_ent mp' = seg_join L R a n @ z' # Z'
           \<and> (\<forall>b\<in>set (z' # Z'). \<not> used b) \<and> length Z' = m_free mp'
           \<and> length (m_ent mp') = length (m_ent mp) \<and> m_lost mp' = m_lost mp
           \<and> is_swapmap mp' = is_swapmap mp \<and> m_nam mp' = m_nam mp"
proof -
  have zs: "\<forall>b\<in>set (z # Z). \<not> used b" "length Z = m_free mp" "m_ent mp = L @ R @ z # Z"
    using at by (auto simp: rm_at_def)
  consider (both) L' l r R' where "L = L' @ [l]" "m_addr l + m_size l = a" "R = r # R'" "a + n = m_addr r"
    | (left) L' l where "L = L' @ [l]" "m_addr l + m_size l = a" "R \<noteq> [] \<longrightarrow> a + n < m_addr (hd R)"
    | (right) r R' where "seg_hi 0 L < a" "R = r # R'" "a + n = m_addr r"
    | (alone) "seg_hi 0 L < a" "R \<noteq> [] \<longrightarrow> a + n < m_addr (hd R)" "0 < m_free mp"
    using lo hi room a by (cases L rule: rev_cases; cases R) (force simp: rm_joins_def)+
  then show ?thesis
  proof cases
    case both
    show ?thesis
      using rmfree_join_both [of mp a L' l r R' z Z n] at a n le both zs
      by (force simp: seg_join_def)
  next
    case left
    show ?thesis
      using rmfree_join_left [of mp a L' l R z Z n] at a n le left zs
      by (force simp: seg_join_def)
  next
    case right
    show ?thesis
      using rmfree_join_right [of mp a L r R' z Z n] at a n le right zs
      by (force simp: seg_join_def)
  next
    case alone
    then obtain z' Z' where Z: "Z = z' # Z'" using zs by (cases Z) auto
    have "rmfree mp n a = Ok (rm_done (mp\<lparr>m_ent := L @ \<lparr>m_size = n, m_addr = a\<rparr> # R @ Z,
            m_free := m_free mp - 1\<rparr>))"
      using rmfree_alone [of mp a L R z Z n] at a n le alone by simp
    then show ?thesis
      using alone zs by (force simp: seg_join_def Z)
  qed
qed

text \<open>
  Freeing a block that is not free already, when it joins a neighbour or a slot is left: the
  block is added to the space of the map and nothing is lost.
\<close>

lemma rm_joins_touches:
  assumes at: "rm_at mp a L R z Z" and "0 < n" "seg_hi 0 L \<le> a" "R \<noteq> [] \<Longrightarrow> a + n \<le> m_addr (hd R)"
    and touch: "rm_touches mp a n"
  shows "rm_joins L R a n"
proof (rule ccontr)
  assume no: "\<not> rm_joins L R a n"
  have bl: "x \<in> fspace L \<Longrightarrow> x < seg_hi 0 L" for x
    using fspace_bounds [of 0 L] at by (auto simp: rm_at_def)
  have br: "x \<in> fspace R \<Longrightarrow> R \<noteq> [] \<and> m_addr (hd R) \<le> x" for x
    using fspace_bounds [of "m_addr (hd R) + m_size (hd R)" "tl R" x] at
    by (cases R) (auto simp: rm_at_def)
  show False
    using touch rm_at_space [OF at] bl [of "a - 1"] bl [of "a + n"] br [of "a - 1"] br [of "a + n"]
      no assms(2-4) by (fastforce simp: rm_touches_def rm_joins_def)
qed

lemma rmfree_adds:
  assumes inv: "rm_inv mp" and a: "0 < a" and n: "0 < n" and le: "a + n \<le> INT_MAX"
    and disj: "blk a n \<inter> rm_space mp = {}" and room: "0 < m_free mp \<or> rm_touches mp a n"
  shows "\<exists>mp'. rmfree mp n a = Ok mp' \<and> rm_ext mp mp' \<and> rm_space mp' = rm_space mp \<union> blk a n
           \<and> m_lost mp' = m_lost mp"
proof -
  from inv obtain L R z Z where at: "rm_at mp a L R z Z"
    by (rule rm_at_exists)
  have lo: "seg_hi 0 L \<le> a" using rm_at_below [OF at n disj] a by simp
  have hi: "R \<noteq> [] \<Longrightarrow> a + n \<le> m_addr (hd R)"
    using rm_at_above [of mp a L "hd R" "tl R" z Z n] at n disj by (cases R) auto
  have wf: "wf_segs 0 (L @ R)" using at by (simp add: rm_at_def)
  obtain mp' z' Z' where r: "rmfree mp n a = Ok (rm_done mp')" "m_ent mp' = seg_join L R a n @ z' # Z'"
      "\<forall>b\<in>set (z' # Z'). \<not> used b" "length Z' = m_free mp'" "length (m_ent mp') = length (m_ent mp)"
      "m_lost mp' = m_lost mp" "is_swapmap mp' = is_swapmap mp" "m_nam mp' = m_nam mp"
    using rmfree_placed [OF at a n le lo hi] room rm_joins_touches [OF at n lo hi] by blast
  have "rm_inv (rm_done mp')" "rm_space (rm_done mp') = fspace (seg_join L R a n)"
    using rm_repI [of "rm_done mp'" "seg_join L R a n" z' Z'] r seg_join_wf [OF wf a n le lo hi]
    by simp_all
  then show ?thesis
    using r seg_join_space [OF wf n lo hi] rm_at_space [OF at] by (auto simp: rm_ext_def)
qed

text \<open>Freeing a block that overlaps a free segment is detected.\<close>

lemma rmfree_overlap:
  assumes inv: "rm_inv mp" and a: "0 < a" and n: "0 < n" and le: "a + n \<le> INT_MAX"
    and over: "blk a n \<inter> rm_space mp \<noteq> {}"
  shows "rmfree mp n a = Panic ''bad rmfree''"
proof -
  from inv obtain L R z Z where at: "rm_at mp a L R z Z"
    by (rule rm_at_exists)
  obtain q Q where q: "R @ z # Z = q # Q" by (cases R) auto
  have xs: "m_ent mp = L @ q # Q" using at q by (simp add: rm_at_def)
  show ?thesis
  proof (cases "L \<noteq> [] \<and> a < seg_hi 0 L")
    case True
    then show ?thesis
      using at wf_segs_hi [of 0 "butlast L"]
      by (cases L rule: rev_cases)
         (auto simp: rmfree_step [OF a n xs rm_at_scan [OF at]] Let_def rm_at_def)
  next
    case False
    from over have "\<exists>x. a \<le> x \<and> x < a + n \<and> (x \<in> fspace L \<or> x \<in> fspace R)"
      unfolding rm_at_space [OF at] by auto
    then obtain x where x: "a \<le> x" "x < a + n" "x \<in> fspace L \<or> x \<in> fspace R"
      by blast
    have "x \<notin> fspace L"
      using fspace_bounds [of 0 L x] False x at by (auto simp: rm_at_def)
    then have "x \<in> fspace R" using x by blast
    then obtain r R' where R: "R = r # R'" by (cases R) auto
    have r: "m_addr r < a + n"
      using \<open>x \<in> fspace R\<close> x at fspace_bounds [of "m_addr r + m_size r" R' x]
      by (auto simp: R rm_at_def)
    show ?thesis
      using at False r q wf_segs_hi [of 0 "butlast L"] rm_at_used [OF at, of r] a n le
      by (cases L rule: rev_cases)
         (auto simp: rmfree_step [OF a n xs rm_at_scan [OF at]] R Let_def rm_at_def)
  qed
qed


text \<open>
  The overflow path: the smaller of the last two segments is discarded and reported, and the
  block is then placed.
\<close>

definition lost_space :: "rmap \<Rightarrow> int set" where
  "lost_space mp = (\<Union>(lo, hi)\<in>set (m_lost mp). {lo..<hi})"

lemma rm_discard_last:
  assumes inv: "rm_inv mp" and S: "rm_segs mp = T @ [x, y]" and i: "i \<le> length T + 2"
  shows "\<exists>mp' v w. rm_discard mp i = Ok mp' \<and> rm_inv mp' \<and> rm_segs mp' = T @ [w]
           \<and> {v, w} = {x, y} \<and> m_size v \<le> m_size w \<and> m_free mp' = Suc (m_free mp)
           \<and> m_lost mp' = m_lost mp @ [(m_addr v, m_addr v + m_size v)]
           \<and> length (m_ent mp') = length (m_ent mp) \<and> is_swapmap mp' = is_swapmap mp
           \<and> m_nam mp' = m_nam mp"
proof -
  from inv obtain S z Z where "m_ent mp = S @ z # Z" "rm_segs mp = S" "wf_segs 0 S"
      and zs: "\<forall>b\<in>set (z # Z). \<not> used b" "length Z = m_free mp"
    by (rule rm_repE)
  with S have xs: "m_ent mp = T @ [x, y] @ z # Z" and wf: "wf_segs 0 (T @ [x, y])"
    by simp_all
  have us: "\<forall>b\<in>set (drop i (T @ [x, y])). used b"
    using wf_segs_all_used [OF wf] by (meson in_set_dropD)
  have "scan_end (drop i (T @ [x, y]) @ z # Z) i = Ok (i + length (drop i (T @ [x, y])))"
    using us zs by (intro scan_end_spec) auto
  moreover have "drop i (m_ent mp) = drop i (T @ [x, y]) @ z # Z"
    using i unfolding xs append_assoc [symmetric] by (subst drop_append) simp
  moreover have "i + length (drop i (T @ [x, y])) = length T + 2"
    using i by (simp del: drop_append)
  ultimately have sc: "scan_end (drop i (m_ent mp)) i = Ok (length T + 2)"
    by metis
  have z0: "z\<lparr>m_size := 0\<rparr> = z" using zs by simp
  have pos: "0 \<le> seg_hi 0 T" using wf wf_segs_hi [of 0 T] by simp
  define mp' where "mp' = (if m_size x < m_size y
      then mp\<lparr>m_ent := T @ [y] @ y\<lparr>m_size := 0\<rparr> # z # Z, m_free := Suc (m_free mp),
              m_lost := m_lost mp @ [(m_addr x, m_addr x + m_size x)]\<rparr>
      else mp\<lparr>m_ent := T @ [x] @ z # z # Z, m_free := Suc (m_free mp),
              m_lost := m_lost mp @ [(m_addr y, m_addr y + m_size y)]\<rparr>)"
  have d: "rm_discard mp i = Ok mp'"
    using wf pos z0 unfolding rm_discard_def sc
    by (simp add: mp'_def xs Let_def nth_append list_update_append)
  have "rm_inv mp' \<and> rm_segs mp' = T @ [if m_size x < m_size y then y else x]"
  proof (cases "m_size x < m_size y")
    case True
    then show ?thesis
      using rm_repI(1,2) [of mp' "T @ [y]" "y\<lparr>m_size := 0\<rparr>" "z # Z"] wf zs by (simp add: mp'_def)
  next
    case False
    then show ?thesis
      using rm_repI(1,2) [of mp' "T @ [x]" z "z # Z"] wf zs by (simp add: mp'_def)
  qed
  then show ?thesis
    using d by (cases "m_size x < m_size y") (auto simp: mp'_def xs)
qed

lemma rm_at_apart:
  assumes at: "rm_at mp a L R z Z" and "0 < a" "0 < n" "seg_hi 0 L \<le> a"
    "R \<noteq> [] \<Longrightarrow> a + n \<le> m_addr (hd R)" and no: "\<not> rm_touches mp a n"
  shows "seg_hi 0 L < a" "R \<noteq> [] \<Longrightarrow> a + n < m_addr (hd R)"
proof -
  have no': "a - 1 \<notin> fspace L" "a + n \<notin> fspace R"
    using no rm_at_space [OF at] by (auto simp: rm_touches_def)
  show "seg_hi 0 L < a"
    using no'(1) assms(2,4) at by (cases L rule: rev_cases) (auto simp: rm_at_def)
  show "R \<noteq> [] \<Longrightarrow> a + n < m_addr (hd R)"
    using no'(2) assms(5) at by (cases R) (auto simp: rm_at_def)
qed

lemma rmfree_overflow:
  assumes inv: "rm_inv mp" and a: "0 < a" and n: "0 < n" and le: "a + n \<le> INT_MAX"
    and disj: "blk a n \<inter> rm_space mp = {}" and full: "m_free mp = 0" "\<not> rm_touches mp a n"
    and two: "3 \<le> length (m_ent mp)"
  shows "\<exists>mp' v. rmfree mp n a = Ok mp' \<and> rm_ext mp mp' \<and> v \<in> set (rm_segs mp)
           \<and> rm_space mp' = rm_space mp - blk (m_addr v) (m_size v) \<union> blk a n
           \<and> m_lost mp' = m_lost mp @ [(m_addr v, m_addr v + m_size v)]"
proof -
  from inv obtain L R z Z where at: "rm_at mp a L R z Z"
    by (rule rm_at_exists)
  have lo: "seg_hi 0 L \<le> a" using rm_at_below [OF at n disj] a by simp
  have hi: "R \<noteq> [] \<Longrightarrow> a + n \<le> m_addr (hd R)"
    using rm_at_above [of mp a L "hd R" "tl R" z Z n] at n disj by (cases R) auto
  note apart = rm_at_apart [OF at a n lo hi full(2)]
  have "length (rm_segs mp) = length (m_ent mp) - 1"
    using rm_inv_length [OF inv] full(1) by simp
  then obtain T x y where S: "rm_segs mp = T @ [x, y]"
    using two by (cases "rm_segs mp" rule: rev_cases; cases "butlast (rm_segs mp)" rule: rev_cases) auto
  have "length L \<le> length T + 2"
    using arg_cong [OF S, of length] by (simp add: rm_at_segs [OF at])
  then obtain mp1 v w where d: "rm_discard mp (length L) = Ok mp1" "rm_inv mp1" "rm_segs mp1 = T @ [w]"
      "{v, w} = {x, y}" "m_free mp1 = Suc (m_free mp)" "m_lost mp1 = m_lost mp @ [(m_addr v, m_addr v + m_size v)]"
      "length (m_ent mp1) = length (m_ent mp)" "is_swapmap mp1 = is_swapmap mp" "m_nam mp1 = m_nam mp"
    using rm_discard_last [OF inv S, of "length L"] by blast
  have wf: "wf_segs 0 (T @ [x, y])" using inv unfolding rm_inv_def S by blast
  have xy: "m_addr x + m_size x < m_addr y" "seg_hi 0 T < m_addr x" using wf by simp_all
  have T: "p \<in> fspace T \<Longrightarrow> p < m_addr x" for p
    using fspace_bounds [of 0 T p] wf by simp
  have sp1: "rm_space mp1 = rm_space mp - blk (m_addr v) (m_size v)"
    using d(4) xy wf unfolding rm_space_def d(3) S
    by (auto simp: doubleton_eq_iff dest!: T)
  obtain mp' where r: "rmfree mp1 n a = Ok mp'" "rm_ext mp1 mp'" "rm_space mp' = rm_space mp1 \<union> blk a n"
      "m_lost mp' = m_lost mp1"
    using rmfree_adds [OF d(2) a n le] d(5) sp1 disj by fastforce
  have "v \<in> set (rm_segs mp)" using d(4) S by (auto simp: doubleton_eq_iff)
  then show ?thesis
    using r d sp1 rmfree_alone [OF at a n le apart] full(1) by (auto simp: rm_ext_def)
qed

text \<open>Both cases in one statement: what is freed or lost is accounted for.\<close>

lemma rmfree_total:
  assumes inv: "rm_inv mp" and a: "0 < a" and n: "0 < n" and le: "a + n \<le> INT_MAX"
    and disj: "blk a n \<inter> rm_space mp = {}" and room: "0 < m_free mp \<or> 3 \<le> length (m_ent mp)"
  shows "\<exists>mp'. rmfree mp n a = Ok mp' \<and> rm_ext mp mp' \<and> rm_space mp' \<subseteq> rm_space mp \<union> blk a n
           \<and> blk a n \<subseteq> rm_space mp'
           \<and> rm_space mp' \<union> lost_space mp' = rm_space mp \<union> lost_space mp \<union> blk a n"
proof (cases "0 < m_free mp \<or> rm_touches mp a n")
  case True
  from rmfree_adds [OF inv a n le disj this] obtain mp' where
      "rmfree mp n a = Ok mp'" "rm_ext mp mp'" "rm_space mp' = rm_space mp \<union> blk a n"
      "m_lost mp' = m_lost mp"
    by blast
  then show ?thesis by (intro exI [of _ mp']) (auto simp: lost_space_def)
next
  case False
  then obtain mp' v where r: "rmfree mp n a = Ok mp'" "rm_ext mp mp'" "v \<in> set (rm_segs mp)"
      "rm_space mp' = rm_space mp - blk (m_addr v) (m_size v) \<union> blk a n"
      "m_lost mp' = m_lost mp @ [(m_addr v, m_addr v + m_size v)]"
    using rmfree_overflow [OF inv a n le disj] room by auto
  have "blk (m_addr v) (m_size v) \<subseteq> rm_space mp"
    using r(3) by (auto simp: rm_space_def fspace_def)
  with r show ?thesis by (intro exI [of _ mp']) (auto simp: lost_space_def)
qed


text \<open>What is left of a segment when a block is cut out of it.\<close>

definition seg_cut :: "mapent \<Rightarrow> int \<Rightarrow> int \<Rightarrow> mapent list" where
  "seg_cut b a n =
     (if m_addr b = a then [] else [b\<lparr>m_size := a - m_addr b\<rparr>])
     @ (if a + n = m_addr b + m_size b then []
        else [\<lparr>m_size = m_addr b + m_size b - (a + n), m_addr = a + n\<rparr>])"

lemma split_seg_space:
  assumes "wf_segs lo (P @ b # R)"
  shows "x \<in> fspace P \<Longrightarrow> x < m_addr b" "x \<in> fspace R \<Longrightarrow> m_addr b + m_size b < x"
  using assms fspace_bounds [of lo P x] fspace_bounds [of "m_addr b + m_size b" R x] by auto

lemma seg_cut_wf:
  assumes "wf_segs lo (P @ b # R)" "m_addr b \<le> a" "0 < n" "a + n \<le> m_addr b + m_size b"
  shows "wf_segs lo (P @ seg_cut b a n @ R)"
  using assms wf_segs_mono [of "m_addr b + m_size b" R "seg_hi lo P"]
    wf_segs_mono [of "m_addr b + m_size b" R a]
  by (auto simp: seg_cut_def)

lemma seg_cut_space:
  assumes wf: "wf_segs lo (P @ b # R)" and b: "m_addr b \<le> a" "0 < n" "a + n \<le> m_addr b + m_size b"
  shows "fspace (P @ seg_cut b a n @ R) = fspace (P @ b # R) - blk a n"
proof -
  have "fspace (seg_cut b a n) = blk (m_addr b) (m_size b) - blk a n"
    using b by (auto simp: seg_cut_def)
  moreover have "fspace P \<inter> blk a n = {}" "fspace R \<inter> blk a n = {}"
    using split_seg_space [OF wf] b by fastforce+
  ultimately show ?thesis by auto
qed

text \<open>A map whose array holds the cut segment list.\<close>

lemma rm_cut:
  assumes wf: "wf_segs 0 (P @ b # R)" and b: "m_addr b \<le> a" "0 < n" "a + n \<le> m_addr b + m_size b"
    and S: "rm_segs mp = P @ b # R"
    and mp': "m_ent mp' = P @ seg_cut b a n @ R @ z # Z" "\<forall>b\<in>set (z # Z). \<not> used b" "length Z = m_free mp'"
      "length (m_ent mp') = length (m_ent mp)" "is_swapmap mp' = is_swapmap mp" "m_nam mp' = m_nam mp"
  shows "rm_ext mp mp'" "rm_space mp' = rm_space mp - blk a n"
proof -
  have "rm_inv mp'" "rm_space mp' = fspace (P @ seg_cut b a n @ R)"
    using rm_repI [of mp' "P @ seg_cut b a n @ R" z Z] mp' seg_cut_wf [OF wf b] by simp_all
  then show "rm_ext mp mp'" "rm_space mp' = rm_space mp - blk a n"
    using mp' seg_cut_space [OF wf b] by (simp_all add: rm_ext_def rm_space_def S)
qed


section \<open>rmalloc\<close>

definition swap_ok :: "swapcfg \<Rightarrow> bool" where
  "swap_ok sc \<longleftrightarrow> 0 < dmmax sc \<and> dmmax sc \<le> INT_MAX"

text \<open>
  What the loop asks of a segment: big enough, and on an interleaved swap map big enough
  behind the next interleaving boundary when it crosses one.
\<close>

definition to_boundary :: "swapcfg \<Rightarrow> mapent \<Rightarrow> int" where
  "to_boundary sc b = dmmax sc - m_addr b mod dmmax sc"

definition interleaved :: "swapcfg \<Rightarrow> rmap \<Rightarrow> mapent \<Rightarrow> bool" where
  "interleaved sc mp b \<longleftrightarrow> is_swapmap mp \<and> 1 < nswdev sc \<and> to_boundary sc b < m_size b"

definition rm_fits :: "swapcfg \<Rightarrow> rmap \<Rightarrow> int \<Rightarrow> mapent \<Rightarrow> bool" where
  "rm_fits sc mp n b \<longleftrightarrow>
     (if interleaved sc mp b then n \<le> m_size b - to_boundary sc b else n \<le> m_size b)"

lemma to_boundary_bounds: "swap_ok sc \<Longrightarrow> 0 < to_boundary sc b \<and> to_boundary sc b \<le> dmmax sc"
  by (simp add: swap_ok_def to_boundary_def)

lemma to_boundary_int32:
  assumes "swap_ok sc" "0 < m_addr b"
  shows "int32 (dmmax sc - m_addr b smod dmmax sc) = to_boundary sc b"
  using assms to_boundary_bounds [OF assms(1), of b] by (simp add: swap_ok_def to_boundary_def)

lemma rmalloc_skip:
  assumes "swap_ok sc" "m_ent mp = P @ b # T" "used b" "\<not> rm_fits sc mp n b"
    "0 < m_addr b" "0 < m_size b" "m_addr b + m_size b \<le> INT_MAX" "0 < n"
  shows "rmalloc_loop sc mp n (length P) = rmalloc_loop sc mp n (Suc (length P))"
  using assms to_boundary_bounds [OF assms(1), of b] to_boundary_int32 [OF assms(1), of b]
  by (subst rmalloc_loop.simps)
     (auto simp: rm_fits_def interleaved_def Let_def swap_ok_def split: if_splits)

lemma rmalloc_skips:
  assumes "swap_ok sc" "m_ent mp = P @ Q @ T" "wf_segs lo Q" "0 \<le> lo"
    "\<forall>b\<in>set Q. \<not> rm_fits sc mp n b" "0 < n"
  shows "rmalloc_loop sc mp n (length P) = rmalloc_loop sc mp n (length (P @ Q))"
  using assms
proof (induction Q arbitrary: P lo)
  case (Cons b Q)
  have "rmalloc_loop sc mp n (length P) = rmalloc_loop sc mp n (length (P @ [b]))"
    using rmalloc_skip [of sc mp P b "Q @ T" n] Cons.prems by simp
  also have "\<dots> = rmalloc_loop sc mp n (length ((P @ [b]) @ Q))"
    using Cons.prems by (intro Cons.IH [where lo = "m_addr b + m_size b"]) auto
  finally show ?case by simp
qed simp

text \<open>The result of the loop at the first segment that fits.\<close>

definition rm_take :: "swapcfg \<Rightarrow> rmap \<Rightarrow> int \<Rightarrow> mapent list \<Rightarrow> mapent \<Rightarrow> mapent list \<Rightarrow> (int \<times> rmap) outcome" where
  "rm_take sc mp n P b T =
     (if interleaved sc mp b then
        (let f = to_boundary sc b; mp1 = mp\<lparr>m_ent := P @ b\<lparr>m_size := f\<rparr> # T\<rparr>
         in if m_size b - f = n then Ok (m_addr b + f, mp1)
            else obind (rmfree mp1 (m_size b - f - n) (m_addr b + f + n)) (\<lambda>mp2. Ok (m_addr b + f, mp2)))
      else if m_size b = n then
        obind (compress_do (P @ \<lparr>m_size = 0, m_addr = m_addr b + n\<rparr> # T) (length P))
          (\<lambda>xs. Ok (m_addr b, mp\<lparr>m_ent := xs, m_free := Suc (m_free mp)\<rparr>))
      else Ok (m_addr b, mp\<lparr>m_ent := P @ \<lparr>m_size = m_size b - n, m_addr = m_addr b + n\<rparr> # T\<rparr>))"

lemma rmalloc_take:
  assumes sc: "swap_ok sc" and xs: "m_ent mp = P @ b # T" and fit: "rm_fits sc mp n b"
    and b: "0 < m_addr b" "0 < m_size b" "m_addr b + m_size b \<le> INT_MAX" "0 < n"
  shows "rmalloc_loop sc mp n (length P) = rm_take sc mp n P b T"
proof (cases "interleaved sc mp b")
  case True
  then show ?thesis
    using assms to_boundary_bounds [OF sc, of b] to_boundary_int32 [OF sc, of b]
    by (subst rmalloc_loop.simps)
       (auto simp: rm_take_def rm_fits_def interleaved_def Let_def swap_ok_def)
next
  case False
  have sz: "int32 (m_size b - n) = m_size b - n" "int32 (m_addr b + n) = m_addr b + n" "n \<le> m_size b"
    using False fit b by (auto simp: rm_fits_def)
  have cl: "m_addr b smod CLSIZE = 0"
    by (simp add: CLSIZE_def signed_modulo_int_def)
  have d0: "dmmax sc \<noteq> 0"
    using sc by (simp add: swap_ok_def)
  have bd: "\<not> (is_swapmap mp \<and> nswdev sc > 1 \<and> int32 (dmmax sc - m_addr b smod dmmax sc) < m_size b)"
    using False to_boundary_int32 [OF sc b(1)] by (auto simp: interleaved_def)
  have big: "\<not> m_size b < n" "m_size b \<noteq> 0" "length P < length (m_ent mp)" "m_ent mp ! length P = b"
    using sz(3) b xs by simp_all
  have "rmalloc_loop sc mp n (length P) =
      obind (if m_size b - n = 0
             then obind (compress_do ((m_ent mp)[length P := \<lparr>m_size = m_size b - n, m_addr = m_addr b + n\<rparr>]) (length P))
                    (\<lambda>xs2. Ok (mp\<lparr>m_ent := xs2, m_free := Suc (m_free mp)\<rparr>))
             else Ok (mp\<lparr>m_ent := (m_ent mp)[length P := \<lparr>m_size = m_size b - n, m_addr = m_addr b + n\<rparr>]\<rparr>))
        (\<lambda>mp2. Ok (m_addr b, mp2))"
    by (subst rmalloc_loop.simps) (simp only: Let_def big sz cl bd d0 if_False if_True HOL.simp_thms mapent.simps)
  then show ?thesis
    using False xs sz(3) by (simp add: rm_take_def obind_assoc list_update_append del: obind_eq_Ok)
qed


lemma rmalloc_none:
  assumes inv: "rm_inv mp" and sc: "swap_ok sc" and n: "0 < n" "is_swapmap mp \<longrightarrow> n \<le> dmmax sc"
    and no: "\<forall>b\<in>set (rm_segs mp). \<not> rm_fits sc mp n b"
  shows "rmalloc sc mp n = Ok (0, mp)"
proof -
  from inv obtain S z Z where S: "m_ent mp = S @ z # Z" "rm_segs mp = S" "wf_segs 0 S"
      "\<forall>b\<in>set (z # Z). \<not> used b"
    by (rule rm_repE)
  have "rmalloc_loop sc mp n 0 = rmalloc_loop sc mp n (length S)"
    using rmalloc_skips [of sc mp "[]" S "z # Z" 0 n] S sc n no by simp
  also have "\<dots> = Ok (0, mp)"
    using S by (subst rmalloc_loop.simps) simp
  finally show ?thesis using n by (auto simp: rmalloc_def)
qed

lemma rmalloc_first:
  assumes inv: "rm_inv mp" and sc: "swap_ok sc" and n: "0 < n" "is_swapmap mp \<longrightarrow> n \<le> dmmax sc"
    and S: "rm_segs mp = P @ b # R" and no: "\<forall>c\<in>set P. \<not> rm_fits sc mp n c" and fit: "rm_fits sc mp n b"
  obtains z Z where "rmalloc sc mp n = rm_take sc mp n P b (R @ z # Z)"
    "m_ent mp = P @ b # R @ z # Z" "wf_segs 0 (P @ b # R)" "\<forall>b\<in>set (z # Z). \<not> used b" "length Z = m_free mp"
proof -
  from inv S obtain z Z where xs: "m_ent mp = P @ b # R @ z # Z" "wf_segs 0 (P @ b # R)"
      "\<forall>b\<in>set (z # Z). \<not> used b" "length Z = m_free mp"
    by (elim rm_repE) auto
  have "rmalloc_loop sc mp n 0 = rmalloc_loop sc mp n (length P)"
    using rmalloc_skips [of sc mp "[]" P "b # R @ z # Z" 0 n] xs sc n no by simp
  also have "\<dots> = rm_take sc mp n P b (R @ z # Z)"
    using xs sc n fit wf_segs_hi [of 0 P] by (intro rmalloc_take) auto
  finally show ?thesis using n xs by (intro that) (auto simp: rmalloc_def)
qed

text \<open>Plain allocation takes the front of the segment.\<close>

lemma rm_take_plain:
  assumes xs: "m_ent mp = P @ b # R @ z # Z" and wf: "wf_segs 0 (P @ b # R)"
    and zs: "\<forall>b\<in>set (z # Z). \<not> used b" "length Z = m_free mp"
    and plain: "\<not> interleaved sc mp b" and n: "0 < n" "n \<le> m_size b"
  shows "\<exists>mp'. rm_take sc mp n P b (R @ z # Z) = Ok (m_addr b, mp') \<and> rm_ext mp mp'
           \<and> rm_space mp' = rm_space mp - blk (m_addr b) n \<and> m_lost mp' = m_lost mp"
proof -
  have S: "rm_segs mp = P @ b # R"
    using rm_repI(2) [of mp "P @ b # R" z Z] xs wf zs by simp
  have b: "m_addr b \<le> m_addr b" "m_addr b + n \<le> m_addr b + m_size b" using n by simp_all
  show ?thesis
  proof (cases "m_size b = n")
    case True
    let ?mp = "mp\<lparr>m_ent := P @ R @ z # z # Z, m_free := Suc (m_free mp)\<rparr>"
    have "compress_do (P @ \<lparr>m_size = 0, m_addr = m_addr b + n\<rparr> # R @ z # Z) (length P) = Ok (P @ R @ z # z # Z)"
      using wf_segs_all_used [OF wf] zs by (intro compress_do_spec) auto
    then have "rm_take sc mp n P b (R @ z # Z) = Ok (m_addr b, ?mp)"
      using plain True by (simp add: rm_take_def)
    then show ?thesis
      using rm_cut [OF wf b(1) n(1) b(2) S, of ?mp z "z # Z"] True xs zs by (simp add: seg_cut_def)
  next
    case False
    let ?b = "\<lparr>m_size = m_size b - n, m_addr = m_addr b + n\<rparr>"
    let ?mp = "mp\<lparr>m_ent := P @ ?b # R @ z # Z\<rparr>"
    have "rm_take sc mp n P b (R @ z # Z) = Ok (m_addr b, ?mp)"
      using plain False by (simp add: rm_take_def)
    then show ?thesis
      using rm_cut [OF wf b(1) n(1) b(2) S, of ?mp z Z] False xs zs by (simp add: seg_cut_def)
  qed
qed

text \<open>
  Allocation from an interleaved swap map takes the space behind the boundary and frees what
  is left behind the block.
\<close>

lemma rm_take_interleaved:
  assumes xs: "m_ent mp = P @ b # R @ z # Z" and wf: "wf_segs 0 (P @ b # R)"
    and zs: "\<forall>b\<in>set (z # Z). \<not> used b" "length Z = m_free mp" and sc: "swap_ok sc"
    and il: "interleaved sc mp b" and n: "0 < n" "n \<le> m_size b - to_boundary sc b"
    and slots: "3 \<le> length (m_ent mp)"
  shows "\<exists>mp'. rm_take sc mp n P b (R @ z # Z) = Ok (m_addr b + to_boundary sc b, mp') \<and> rm_ext mp mp'
           \<and> rm_space mp' \<subseteq> rm_space mp - blk (m_addr b + to_boundary sc b) n
           \<and> rm_space mp' \<union> lost_space mp' \<union> blk (m_addr b + to_boundary sc b) n
               = rm_space mp \<union> lost_space mp"
proof -
  define f where "f = to_boundary sc b"
  let ?a = "m_addr b + f" and ?b = "b\<lparr>m_size := f\<rparr>"
  let ?mp = "mp\<lparr>m_ent := P @ ?b # R @ z # Z\<rparr>"
  have f: "0 < f" "f < m_size b" "n \<le> m_size b - f"
    using to_boundary_bounds [OF sc] il n by (auto simp: f_def interleaved_def)
  have pos: "0 < m_addr b" "m_addr b + m_size b \<le> INT_MAX"
    using wf wf_segs_hi [of 0 P] by auto
  have sp: "rm_space mp = fspace (P @ b # R)"
    using rm_repI(3) [of mp "P @ b # R" z Z] xs wf zs by simp
  have mp1: "rm_inv ?mp" "rm_space ?mp = fspace (P @ ?b # R)"
    using rm_repI [of ?mp "P @ ?b # R" z Z] wf zs f
      wf_segs_mono [of "m_addr b + m_size b" R "m_addr b + f"] by auto
  have sp1: "fspace (P @ b # R) = fspace (P @ ?b # R) \<union> blk ?a (m_size b - f)"
    "blk ?a (m_size b - f) \<inter> fspace (P @ ?b # R) = {}"
    using split_seg_space [OF wf] f by fastforce+
  have take: "rm_take sc mp n P b (R @ z # Z) =
      (if m_size b - f = n then Ok (?a, ?mp)
       else obind (rmfree ?mp (m_size b - f - n) (?a + n)) (\<lambda>mp2. Ok (?a, mp2)))"
    using il by (simp add: rm_take_def f_def Let_def)
  show ?thesis
  proof (cases "m_size b - f = n")
    case True
    then show ?thesis
      using take mp1 sp sp1 xs unfolding f_def [symmetric]
      by (intro exI [of _ ?mp]) (auto simp: rm_ext_def lost_space_def simp del: fspace_simps)
  next
    case False
    let ?c = "blk (?a + n) (m_size b - f - n)"
    have "?c \<subseteq> blk ?a (m_size b - f)" "blk ?a (m_size b - f) = blk ?a n \<union> ?c" "blk ?a n \<inter> ?c = {}"
      using f n by auto
    with sp1 have "?c \<inter> rm_space ?mp = {}" unfolding mp1(2) by blast
    then obtain mp2 where mp2: "rmfree ?mp (m_size b - f - n) (?a + n) = Ok mp2" "rm_ext ?mp mp2"
        "rm_space mp2 \<subseteq> rm_space ?mp \<union> ?c"
        "rm_space mp2 \<union> lost_space mp2 = rm_space ?mp \<union> lost_space ?mp \<union> ?c"
      using rmfree_total [OF mp1(1), of "?a + n" "m_size b - f - n"] pos f n False slots xs by auto
    have "lost_space ?mp = lost_space mp" by (simp add: lost_space_def)
    with mp2 take False sp sp1 mp1(2) \<open>blk ?a (m_size b - f) = blk ?a n \<union> ?c\<close> \<open>blk ?a n \<inter> ?c = {}\<close>
    show ?thesis
      using xs unfolding f_def [symmetric]
      by (intro exI [of _ mp2]) (auto simp: rm_ext_def simp del: fspace_simps mem_blk)
  qed
qed

text \<open>Allocation as a whole.\<close>

lemma rmalloc_some:
  assumes inv: "rm_inv mp" and sc: "swap_ok sc" and n: "0 < n" "is_swapmap mp \<longrightarrow> n \<le> dmmax sc"
    and slots: "is_swapmap mp \<longrightarrow> 3 \<le> length (m_ent mp)"
    and fit: "\<exists>b\<in>set (rm_segs mp). rm_fits sc mp n b"
  shows "\<exists>a mp'. rmalloc sc mp n = Ok (a, mp') \<and> 0 < a \<and> rm_ext mp mp' \<and> blk a n \<subseteq> rm_space mp
           \<and> rm_space mp' \<subseteq> rm_space mp - blk a n
           \<and> rm_space mp' \<union> lost_space mp' \<union> blk a n = rm_space mp \<union> lost_space mp
           \<and> (\<not> is_swapmap mp \<longrightarrow> rm_space mp' = rm_space mp - blk a n \<and> m_lost mp' = m_lost mp)"
proof -
  from fit obtain P b R where S: "rm_segs mp = P @ b # R" "rm_fits sc mp n b" "\<forall>c\<in>set P. \<not> rm_fits sc mp n c"
    using split_list_first_prop [OF fit] by blast
  from rmalloc_first [OF inv sc n S(1,3,2)] obtain z Z where r: "rmalloc sc mp n = rm_take sc mp n P b (R @ z # Z)"
      "m_ent mp = P @ b # R @ z # Z" "wf_segs 0 (P @ b # R)" "\<forall>b\<in>set (z # Z). \<not> used b" "length Z = m_free mp"
    by blast
  have sp: "rm_space mp = fspace (P @ b # R)" by (simp add: rm_space_def S(1))
  have pos: "0 < m_addr b" using r(3) wf_segs_hi [of 0 P] by auto
  show ?thesis
  proof (cases "interleaved sc mp b")
    case True
    then have il: "n \<le> m_size b - to_boundary sc b" "is_swapmap mp"
      using S(2) by (auto simp: rm_fits_def interleaved_def)
    have "blk (m_addr b + to_boundary sc b) n \<subseteq> rm_space mp" "0 < m_addr b + to_boundary sc b"
      using to_boundary_bounds [OF sc, of b] pos il by (auto simp: sp)
    then show ?thesis
      using rm_take_interleaved [OF r(2-5) sc True n(1) il(1)] slots il(2) r(1) by auto
  next
    case False
    then have "n \<le> m_size b" using S(2) by (simp add: rm_fits_def)
    moreover from this have "blk (m_addr b) n \<subseteq> rm_space mp" by (auto simp: sp)
    moreover obtain mp' where "rm_take sc mp n P b (R @ z # Z) = Ok (m_addr b, mp')" "rm_ext mp mp'"
        "rm_space mp' = rm_space mp - blk (m_addr b) n" "m_lost mp' = m_lost mp"
      using rm_take_plain [OF r(2-5) False n(1)] \<open>n \<le> m_size b\<close> by blast
    ultimately show ?thesis
      using r(1) pos by (intro exI [of _ "m_addr b"] exI [of _ mp']) (auto simp: lost_space_def)
  qed
qed


section \<open>rmget\<close>

lemma blk_in_one_seg:
  assumes wf: "wf_segs lo S" and n: "0 < n" and sub: "blk a n \<subseteq> fspace S"
  obtains P b R where "S = P @ b # R" "m_addr b \<le> a" "a + n \<le> m_addr b + m_size b"
proof -
  have "a \<in> fspace S" using sub n by auto
  then obtain b where b: "b \<in> set S" "m_addr b \<le> a" "a < m_addr b + m_size b"
    by (auto simp: fspace_def)
  then obtain P R where S: "S = P @ b # R" by (meson split_list)
  have "m_addr b + m_size b \<notin> fspace S"
    using split_seg_space [of lo P b R "m_addr b + m_size b"] wf S by auto
  then have "\<not> m_addr b + m_size b < a + n"
    using sub b by (auto simp: subset_iff)
  with S b show ?thesis by (intro that) auto
qed

lemma scan_hold_spec:
  assumes "wf_segs lo P" "0 \<le> lo" "\<forall>b\<in>set P. \<not> (m_addr b \<le> a \<and> a < m_addr b + m_size b)"
    "used c \<longrightarrow> m_addr c \<le> a \<and> a < int32 (m_addr c + m_size c)"
  shows "scan_hold (P @ c # T) a i = Ok (i + length P)"
  using assms by (induction P arbitrary: i lo) auto

lemma rmget_middle:
  assumes xs: "m_ent mp = P @ b # R @ z # z' # Z'" and sc: "scan_hold (m_ent mp) a 0 = Ok (length P)"
    and us: "\<forall>b\<in>set (P @ b # R). used b" and zs: "\<not> used z" "\<not> used z'"
    and b: "0 < m_addr b" "m_addr b < a" "a + n < m_addr b + m_size b" "m_addr b + m_size b \<le> INT_MAX"
    and n: "0 < n" and ns: "\<not> is_swapmap mp" and room: "m_free mp \<noteq> 0"
  shows "rmget mp n a = Ok (a, mp\<lparr>m_ent := P @ b\<lparr>m_size := a - m_addr b\<rparr>
           # \<lparr>m_size = m_addr b + m_size b - (a + n), m_addr = a + n\<rparr> # R @ z' # Z', m_free := m_free mp - 1\<rparr>)"
proof -
  have z0: "z'\<lparr>m_size := 0\<rparr> = z'" using zs by simp
  have "scan_end ((b # R) @ z # z' # Z') (length P) = Ok (length P + length (b # R))"
    using us zs by (intro scan_end_spec) auto
  then have se: "scan_end (drop (length P) (m_ent mp)) (length P) = Ok (Suc (length P + length R))"
    by (simp add: xs)
  have nx: "m_ent mp ! Suc (Suc (length P + length R)) = z'"
    using nth_append_length [of "P @ b # R @ [z]" z' Z'] by (simp add: xs)
  have up: "(m_ent mp)[Suc (Suc (length P + length R)) := z'] = m_ent mp"
    using nx by (metis list_update_id)
  have sd: "shift_down (m_ent mp) (length P) (length P + length R) = P @ b # hd (R @ [z]) # R @ z' # Z'"
    unfolding xs by (rule shift_down_spec)
  have i: "int32 (m_addr b + m_size b) = m_addr b + m_size b" "int32 (a + n) = a + n"
      "int32 (m_addr b + m_size b - (a + n)) = m_addr b + m_size b - (a + n)"
      "int32 (a - m_addr b) = a - m_addr b"
    using b n by simp_all
  have "m_size b \<noteq> 0" "m_ent mp ! length P = b" "Suc (Suc (length P + length R)) < length (m_ent mp)"
    using us by (simp_all add: xs)
  then show ?thesis
    using n ns room b(2,3)
    by (simp add: rmget_def sc Let_def i se nx z0 up sd list_update_append)
qed

lemma rmget_hit:
  assumes inv: "rm_inv mp" and S: "rm_segs mp = P @ b # R" and n: "0 < n" and ns: "\<not> is_swapmap mp"
    and b: "m_addr b \<le> a" "a + n \<le> m_addr b + m_size b"
    and room: "0 < m_free mp \<or> m_addr b = a \<or> a + n = m_addr b + m_size b"
  shows "\<exists>mp'. rmget mp n a = Ok (a, mp') \<and> rm_ext mp mp' \<and> rm_space mp' = rm_space mp - blk a n
           \<and> m_lost mp' = m_lost mp"
proof -
  from inv S obtain z Z where xs: "m_ent mp = P @ b # R @ z # Z" and wf: "wf_segs 0 (P @ b # R)"
    and zs: "\<forall>b\<in>set (z # Z). \<not> used b" "length Z = m_free mp"
    by (elim rm_repE) auto
  have us: "\<forall>b\<in>set (P @ b # R). used b" by (rule wf_segs_all_used [OF wf])
  have bb: "0 < m_addr b" "0 < m_size b" "m_addr b + m_size b \<le> INT_MAX"
    using wf wf_segs_hi [of 0 P] by auto
  have "c \<in> set P \<Longrightarrow> \<not> (m_addr c \<le> a \<and> a < m_addr c + m_size c)" for c
    using split_seg_space(1) [OF wf, of a] b(1) by (force simp: fspace_def)
  then have sc: "scan_hold (P @ b # R @ z # Z) a 0 = Ok (length P)"
    using scan_hold_spec [of 0 P a b "R @ z # Z" 0] wf bb b n by simp
  note cut = rm_cut [OF wf b(1) n b(2) S]
  note unf = rmget_def sc Let_def xs
  consider "m_addr b = a" "m_size b = n" | "m_addr b = a" "n < m_size b"
    | "m_addr b < a" "a + n = m_addr b + m_size b"
    | "m_addr b < a" "a + n < m_addr b + m_size b" "0 < m_free mp"
    using b room by linarith
  then show ?thesis
  proof cases
    case 1
    have "compress_while (P @ b # R @ z # Z) (length P) = Ok (P @ R @ z # z # Z)"
      using us zs by (intro compress_while_spec) auto
    then have "rmget mp n a = Ok (a, mp\<lparr>m_ent := P @ R @ z # z # Z, m_free := Suc (m_free mp)\<rparr>)"
      using 1 n ns bb by (simp add: unf)
    then show ?thesis
      using cut [of "mp\<lparr>m_ent := P @ R @ z # z # Z, m_free := Suc (m_free mp)\<rparr>" z "z # Z"] 1 xs zs
      by (simp add: seg_cut_def)
  next
    case 2
    let ?mp = "mp\<lparr>m_ent := P @ \<lparr>m_size = m_size b - n, m_addr = m_addr b + n\<rparr> # R @ z # Z\<rparr>"
    have "rmget mp n a = Ok (a, ?mp)" using 2 n ns b bb by (simp add: unf)
    then show ?thesis using cut [of ?mp z Z] 2 xs zs by (simp add: seg_cut_def)
  next
    case 3
    let ?mp = "mp\<lparr>m_ent := P @ b\<lparr>m_size := a - m_addr b\<rparr> # R @ z # Z\<rparr>"
    have "m_size b - n = a - m_addr b" using 3 by simp
    then have "rmget mp n a = Ok (a, ?mp)" using 3 n ns b bb by (simp add: unf)
    then show ?thesis using cut [of ?mp z Z] 3 xs zs by (simp add: seg_cut_def)
  next
    case 4
    let ?b = "b\<lparr>m_size := a - m_addr b\<rparr>"
    let ?c = "\<lparr>m_size = m_addr b + m_size b - (a + n), m_addr = a + n\<rparr>"
    obtain z' Z' where Z: "Z = z' # Z'" using 4(3) zs(2) by (cases Z) auto
    let ?mp = "mp\<lparr>m_ent := P @ ?b # ?c # R @ z' # Z', m_free := m_free mp - 1\<rparr>"
    have "rmget mp n a = Ok (a, ?mp)"
      using rmget_middle [of mp P b R z z' Z' a n] 4 n ns bb zs us sc unfolding Z xs by simp
    then show ?thesis using cut [of ?mp z' Z'] 4 xs zs Z by (simp add: seg_cut_def)
  qed
qed

lemma rmget_full:
  assumes inv: "rm_inv mp" and S: "rm_segs mp = P @ b # R" and n: "0 < n" and ns: "\<not> is_swapmap mp"
    and b: "m_addr b \<le> a" "a + n \<le> m_addr b + m_size b"
    and full: "\<not> (m_free mp \<noteq> 0 \<or> m_addr b = a \<or> a + n = m_addr b + m_size b)"
  shows "rmget mp n a = Ok (0, mp)"
proof -
  from inv S obtain z Z where xs: "m_ent mp = P @ b # R @ z # Z" and wf: "wf_segs 0 (P @ b # R)"
    by (elim rm_repE) auto
  have bb: "0 < m_addr b" "0 < m_size b" "m_addr b + m_size b \<le> INT_MAX"
    using wf wf_segs_hi [of 0 P] by auto
  have "c \<in> set P \<Longrightarrow> \<not> (m_addr c \<le> a \<and> a < m_addr c + m_size c)" for c
    using split_seg_space(1) [OF wf, of a] b(1) by (force simp: fspace_def)
  then have "scan_hold (P @ b # R @ z # Z) a 0 = Ok (length P)"
    using scan_hold_spec [of 0 P a b "R @ z # Z" 0] wf bb b n by simp
  then show ?thesis
    using full n ns b bb by (simp add: rmget_def Let_def xs)
qed

text \<open>A block that is not entirely free is refused and the map is unchanged.\<close>

lemma rmget_miss:
  assumes inv: "rm_inv mp" and n: "0 < n" and a: "0 < a" "a + n \<le> INT_MAX"
    and no: "\<not> blk a n \<subseteq> rm_space mp"
  shows "rmget mp n a = Ok (0, mp)"
proof -
  from inv obtain S z Z where xs: "m_ent mp = S @ z # Z" "rm_segs mp = S" "wf_segs 0 S"
      "\<forall>b\<in>set (z # Z). \<not> used b"
    by (rule rm_repE)
  show ?thesis
  proof (cases "\<exists>b\<in>set S. m_addr b \<le> a \<and> a < m_addr b + m_size b")
    case True
    then obtain P b R where S: "S = P @ b # R" "m_addr b \<le> a \<and> a < m_addr b + m_size b"
        "\<forall>c\<in>set P. \<not> (m_addr c \<le> a \<and> a < m_addr c + m_size c)"
      using split_list_first_prop [OF True] by blast
    have b: "0 < m_addr b" "0 < m_size b" "m_addr b + m_size b \<le> INT_MAX"
      using xs(3) wf_segs_hi [of 0 P] by (auto simp: S)
    have "scan_hold (P @ b # R @ z # Z) a 0 = Ok (0 + length P)"
      using xs(3) b S by (intro scan_hold_spec [of 0]) auto
    moreover have "m_addr b + m_size b < a + n"
      using no S by (force simp: rm_space_def xs(2))
    ultimately show ?thesis
      using n a b xs S by (simp add: rmget_def Let_def)
  next
    case False
    then have "scan_hold (S @ z # Z) a 0 = Ok (0 + length S)"
      using xs by (intro scan_hold_spec [of 0]) auto
    then show ?thesis
      using n xs by (simp add: rmget_def Let_def)
  qed
qed

section \<open>rminit\<close>

lemma rminit_space:
  assumes "m_ent mp = replicate (nat (mapsize - 1)) \<lparr>m_size = 0, m_addr = 0\<rparr>" "3 \<le> mapsize"
    "0 \<le> n" "0 < n \<longrightarrow> 0 < a \<and> a + n \<le> INT_MAX"
  shows "\<exists>mp'. rminit mp n a nm mapsize = Ok mp' \<and> rm_inv mp' \<and> rm_space mp' = blk a n
           \<and> length (m_ent mp') = nat (mapsize - 1) \<and> is_swapmap mp' = is_swapmap mp"
proof -
  let ?e = "\<lparr>m_size = 0, m_addr = 0\<rparr>"
  define k where "k = nat (mapsize - 3)"
  have k: "mapsize = int (Suc (Suc (Suc k)))"
    using assms(2) by (simp add: k_def)
  have "nat (mapsize - 1) = Suc (Suc k)" using assms(2) by (simp add: k_def)
  then have ent: "m_ent mp = ?e # ?e # replicate k ?e"
    using assms(1) by simp
  let ?mp = "mp\<lparr>m_free := (if n = 0 then Suc k else k), m_ent := \<lparr>m_size = n, m_addr = a\<rparr> # ?e # replicate k ?e,
    m_nam := nm\<rparr>"
  have r: "rminit mp n a nm mapsize = Ok ?mp"
    by (simp add: rminit_def ent k)
  have "rm_inv ?mp \<and> rm_space ?mp = blk a n"
  proof (cases "n = 0")
    case True
    then show ?thesis
      using rm_repI [of ?mp "[]" "\<lparr>m_size = n, m_addr = a\<rparr>" "?e # replicate k ?e"] by simp
  next
    case False
    then show ?thesis
      using rm_repI [of ?mp "[\<lparr>m_size = n, m_addr = a\<rparr>]" ?e "replicate k ?e"] assms(3,4) by simp
  qed
  with r show ?thesis by (simp add: k)
qed


section \<open>Canonical form\<close>

text \<open>Segments that are sorted and never adjacent are determined by the space they cover.\<close>

lemma fspace_Cons_least: "wf_segs lo (b # S) \<Longrightarrow> x \<in> fspace (b # S) \<Longrightarrow> m_addr b \<le> x"
  using fspace_bounds [of "m_addr b + m_size b" S x] by auto

lemma fspace_Cons_rest:
  assumes "wf_segs lo (b # S)"
  shows "fspace S = fspace (b # S) - blk (m_addr b) (m_size b)"
  using fspace_bounds [of "m_addr b + m_size b" S] assms by fastforce

lemma fspace_Cons_end: "wf_segs lo (b # S) \<Longrightarrow> m_addr b + m_size b \<notin> fspace (b # S)"
  using fspace_bounds [of "m_addr b + m_size b" S "m_addr b + m_size b"] by auto

lemma wf_segs_unique: "wf_segs lo S \<Longrightarrow> wf_segs lo' T \<Longrightarrow> fspace S = fspace T \<Longrightarrow> S = T"
proof (induction S arbitrary: T lo lo')
  case Nil
  then show ?case by (cases T) (auto simp: blk_def)
next
  case (Cons b S)
  have "m_addr b \<in> fspace (b # S)" using Cons.prems(1) by simp
  then have "T \<noteq> []" using Cons.prems(3) by force
  then obtain c U where T: "T = c # U" by (cases T) auto
  have "m_addr c \<in> fspace (c # U)" using Cons.prems(2) by (simp add: T)
  then have "m_addr b \<le> m_addr c"
    using Cons.prems(3) by (intro fspace_Cons_least [OF Cons.prems(1)]) (simp only: T)
  moreover have "m_addr c \<le> m_addr b"
    using Cons.prems(3) \<open>m_addr b \<in> fspace (b # S)\<close>
    by (intro fspace_Cons_least [OF Cons.prems(2) [unfolded T]]) (simp only: T)
  ultimately have a: "m_addr b = m_addr c" by (rule order_antisym)
  have "\<not> m_size b < m_size c" "\<not> m_size c < m_size b"
    using fspace_Cons_end [OF Cons.prems(1)] fspace_Cons_end [OF Cons.prems(2) [unfolded T]]
      Cons.prems T a by auto
  then have s: "m_size b = m_size c" by simp
  have "fspace S = fspace U"
    using fspace_Cons_rest [OF Cons.prems(1)] fspace_Cons_rest [OF Cons.prems(2) [unfolded T]]
      Cons.prems(3) unfolding T a s by simp
  then have "S = U" using Cons.IH Cons.prems T by auto
  then show ?case using a s by (simp add: T)
qed

lemma rm_segs_unique: "rm_inv mp \<Longrightarrow> rm_inv mp' \<Longrightarrow> rm_space mp = rm_space mp' \<Longrightarrow> rm_segs mp = rm_segs mp'"
  unfolding rm_inv_def rm_space_def using wf_segs_unique by blast

text \<open>A block that was cut out of the map can be put back: it joins a neighbour or left a slot.\<close>

lemma rm_room_after_cut:
  assumes inv: "rm_inv mp" and ext: "rm_ext mp mp1" and n: "0 < n" and sub: "blk a n \<subseteq> rm_space mp"
    and sp: "rm_space mp1 = rm_space mp - blk a n"
  shows "0 < m_free mp1 \<or> rm_touches mp1 a n"
proof -
  have wf: "wf_segs 0 (rm_segs mp)" using inv by (rule rm_inv_wf)
  from blk_in_one_seg [OF wf n sub [unfolded rm_space_def]] obtain P b R where
    S: "rm_segs mp = P @ b # R" and b: "m_addr b \<le> a" "a + n \<le> m_addr b + m_size b"
    by blast
  have b_sub: "blk (m_addr b) (m_size b) \<subseteq> rm_space mp" by (auto simp: rm_space_def S)
  show ?thesis
  proof (cases "m_addr b = a \<and> a + n = m_addr b + m_size b")
    case True
    then have "rm_space mp1 = fspace (P @ R)"
      using seg_cut_space [OF wf [unfolded S] b(1) n b(2)] sp by (simp add: rm_space_def S seg_cut_def)
    moreover have "wf_segs 0 (P @ R)"
      using seg_cut_wf [OF wf [unfolded S] b(1) n b(2)] True by (simp add: seg_cut_def)
    ultimately have "rm_segs mp1 = P @ R"
      using ext wf_segs_unique [of 0 "rm_segs mp1" 0 "P @ R"] rm_inv_wf by (simp add: rm_ext_def rm_space_def)
    then show ?thesis
      using rm_inv_length [OF inv] rm_inv_length [of mp1] ext S by (simp add: rm_ext_def)
  next
    case False
    then have "a - 1 \<in> blk (m_addr b) (m_size b) \<or> a + n \<in> blk (m_addr b) (m_size b)"
      using b n by auto
    then have "a - 1 \<in> rm_space mp1 \<or> a + n \<in> rm_space mp1"
      using b_sub unfolding sp by auto
    then show ?thesis by (simp add: rm_touches_def)
  qed
qed

text \<open>Around a segment of a well-formed map nothing is free.\<close>

lemma rm_seg_edges:
  assumes "rm_inv mp" "rm_segs mp = P @ b # R" "m_addr b - 1 \<le> x" "x \<le> m_addr b + m_size b"
  shows "x \<in> rm_space mp \<longleftrightarrow> m_addr b \<le> x \<and> x < m_addr b + m_size b"
proof
  assume x: "x \<in> rm_space mp"
  have wf: "wf_segs 0 (P @ b # R)" using rm_inv_wf [OF assms(1)] assms(2) by simp
  show "m_addr b \<le> x \<and> x < m_addr b + m_size b"
    using x wf assms(3,4) fspace_bounds [of 0 P x] fspace_bounds [of "m_addr b + m_size b" R x]
    by (auto simp: rm_space_def assms(2))
next
  assume "m_addr b \<le> x \<and> x < m_addr b + m_size b"
  then show "x \<in> rm_space mp" by (auto simp: rm_space_def assms(2))
qed

section \<open>Resource maps as space allocators\<close>

type_synonym rmstate = "swapcfg \<times> rmap"

definition rms_inv :: "rmstate \<Rightarrow> bool" where
  "rms_inv s \<longleftrightarrow> swap_ok (fst s) \<and> rm_inv (snd s) \<and> 3 \<le> length (m_ent (snd s))"

definition rms_alloc :: "rmstate \<Rightarrow> int \<Rightarrow> (int \<times> rmstate) outcome" where
  "rms_alloc s n = obind (rmalloc (fst s) (snd s) n) (\<lambda>(a, mp). Ok (a, (fst s, mp)))"

definition rms_release :: "rmstate \<Rightarrow> int \<Rightarrow> int \<Rightarrow> rmstate outcome" where
  "rms_release s a n = obind (rmfree (snd s) n a) (\<lambda>mp. Ok (fst s, mp))"

lemma rmalloc_cases:
  assumes "rms_inv (sc, mp)" "rmalloc sc mp n = Ok (a, mp')"
  obtains (none) "a = 0" "mp' = mp" "0 < n" "\<forall>b\<in>set (rm_segs mp). \<not> rm_fits sc mp n b"
  | (some) "0 < a" "0 < n" "rm_ext mp mp'" "blk a n \<subseteq> rm_space mp" "rm_space mp' \<subseteq> rm_space mp - blk a n"
proof -
  have inv: "rm_inv mp" "swap_ok sc" "3 \<le> length (m_ent mp)"
    using assms(1) by (auto simp: rms_inv_def)
  have n: "0 < n" "is_swapmap mp \<longrightarrow> n \<le> dmmax sc"
    using assms(2) by (auto simp: rmalloc_def split: if_splits)
  show ?thesis
  proof (cases "\<exists>b\<in>set (rm_segs mp). rm_fits sc mp n b")
    case True
    from rmalloc_some [OF inv(1,2) n _ True] inv(3) assms(2) n(1) show ?thesis
      by (auto intro: some)
  next
    case False
    with rmalloc_none [OF inv(1,2) n] assms(2) n(1) show ?thesis
      by (auto intro: none)
  qed
qed

lemma rm_space_range: "rm_inv mp \<Longrightarrow> rm_space mp \<subseteq> {1..<INT_MAX}"
  using fspace_bounds [of 0 "rm_segs mp"] wf_segs_hi_max [of 0 "rm_segs mp"]
  by (fastforce simp: rm_inv_def rm_space_def INT_MAX_def)

interpretation rms: space_allocator rms_inv "\<lambda>s. rm_space (snd s)" "{1..<INT_MAX}" rms_alloc rms_release "\<lambda>_. True"
proof
  fix s assume "rms_inv s"
  then show "rm_space (snd s) \<subseteq> {1..<INT_MAX}"
    by (simp add: rms_inv_def rm_space_range)
next
  fix s n a s' assume "rms_inv s" "rms_alloc s n = Ok (a, s')"
  then obtain sc mp mp' where s: "s = (sc, mp)" "s' = (sc, mp')" "rms_inv (sc, mp)" "rmalloc sc mp n = Ok (a, mp')"
    by (cases s) (auto simp: rms_alloc_def)
  show "rms_inv s'"
    using s(3,4) by (cases rule: rmalloc_cases) (use s in \<open>auto simp: rms_inv_def rm_ext_def\<close>)
next
  fix s n a s' assume "rms_inv s" "rms_alloc s n = Ok (a, s')" "a \<noteq> 0"
  then show "0 < n \<and> blk a n \<subseteq> rm_space (snd s) \<and> rm_space (snd s') \<subseteq> rm_space (snd s) - blk a n"
    by (cases s) (auto simp: rms_alloc_def elim!: rmalloc_cases)
next
  fix s n s' assume "rms_inv s" "rms_alloc s n = Ok (0, s')"
  then show "rm_space (snd s') \<subseteq> rm_space (snd s)"
    by (cases s) (auto simp: rms_alloc_def elim!: rmalloc_cases)
next
  fix s n a s' assume s: "rms_inv s" "0 < n" "blk a n \<subseteq> {1..<INT_MAX}" "blk a n \<inter> rm_space (snd s) = {}"
    "rms_release s a n = Ok s'"
  have "a \<in> blk a n" "a + n - 1 \<in> blk a n" using s(2) by simp_all
  then have "0 < a" "a + n \<le> INT_MAX" using s(3) by fastforce+
  then show "rms_inv s' \<and> rm_space (snd s') \<subseteq> rm_space (snd s) \<union> blk a n"
    using rmfree_total [of "snd s" a n] s by (auto simp: rms_inv_def rms_release_def rm_ext_def)
qed

section \<open>Properties\<close>


definition demo_map :: rmap where
  "demo_map = \<lparr>m_free = 3, m_want = 0,
     m_ent = [\<lparr>m_size = 4, m_addr = 10\<rparr>, \<lparr>m_size = 9, m_addr = 20\<rparr>] @ replicate 4 \<lparr>m_size = 0, m_addr = 0\<rparr>,
     m_nam = ''demo'', is_swapmap = False, m_lost = [], m_wakeups = 0\<rparr>"

definition demo_sc :: swapcfg where
  "demo_sc = \<lparr>dmmax = 16, nswdev = 1\<rparr>"

lemma demo_map_inv: "rm_inv demo_map" "rm_space demo_map = blk 10 4 \<union> blk 20 9" "swap_ok demo_sc"
  by (simp_all add: rm_inv_def rm_segs_def rm_space_def demo_map_def demo_sc_def swap_ok_def INT_MAX_def)




text \<open>
  \<open>rmfree\<close> detects every block that is already free in part: it panics.
\<close>

theorem rmfree_detects_overlap:
  assumes "rm_inv mp" "0 < n" "a + n \<le> INT_MAX" "blk a n \<inter> rm_space mp \<noteq> {}"
  shows "rmfree mp n a = Panic ''bad rmfree''"
proof (cases "0 < a")
  case True
  then show ?thesis using assms by (intro rmfree_overlap)
next
  case False
  then show ?thesis by (simp add: rmfree.simps)
qed

theorem rmfree_detects_overlap_witness: "rmfree demo_map 3 12 = Panic ''bad rmfree''"
proof -
  have "12 \<in> blk 12 3 \<inter> rm_space demo_map"
    unfolding demo_map_inv by simp
  then have "blk 12 3 \<inter> rm_space demo_map \<noteq> {}" by blast
  then show ?thesis
    using demo_map_inv(1) by (intro rmfree_detects_overlap) (simp_all add: INT_MAX_def)
qed





text \<open>
  C1: However a client of a resource map (the swap map included) allocates blocks and frees
  blocks it holds, the blocks it holds at any time are pairwise disjoint, and none of them
  overlaps the free space of the map.
\<close>

theorem rm_client_safe:
  assumes "rms_inv s" "client rms_alloc rms_release s [] rs = Ok (s', live)"
  shows "rms_inv s' \<and> (\<forall>b\<in>set live. blk (fst b) (snd b) \<inter> rm_space (snd s') = {})
           \<and> (\<forall>i j. i < j \<longrightarrow> j < length live \<longrightarrow>
                blk (fst (live ! i)) (snd (live ! i)) \<inter> blk (fst (live ! j)) (snd (live ! j)) = {})"
  using rms.client_held_ok [OF assms(1) rms.held_ok_Nil assms(2)] by (simp add: rms.held_ok_def sorted_wrt_iff_nth_less)

theorem rm_client_safe_witness:
  "rms_inv (demo_sc, demo_map) \<and> (\<exists>s' live. client rms_alloc rms_release (demo_sc, demo_map) [] [Alloc 3, Alloc 4, Release 1] = Ok (s', live)
     \<and> rms_inv s' \<and> (\<forall>b\<in>set live. blk (fst b) (snd b) \<inter> rm_space (snd s') = {}))"
proof -
  have inv: "rms_inv (demo_sc, demo_map)"
    using demo_map_inv by (simp add: rms_inv_def demo_map_def)
  have "is_Ok (client rms_alloc rms_release (demo_sc, demo_map) [] [Alloc 3, Alloc 4, Release 1])"
    by code_simp
  then obtain s' live where
    "client rms_alloc rms_release (demo_sc, demo_map) [] [Alloc 3, Alloc 4, Release 1] = Ok (s', live)"
    by (metis is_OkE surj_pair)
  then show ?thesis
    using inv rm_client_safe [OF inv] by blast
qed

text \<open>
  \<open>rminit\<close> on zeroed storage of \<open>mapsize\<close> slots makes a well-formed map of the given space
  with room for \<open>mapsize - 2\<close> segments.
\<close>

theorem rminit_correct:
  assumes "m_ent mp = replicate (nat (mapsize - 1)) \<lparr>m_size = 0, m_addr = 0\<rparr>" "3 \<le> mapsize"
    "0 \<le> n" "0 < n \<longrightarrow> 0 < a \<and> a + n \<le> INT_MAX"
  shows "\<exists>mp'. rminit mp n a nm mapsize = Ok mp' \<and> rm_inv mp' \<and> rm_space mp' = blk a n
           \<and> int (length (rm_segs mp') + m_free mp') = mapsize - 2"
proof -
  obtain mp' where "rminit mp n a nm mapsize = Ok mp'" "rm_inv mp'" "rm_space mp' = blk a n"
      "length (m_ent mp') = nat (mapsize - 1)"
    using rminit_space [OF assms] by blast
  then show ?thesis using assms(2) rm_inv_length by fastforce
qed

theorem rminit_correct_witness:
  "\<exists>mp'. rminit (demo_map\<lparr>m_ent := replicate 9 \<lparr>m_size = 0, m_addr = 0\<rparr>\<rparr>) 60 1 ''semmap'' 10 = Ok mp'
     \<and> rm_inv mp' \<and> rm_space mp' = blk 1 60 \<and> int (length (rm_segs mp') + m_free mp') = 10 - 2"
  by (rule rminit_correct) (simp_all add: INT_MAX_def)


end
