(* ===== verification/Kmem.thy ===== *)
theory Kmem
  imports Rmap "HOL-Library.Multiset"
begin

text \<open>
  The kernel heap, \<open>sys/heap_kmem.c\<close>: a Cartesian tree of free blocks (ordered by address from
  left to right and by size from top to bottom), its header blocks, the blocks freed at interrupt
  level that wait to enter the tree, and the pages taken from the resource map \<open>kernelmap\<close>.
\<close>

section \<open>Data\<close>

text \<open>
  \<open>struct freehdr\<close> (\<open>Freehdr\<close> is the pointer to it) with the pointers \<open>left\<close> and \<open>right\<close> as subtrees; the second component of a
  node is the address of the header itself, which the free list of headers gets back.
\<close>

datatype Freehdr = NIL | Node (left: Freehdr) (hdr: int) (block: int) (fsize: int) (right: Freehdr)

text \<open>
  \<open>struct kmem_info\<close>.  The list of blocks to free that the code chains through the freed blocks
  themselves is a list, most recent first; \<open>free_hdr_list\<close>, chained through \<open>left\<close>, is the list
  of the header addresses.  The last three fields are what the routines read of the rest of the
  kernel: the address \<open>usrpt\<close> of the arena, whether \<open>intsvc()\<close> holds, and the swap parameters
  that \<open>rmalloc\<close> looks at.
\<close>

record kmem_info =
  free_root :: Freehdr
  free_hdr_list :: "int list"
  kmap :: rmap
  vaddr :: int
  need_to_free_list :: "(int \<times> int) list"
  need_to_free :: "(int \<times> int) list"
  usrpt :: int
  intsvc :: bool
  swapconf :: swapcfg

definition NBPG :: int where
  "NBPG = 8192"

definition CLBYTES :: int where
  "CLBYTES = CLSIZE * NBPG"

definition USRPTSIZE :: int where
  "USRPTSIZE = 9961472 div NBPG"

definition SMALLEST_BLK :: int where
  "SMALLEST_BLK = 1"

definition HDRSIZE :: int where
  "HDRSIZE = 16"

definition NEED_TO_FREE_SIZE :: nat where
  "NEED_TO_FREE_SIZE = 10"

definition NTFSIZE :: int where
  "NTFSIZE = 8"

section \<open>Operations\<close>

definition kmem_init :: "kmem_info \<Rightarrow> rmap \<Rightarrow> kmem_info" where
  "kmem_init s kernelmap =
     s\<lparr>free_root := NIL, free_hdr_list := [], kmap := kernelmap, vaddr := usrpt s,
       need_to_free_list := [],
       need_to_free := map (\<lambda>e. (0, snd e)) (need_to_free s)\<rparr>"

fun weight :: "Freehdr \<Rightarrow> int" where
  "weight NIL = 0"
| "weight (Node l h b z r) = z"

definition nextblk :: "int \<Rightarrow> int \<Rightarrow> int" where
  "nextblk p n = uint32 (p + n)"

definition misaligned :: "int \<Rightarrow> bool" where
  "misaligned a \<longleftrightarrow> a mod 4 \<noteq> 0"

definition ALIGNMORE :: "int \<Rightarrow> int" where
  "ALIGNMORE a = 4 - a mod 4"

fun mweight :: "Freehdr \<Rightarrow> int" where
  "mweight NIL = 0"
| "mweight (Node l h b z r) =
     (if misaligned b \<and> z > ALIGNMORE b then z - ALIGNMORE b else z)"

text \<open>A pointer to a link of the tree is the path from the root to it.\<close>

datatype dir = L | R

fun subtree :: "Freehdr \<Rightarrow> dir list \<Rightarrow> Freehdr" where
  "subtree t [] = t"
| "subtree NIL (d # ds) = NIL"
| "subtree (Node l h b z r) (L # ds) = subtree l ds"
| "subtree (Node l h b z r) (R # ds) = subtree r ds"

fun replace :: "Freehdr \<Rightarrow> dir list \<Rightarrow> Freehdr \<Rightarrow> Freehdr" where
  "replace t [] u = u"
| "replace NIL (d # ds) u = NIL"
| "replace (Node l h b z r) (L # ds) u = Node (replace l ds u) h b z r"
| "replace (Node l h b z r) (R # ds) u = Node l h b z (replace r ds u)"

text \<open>\<open>freehdr\<close> puts a header on the free list.\<close>

definition freehdr :: "int \<Rightarrow> int list \<Rightarrow> int list" where
  "freehdr p hs = p # hs"

text \<open>
  \<open>getpages\<close> sleeps until \<open>rmalloc\<close> has pages; \<open>vmemall\<close> and \<open>vmaccess\<close>, which put page frames
  behind them, do not touch the allocator's state.
\<close>

definition getpages :: "kmem_info \<Rightarrow> int \<Rightarrow> (int \<times> kmem_info) outcome" where
  "getpages s npages =
     obind (rmalloc (swapconf s) (kmap s) npages) (\<lambda>(x, mp).
       if x = 0
       then (if intsvc s then Panic ''getpages called at interrupt level'' else Sleep)
       else Ok (uint32 (vaddr s + x * NBPG), s\<lparr>kmap := mp\<rparr>))"

definition getfreehdr :: "kmem_info \<Rightarrow> (int \<times> kmem_info) outcome" where
  "getfreehdr s =
     (case free_hdr_list s of
        h # hs \<Rightarrow> Ok (h, s\<lparr>free_hdr_list := hs\<rparr>)
      | [] \<Rightarrow> obind (getpages s CLSIZE) (\<lambda>(r, s1).
          if r = 0 then Panic ''getfreehdr''
          else Ok (r, s1\<lparr>free_hdr_list :=
                 fold (\<lambda>n. freehdr (uint32 (r + int n * HDRSIZE)))
                   [1..<nat (CLBYTES div HDRSIZE)] (free_hdr_list s1)\<rparr>)))"

text \<open>
  \<open>insert\<close>: first the search \<open>while (weight(x) >= len)\<close> for the link at which the node goes in;
  a zero length would run off the tree.
\<close>

fun insert_path :: "Freehdr \<Rightarrow> int \<Rightarrow> int \<Rightarrow> dir list outcome" where
  "insert_path NIL p len = (if 0 \<ge> len then Fault else Ok [])"
| "insert_path (Node l h b z r) p len =
     (if z \<ge> len then
        (if p < b then obind (insert_path l p len) (\<lambda>ds. Ok (L # ds))
         else obind (insert_path r p len) (\<lambda>ds. Ok (R # ds)))
      else Ok [])"

text \<open>
  Then the root insertion: the loop over \<open>left_hook\<close> and \<open>right_hook\<close> splits the subtree into
  the nodes left and right of \<open>p\<close>.
\<close>

fun split_hooks :: "Freehdr \<Rightarrow> int \<Rightarrow> Freehdr \<times> Freehdr" where
  "split_hooks NIL p = (NIL, NIL)"
| "split_hooks (Node l h b z r) p =
     (if b < p then (let (lh, rh) = split_hooks r p in (Node l h b z lh, rh))
      else (let (lh, rh) = split_hooks l p in (lh, Node rh h b z r)))"

definition root_insert :: "Freehdr \<Rightarrow> int \<Rightarrow> int \<Rightarrow> int \<Rightarrow> Freehdr" where
  "root_insert x newhdr p len = (let (lh, rh) = split_hooks x p in Node lh newhdr p len rh)"

definition insert_blk :: "kmem_info \<Rightarrow> int \<Rightarrow> int \<Rightarrow> kmem_info outcome" where
  "insert_blk s p len =
     obind (insert_path (free_root s) p len) (\<lambda>ds.
     obind (getfreehdr s) (\<lambda>(newhdr, s1).
       Ok (s1\<lparr>free_root := replace (free_root s1) ds
                (root_insert (subtree (free_root s1) ds) newhdr p len)\<rparr>)))"

text \<open>
  \<open>delete\<close>: the loop that merges the two subtrees of the deleted node.  A null pointer has
  weight 0, so a block of size 0 on the other side would make the loop follow it.
\<close>

function delete_merge :: "Freehdr \<Rightarrow> Freehdr \<Rightarrow> Freehdr outcome" where
  "delete_merge lb rb =
     (if lb = NIL \<and> rb = NIL then Ok NIL
      else if weight lb \<ge> weight rb then
        (case lb of NIL \<Rightarrow> Fault
         | Node l h b z r \<Rightarrow> obind (delete_merge r rb) (\<lambda>t. Ok (Node l h b z t)))
      else
        (case rb of NIL \<Rightarrow> Fault
         | Node l h b z r \<Rightarrow> obind (delete_merge lb l) (\<lambda>t. Ok (Node t h b z r))))"
  by pat_completeness auto
termination
  by (relation "measure (\<lambda>(lb, rb). size lb + size rb)") auto

declare delete_merge.simps [simp del]

text \<open>
  \<open>demote\<close> of a node with header \<open>x\<close>, block \<open>blk\<close>, size \<open>wx\<close> and the given subtrees.
\<close>

function demote :: "int \<Rightarrow> int \<Rightarrow> int \<Rightarrow> Freehdr \<Rightarrow> Freehdr \<Rightarrow> Freehdr outcome" where
  "demote x xb wx lb rb =
     (if weight lb > wx \<or> weight rb > wx then
        (if weight lb \<ge> weight rb then
           (case lb of NIL \<Rightarrow> Fault
            | Node l h b z r \<Rightarrow> obind (demote x xb wx r rb) (\<lambda>t. Ok (Node l h b z t)))
         else
           (case rb of NIL \<Rightarrow> Fault
            | Node l h b z r \<Rightarrow> obind (demote x xb wx lb l) (\<lambda>t. Ok (Node t h b z r))))
      else Ok (Node lb x xb wx rb))"
  by pat_completeness auto
termination
  by (relation "measure (\<lambda>(x, xb, wx, lb, rb). size lb + size rb)") auto

declare demote.simps [simp del]

fun nodes :: "Freehdr \<Rightarrow> nat" where
  "nodes NIL = 0"
| "nodes (Node l h b z r) = Suc (nodes l + nodes r)"

lemma delete_merge_NIL [simp]: "delete_merge NIL NIL = Ok NIL"
  by (simp add: delete_merge.simps)

lemma delete_merge_left [simp]:
  "weight rb \<le> z \<Longrightarrow>
   delete_merge (Node l h b z r) rb = obind (delete_merge r rb) (\<lambda>t. Ok (Node l h b z t))"
  by (subst delete_merge.simps) simp

lemma delete_merge_right [simp]:
  "weight lb < z \<Longrightarrow>
   delete_merge lb (Node l h b z r) = obind (delete_merge lb l) (\<lambda>t. Ok (Node t h b z r))"
  by (subst delete_merge.simps) simp

lemma delete_merge_Ok_cases [consumes 1, case_names NIL left right]:
  assumes "delete_merge lb rb = Ok t"
  obtains "lb = NIL" "rb = NIL" "t = NIL"
  | l h b z r u where "lb = Node l h b z r" "weight rb \<le> z" "delete_merge r rb = Ok u" "t = Node l h b z u"
  | l h b z r u where "rb = Node l h b z r" "weight lb < z" "delete_merge lb l = Ok u" "t = Node u h b z r"
  using assms by (subst (asm) delete_merge.simps) (auto split: if_splits Freehdr.splits)

lemma delete_merge_induct [consumes 1, case_names NIL left right]:
  assumes "delete_merge lb rb = Ok t"
    and "P NIL NIL NIL"
    and "\<And>l h b z r rb u. weight rb \<le> z \<Longrightarrow> delete_merge r rb = Ok u \<Longrightarrow> P r rb u \<Longrightarrow>
           P (Node l h b z r) rb (Node l h b z u)"
    and "\<And>l h b z r lb u. weight lb < z \<Longrightarrow> delete_merge lb l = Ok u \<Longrightarrow> P lb l u \<Longrightarrow>
           P lb (Node l h b z r) (Node u h b z r)"
  shows "P lb rb t"
  using assms(1)
proof (induction "size lb + size rb" arbitrary: lb rb t rule: less_induct)
  case less
  from less.prems show ?case
  proof (cases rule: delete_merge_Ok_cases)
    case (left l h b z r u)
    then show ?thesis using assms(3) less.hyps [of r rb u] by simp
  next
    case (right l h b z r u)
    then show ?thesis using assms(4) less.hyps [of lb l u] by simp
  qed (simp add: assms(2))
qed

lemma delete_merge_nodes: "delete_merge l r = Ok t \<Longrightarrow> nodes t = nodes l + nodes r"
  by (induction rule: delete_merge_induct) simp_all

text \<open>
  The loop of \<open>kmem_free\<close>: from a link of the tree downwards, absorbing and deleting the
  neighbours of the block.  The result is the subtree, the grown block, and the free list of
  headers.
\<close>

function free_search :: "Freehdr \<Rightarrow> int \<Rightarrow> int \<Rightarrow> int list \<Rightarrow> (Freehdr \<times> int \<times> int \<times> int list) outcome" where
  "free_search NIL ptr nbytes hs = Ok (NIL, ptr, nbytes, hs)"
| "free_search (Node l h b z r) ptr nbytes hs =
     (if ptr < b then
        (if uint32 (ptr + nbytes) = b then
           obind (delete_merge l r) (\<lambda>t. free_search t ptr (uint32 (nbytes + z)) (freehdr h hs))
         else if uint32 (ptr + nbytes) > b then Panic ''kmem_free: free block overlap''
         else obind (free_search l ptr nbytes hs)
                (\<lambda>(l', ptr', nbytes', hs'). Ok (Node l' h b z r, ptr', nbytes', hs')))
      else if ptr > b then
        (if uint32 (b + z) = ptr then
           obind (delete_merge l r) (\<lambda>t. free_search t b (uint32 (nbytes + z)) (freehdr h hs))
         else if uint32 (b + z) > ptr then Panic ''kmem_free block already free''
         else obind (free_search r ptr nbytes hs)
                (\<lambda>(r', ptr', nbytes', hs'). Ok (Node l h b z r', ptr', nbytes', hs')))
      else Panic ''kmem_free: block already free as neighbor'')"
  by pat_completeness auto
termination
  by (relation "measure (\<lambda>(t, p, n, hs). nodes t)") (auto dest: delete_merge_nodes)

definition kmem_free :: "kmem_info \<Rightarrow> int \<Rightarrow> int \<Rightarrow> kmem_info outcome" where
  "kmem_free s ptr nbytes =
     (if nbytes = 0 then Ok s
      else if ptr < usrpt s \<or> ptr > uint32 (usrpt s + USRPTSIZE * NBPG) then Panic ''kmem_free''
      else obind (free_search (free_root s) ptr nbytes (free_hdr_list s)) (\<lambda>(t, p, n, hs).
        insert_blk (s\<lparr>free_root := t, free_hdr_list := hs\<rparr>) p n))"

text \<open>
  \<open>kmem_free_intr\<close>: blocks that can hold the link go on the list, smaller ones into the array.
\<close>

fun ntf_store :: "(int \<times> int) list \<Rightarrow> int \<Rightarrow> int \<Rightarrow> (int \<times> int) list option" where
  "ntf_store [] ptr nbytes = None"
| "ntf_store (e # es) ptr nbytes =
     (if fst e = 0 then Some ((ptr, nbytes) # es)
      else map_option ((#) e) (ntf_store es ptr nbytes))"

function kmem_free_intr :: "kmem_info \<Rightarrow> int \<Rightarrow> int \<Rightarrow> kmem_info outcome" where
  "kmem_free_intr s ptr nbytes =
     (if nbytes \<ge> NTFSIZE then
        (if misaligned ptr then
           obind (kmem_free_intr s ptr (ALIGNMORE ptr)) (\<lambda>s1.
             kmem_free_intr s1 (uint32 (ptr + ALIGNMORE ptr)) (nbytes - ALIGNMORE ptr))
         else Ok (s\<lparr>need_to_free_list := (ptr, nbytes) # need_to_free_list s\<rparr>))
      else
        (case ntf_store (need_to_free s) ptr nbytes of
           Some ns \<Rightarrow> Ok (s\<lparr>need_to_free := ns\<rparr>)
         | None \<Rightarrow> Panic ''kmem_free_intr''))"
  by pat_completeness auto
termination
proof (relation "measure (\<lambda>(s, p, n). nat n)", goal_cases)
  case (2 s p n)
  then show ?case
    using pos_mod_bound [of 4 p] by (simp add: NTFSIZE_def ALIGNMORE_def)
next
  case (3 s p n s1)
  then show ?case
    using pos_mod_bound [of 4 p] by (simp add: NTFSIZE_def ALIGNMORE_def)
qed simp

declare kmem_free_intr.simps [simp del]

text \<open>
  \<open>check_need_to_free\<close>: the first entry of the array that is in use is taken out.
\<close>

fun ntf_take :: "(int \<times> int) list \<Rightarrow> ((int \<times> int) \<times> (int \<times> int) list) option" where
  "ntf_take [] = None"
| "ntf_take (e # es) =
     (if fst e \<noteq> 0 then Some (e, (0, snd e) # es)
      else map_option (\<lambda>(x, ys). (x, e # ys)) (ntf_take es))"

definition ntf_count :: "kmem_info \<Rightarrow> nat" where
  "ntf_count s = length (need_to_free_list s) + length (filter (\<lambda>e. fst e \<noteq> 0) (need_to_free s))"

lemma ntf_take_count:
  "ntf_take es = Some (x, ys) \<Longrightarrow>
   length (filter (\<lambda>e. fst e \<noteq> 0) es) = Suc (length (filter (\<lambda>e. fst e \<noteq> 0) ys))"
  by (induction es arbitrary: ys) (auto split: if_splits)

lemma getpages_frame:
  "getpages s n = Ok (x, s') \<Longrightarrow> \<exists>mp. s' = s\<lparr>kmap := mp\<rparr>"
  by (auto simp: getpages_def split: if_splits)

lemma getfreehdr_frame:
  "getfreehdr s = Ok (x, s') \<Longrightarrow> \<exists>mp hs. s' = s\<lparr>kmap := mp, free_hdr_list := hs\<rparr>"
  by (auto simp: getfreehdr_def split: list.splits if_splits dest!: getpages_frame)
     (metis (no_types) kmem_info.surjective kmem_info.update_convs)+

lemma kmem_free_frame:
  "kmem_free s p n = Ok s' \<Longrightarrow>
   need_to_free_list s' = need_to_free_list s \<and> need_to_free s' = need_to_free s
   \<and> vaddr s' = vaddr s \<and> usrpt s' = usrpt s \<and> intsvc s' = intsvc s \<and> swapconf s' = swapconf s"
  by (auto simp: kmem_free_def insert_blk_def split: if_splits dest!: getfreehdr_frame)

definition ntf_next :: "kmem_info \<Rightarrow> ((int \<times> int) \<times> kmem_info) option" where
  "ntf_next s =
     (if need_to_free_list s \<noteq> [] \<and> fst (hd (need_to_free_list s)) \<noteq> 0
      then Some (hd (need_to_free_list s), s\<lparr>need_to_free_list := tl (need_to_free_list s)\<rparr>)
      else map_option (\<lambda>(e, es). (e, s\<lparr>need_to_free := es\<rparr>)) (ntf_take (need_to_free s)))"

lemma ntf_next_count: "ntf_next s = Some (e, s1) \<Longrightarrow> ntf_count s1 < ntf_count s"
  by (auto simp: ntf_next_def ntf_count_def split: if_splits dest: ntf_take_count)

function check_need_to_free :: "kmem_info \<Rightarrow> kmem_info outcome" where
  "check_need_to_free s =
     (case ntf_next s of
        None \<Rightarrow> Ok s
      | Some ((addr, nbytes), s1) \<Rightarrow> obind (kmem_free s1 addr nbytes) check_need_to_free)"
  by pat_completeness auto
termination
  by (relation "measure ntf_count")
     (auto simp: ntf_count_def dest!: ntf_next_count kmem_free_frame)

declare check_need_to_free.simps [simp del]

definition morecore :: "kmem_info \<Rightarrow> int \<Rightarrow> (bool \<times> kmem_info) outcome" where
  "morecore s nbytes =
     (let n = uint32 (uint32 (nbytes + (CLBYTES - 1)) div CLBYTES * CLBYTES)
      in obind (getpages s (n div NBPG)) (\<lambda>(p, s1).
           if p = 0 then Ok (False, s1)
           else obind (kmem_free s1 p n) (\<lambda>s2. Ok (True, s2))))"

text \<open>
  \<open>kmem_alloc\<close>: the descent to the better fitting son, and the allocation from the node found.
\<close>

fun alloc_path :: "int \<Rightarrow> Freehdr \<Rightarrow> dir list" where
  "alloc_path nbytes NIL = []"
| "alloc_path nbytes (Node l h b z r) =
     (if mweight l \<ge> nbytes \<or> mweight r \<ge> nbytes then
        (if mweight l \<le> mweight r then
           (if mweight l \<ge> nbytes then L # alloc_path nbytes l else R # alloc_path nbytes r)
         else
           (if mweight r \<ge> nbytes then R # alloc_path nbytes r else L # alloc_path nbytes l))
      else [])"

definition alloc_node :: "kmem_info \<Rightarrow> int \<Rightarrow> (int \<times> kmem_info) outcome" where
  "alloc_node s nbytes =
     (let ds = alloc_path nbytes (free_root s)
      in case subtree (free_root s) ds of
           NIL \<Rightarrow> Fault
         | Node l a b z r \<Rightarrow>
             if uint32 (z - nbytes) < SMALLEST_BLK then
               obind (delete_merge l r) (\<lambda>t.
                 Ok (b, s\<lparr>free_root := replace (free_root s) ds t,
                          free_hdr_list := freehdr a (free_hdr_list s)\<rparr>))
             else
               obind (getfreehdr s) (\<lambda>(x, s1).
                 if misaligned b \<and> z > ALIGNMORE b then
                   (let nb = uint32 (nbytes + ALIGNMORE b)
                    in obind (demote x b (ALIGNMORE b) l r) (\<lambda>t.
                       let s2 = s1\<lparr>free_root := replace (free_root s1) ds t\<rparr>
                       in obind (if z > nb then kmem_free s2 (nextblk b nb) (z - nb) else Ok s2)
                            (\<lambda>s3. Ok (uint32 (b + ALIGNMORE b),
                                      s3\<lparr>free_hdr_list := freehdr a (free_hdr_list s3)\<rparr>))))
                 else
                   obind (demote x (nextblk b nbytes) (uint32 (z - nbytes)) l r) (\<lambda>t.
                     Ok (b, s1\<lparr>free_root := replace (free_root s1) ds t,
                               free_hdr_list := freehdr a (free_hdr_list s1)\<rparr>))))"

definition kmem_alloc :: "kmem_info \<Rightarrow> int \<Rightarrow> (int \<times> kmem_info) outcome" where
  "kmem_alloc s nbytes =
     (if nbytes = 0 then Ok (0, s)
      else if nbytes < SMALLEST_BLK then Panic ''kmem_alloc''
      else obind (check_need_to_free s) (\<lambda>s1.
           obind (if mweight (free_root s1) \<le> nbytes then morecore s1 nbytes else Ok (True, s1))
             (\<lambda>(ok, s2). if ok then alloc_node s2 nbytes else Panic ''kmem_alloc'')))"

section \<open>Free trees as segment lists\<close>

fun segs :: "Freehdr \<Rightarrow> mapent list" where
  "segs NIL = []"
| "segs (Node l h b z r) = segs l @ \<lparr>m_size = z, m_addr = b\<rparr> # segs r"

fun hdrs :: "Freehdr \<Rightarrow> int multiset" where
  "hdrs NIL = {#}"
| "hdrs (Node l h b z r) = add_mset h (hdrs l + hdrs r)"

text \<open>The vertical order: no node is smaller than its sons.\<close>

fun heap :: "Freehdr \<Rightarrow> bool" where
  "heap NIL = True"
| "heap (Node l h b z r) = (weight l \<le> z \<and> weight r \<le> z \<and> heap l \<and> heap r)"

abbreviation pos_segs :: "mapent list \<Rightarrow> bool" where
  "pos_segs S \<equiv> \<forall>b\<in>set S. 0 < m_size b"

lemma wf_segs_pos: "wf_segs lo S \<Longrightarrow> pos_segs S"
  using wf_segs_used by blast

lemma weight_pos: "pos_segs (segs t) \<Longrightarrow> t \<noteq> NIL \<Longrightarrow> 0 < weight t"
  by (cases t) auto

lemma weight_nonneg: "pos_segs (segs t) \<Longrightarrow> 0 \<le> weight t"
  using weight_pos by (cases t) force+

lemma heap_weight: "heap t \<Longrightarrow> b \<in> set (segs t) \<Longrightarrow> m_size b \<le> weight t"
proof (induction t)
  case (Node l h b z r)
  then show ?case by fastforce
qed simp

text \<open>Deleting a node: the merged subtrees hold the same blocks and headers.\<close>

lemma delete_merge_spec:
  assumes "heap lb" "heap rb" "pos_segs (segs lb @ segs rb)"
  shows "\<exists>t. delete_merge lb rb = Ok t \<and> segs t = segs lb @ segs rb \<and> hdrs t = hdrs lb + hdrs rb
           \<and> heap t \<and> weight t = max (weight lb) (weight rb)"
  using assms
proof (induction "size lb + size rb" arbitrary: lb rb rule: less_induct)
  case less
  have nonneg: "0 \<le> weight lb" "0 \<le> weight rb"
    using less.prems(3) weight_nonneg by auto
  show ?case
  proof (cases "weight rb \<le> weight lb")
    case True
    show ?thesis
    proof (cases lb)
      case NIL
      then have "rb = NIL" using True less.prems(3) weight_pos [of rb] by fastforce
      then show ?thesis using NIL by simp
    next
      case (Node l h b z r)
      then obtain t where "delete_merge r rb = Ok t" "segs t = segs r @ segs rb" "hdrs t = hdrs r + hdrs rb"
          "heap t" "weight t = max (weight r) (weight rb)"
        using less.hyps [of r rb] less.prems by auto
      then show ?thesis using Node True less.prems by auto
    qed
  next
    case False
    then obtain l h b z r where rb: "rb = Node l h b z r" using nonneg by (cases rb) auto
    then obtain t where "delete_merge lb l = Ok t" "segs t = segs lb @ segs l" "hdrs t = hdrs lb + hdrs l"
        "heap t" "weight t = max (weight lb) (weight l)"
      using less.hyps [of lb l] less.prems by auto
    then show ?thesis using rb False less.prems by auto
  qed
qed

lemma demote_stop: "weight lb \<le> wx \<Longrightarrow> weight rb \<le> wx \<Longrightarrow> demote x xb wx lb rb = Ok (Node lb x xb wx rb)"
  by (subst demote.simps) simp

lemma demote_left:
  "wx < z \<Longrightarrow> weight rb \<le> z \<Longrightarrow>
   demote x xb wx (Node l h b z r) rb = obind (demote x xb wx r rb) (\<lambda>t. Ok (Node l h b z t))"
  by (subst demote.simps) simp

lemma demote_right:
  "wx < z \<Longrightarrow> weight lb < z \<Longrightarrow>
   demote x xb wx lb (Node l h b z r) = obind (demote x xb wx lb l) (\<lambda>t. Ok (Node t h b z r))"
  by (subst demote.simps) simp

text \<open>Demotion keeps the horizontal order and re-establishes the vertical one.\<close>

lemma demote_spec:
  assumes "heap lb" "heap rb" "0 \<le> wx"
  shows "\<exists>t. demote x xb wx lb rb = Ok t \<and> segs t = segs lb @ \<lparr>m_size = wx, m_addr = xb\<rparr> # segs rb
           \<and> hdrs t = add_mset x (hdrs lb + hdrs rb)
           \<and> heap t \<and> weight t = max wx (max (weight lb) (weight rb))"
  using assms
proof (induction "size lb + size rb" arbitrary: lb rb rule: less_induct)
  case less
  consider "weight lb \<le> wx" "weight rb \<le> wx"
    | (left) "wx < weight lb" "weight rb \<le> weight lb"
    | (right) "wx < weight rb" "weight lb < weight rb"
    by linarith
  then show ?case
  proof cases
    case 1
    then show ?thesis using less.prems by (auto simp: demote_stop)
  next
    case left
    then obtain l h b z r where lb: "lb = Node l h b z r" using less.prems by (cases lb) auto
    then obtain t where "demote x xb wx r rb = Ok t" "segs t = segs r @ \<lparr>m_size = wx, m_addr = xb\<rparr> # segs rb"
        "hdrs t = add_mset x (hdrs r + hdrs rb)" "heap t" "weight t = max wx (max (weight r) (weight rb))"
      using less.hyps [of r rb] less.prems by auto
    then show ?thesis using lb left less.prems by (auto simp: demote_left)
  next
    case right
    then obtain l h b z r where rb: "rb = Node l h b z r" using less.prems by (cases rb) auto
    then obtain t where "demote x xb wx lb l = Ok t" "segs t = segs lb @ \<lparr>m_size = wx, m_addr = xb\<rparr> # segs l"
        "hdrs t = add_mset x (hdrs lb + hdrs l)" "heap t" "weight t = max wx (max (weight lb) (weight l))"
      using less.hyps [of lb l] less.prems by auto
    then show ?thesis using rb right less.prems by (auto simp: demote_right)
  qed
qed

text \<open>The hooks split a subtree at an address.\<close>

abbreviation below :: "mapent list \<Rightarrow> int \<Rightarrow> bool" where
  "below S p \<equiv> \<forall>b\<in>set S. m_addr b < p"

abbreviation above :: "mapent list \<Rightarrow> int \<Rightarrow> bool" where
  "above S p \<equiv> \<forall>b\<in>set S. p \<le> m_addr b"

lemma wf_segs_below: "wf_segs lo (S @ b # T) \<Longrightarrow> c \<in> set S \<Longrightarrow> m_addr c + m_size c < m_addr b"
proof (induction S arbitrary: lo)
  case (Cons a S)
  then show ?case
    using wf_segs_used [of "m_addr a + m_size a" "S @ b # T" b] by auto
qed simp

lemma wf_segs_above: "wf_segs lo (S @ b # T) \<Longrightarrow> c \<in> set T \<Longrightarrow> m_addr b + m_size b < m_addr c"
  using wf_segs_used [of "m_addr b + m_size b" T c] by auto

lemma node_order:
  assumes "wf_segs lo (segs (Node l h b z r))"
  shows "c \<in> set (segs l) \<Longrightarrow> m_addr c + m_size c < b \<and> m_addr c < b"
    and "c \<in> set (segs r) \<Longrightarrow> b + z < m_addr c \<and> b < m_addr c"
proof -
  assume c: "c \<in> set (segs l)"
  then have "m_addr c + m_size c < b"
    using wf_segs_below [of lo "segs l" "\<lparr>m_size = z, m_addr = b\<rparr>" "segs r" c] assms by simp
  moreover have "0 < m_size c" using wf_segs_used [of lo "segs l" c] c assms by simp
  ultimately show "m_addr c + m_size c < b \<and> m_addr c < b" by simp
next
  assume "c \<in> set (segs r)"
  then show "b + z < m_addr c \<and> b < m_addr c"
    using wf_segs_above [of lo "segs l" "\<lparr>m_size = z, m_addr = b\<rparr>" "segs r" c] assms by simp
qed

lemma split_hooks_spec:
  assumes "split_hooks t p = (lh, rh)" "wf_segs lo (segs t)" "heap t"
  shows "segs t = segs lh @ segs rh \<and> hdrs t = hdrs lh + hdrs rh \<and> heap lh \<and> heap rh
           \<and> weight lh \<le> weight t \<and> weight rh \<le> weight t \<and> below (segs lh) p \<and> above (segs rh) p"
  using assms
proof (induction t arbitrary: lh rh lo)
  case (Node l h b z r)
  have wf: "wf_segs lo (segs l)" "wf_segs (b + z) (segs r)" "0 < z"
    using Node.prems(2) by auto
  note sep = node_order [OF Node.prems(2)]
  show ?case
  proof (cases "b < p")
    case True
    then obtain lh' where s: "split_hooks r p = (lh', rh)" "lh = Node l h b z lh'"
      using Node.prems(1) by (auto split: prod.splits)
    show ?thesis
      using Node.IH(2) [OF s(1) wf(2)] Node.prems(3) sep True by (fastforce simp: s(2))
  next
    case False
    then obtain rh' where s: "split_hooks l p = (lh, rh')" "rh = Node rh' h b z r"
      using Node.prems(1) by (auto split: prod.splits)
    show ?thesis
      using Node.IH(1) [OF s(1) wf(1)] Node.prems(3) sep False by (fastforce simp: s(2))
  qed
qed auto

text \<open>Insertion adds one block at its place and keeps both orders.\<close>

definition ins_ok :: "Freehdr \<Rightarrow> (int \<Rightarrow> Freehdr) \<Rightarrow> mapent list \<Rightarrow> mapent list \<Rightarrow> int \<Rightarrow> int \<Rightarrow> bool" where
  "ins_ok t u A B p len \<longleftrightarrow> segs t = A @ B \<and> below A p \<and> above B p
     \<and> (\<forall>h. segs (u h) = A @ \<lparr>m_size = len, m_addr = p\<rparr> # B \<and> hdrs (u h) = add_mset h (hdrs t)
            \<and> heap (u h) \<and> weight (u h) = max len (weight t))"

lemma root_insert_spec:
  assumes "wf_segs lo (segs t)" "heap t" "weight t < len"
  shows "\<exists>A B. ins_ok t (\<lambda>h. root_insert t h p len) A B p len"
proof -
  obtain lh rh where s: "split_hooks t p = (lh, rh)" by fastforce
  from split_hooks_spec [OF this assms(1,2)] assms(3)
  have "ins_ok t (\<lambda>h. root_insert t h p len) (segs lh) (segs rh) p len"
    by (auto simp: root_insert_def s ins_ok_def)
  then show ?thesis by blast
qed

definition insert_at :: "Freehdr \<Rightarrow> dir list \<Rightarrow> int \<Rightarrow> int \<Rightarrow> int \<Rightarrow> Freehdr" where
  "insert_at t ds p len h = replace t ds (root_insert (subtree t ds) h p len)"

lemma insert_at_Nil: "insert_at t [] p len = (\<lambda>h. root_insert t h p len)"
  by (simp add: insert_at_def fun_eq_iff)

lemma insert_path_spec:
  assumes "wf_segs lo (segs t)" "heap t" "0 < len" "\<forall>b\<in>set (segs t). m_addr b \<noteq> p"
  shows "\<exists>ds A B. insert_path t p len = Ok ds \<and> ins_ok t (insert_at t ds p len) A B p len"
  using assms
proof (induction t arbitrary: lo)
  case NIL
  then have "ins_ok NIL (insert_at NIL [] p len) [] [] p len"
    by (simp add: ins_ok_def insert_at_def root_insert_def)
  moreover have "insert_path NIL p len = Ok []" using NIL by simp
  ultimately show ?case by blast
next
  case (Node l h b z r)
  note sep = node_order [OF Node.prems(1)]
  let ?t = "Node l h b z r"
  consider (stop) "z < len" | (left) "len \<le> z" "p < b" | (right) "len \<le> z" "b \<le> p" by linarith
  then show ?case
  proof cases
    case stop
    then have "insert_path ?t p len = Ok []" by simp
    moreover obtain A B where "ins_ok ?t (insert_at ?t [] p len) A B p len"
      using root_insert_spec [OF Node.prems(1,2), of len p] stop unfolding insert_at_Nil by auto
    ultimately show ?thesis by blast
  next
    case left
    then obtain ds A B where IH: "insert_path l p len = Ok ds" "ins_ok l (insert_at l ds p len) A B p len"
      using Node.IH(1) [of lo] Node.prems by auto
    have "above (B @ \<lparr>m_size = z, m_addr = b\<rparr> # segs r) p"
      using IH(2) left(2) sep(2) by (fastforce simp: ins_ok_def)
    then have "ins_ok ?t (insert_at ?t (L # ds) p len) A (B @ \<lparr>m_size = z, m_addr = b\<rparr> # segs r) p len"
      using IH(2) left(1) Node.prems(2) by (auto simp: ins_ok_def insert_at_def)
    moreover have "insert_path ?t p len = Ok (L # ds)" using IH(1) left by simp
    ultimately show ?thesis by blast
  next
    case right
    then obtain ds A B where IH: "insert_path r p len = Ok ds" "ins_ok r (insert_at r ds p len) A B p len"
      using Node.IH(2) [of "b + z"] Node.prems by auto
    have "below (segs l @ \<lparr>m_size = z, m_addr = b\<rparr> # A) p"
      using IH(2) right(2) sep(1) Node.prems(4) by (fastforce simp: ins_ok_def)
    then have "ins_ok ?t (insert_at ?t (R # ds) p len) (segs l @ \<lparr>m_size = z, m_addr = b\<rparr> # A) B p len"
      using IH(2) right(1) Node.prems(2) by (auto simp: ins_ok_def insert_at_def)
    moreover have "insert_path ?t p len = Ok (R # ds)" using IH(1) right by simp
    ultimately show ?thesis by blast
  qed
qed

text \<open>Replacing the subtree at a link.\<close>

lemma replace_spec:
  assumes "subtree t ds \<noteq> NIL"
  obtains A B M where "\<And>u. segs (replace t ds u) = A @ segs u @ B"
    "\<And>u. hdrs (replace t ds u) = M + hdrs u" "segs t = A @ segs (subtree t ds) @ B"
    "hdrs t = M + hdrs (subtree t ds)"
    "\<And>u. heap t \<Longrightarrow> heap u \<Longrightarrow> weight u \<le> weight (subtree t ds) \<Longrightarrow>
       heap (replace t ds u) \<and> weight (replace t ds u) \<le> weight t"
    "heap t \<Longrightarrow> heap (subtree t ds)"
  using assms
proof (induction t ds arbitrary: thesis rule: subtree.induct)
  case (1 t)
  show ?case by (rule 1(1) [of "[]" "[]" "{#}"]) auto
next
  case (3 l h b z r ds)
  from 3(3) obtain A B M where "\<And>u. segs (replace l ds u) = A @ segs u @ B"
    "\<And>u. hdrs (replace l ds u) = M + hdrs u" "segs l = A @ segs (subtree l ds) @ B"
    "hdrs l = M + hdrs (subtree l ds)"
    "\<And>u. heap l \<Longrightarrow> heap u \<Longrightarrow> weight u \<le> weight (subtree l ds) \<Longrightarrow>
       heap (replace l ds u) \<and> weight (replace l ds u) \<le> weight l"
    "heap l \<Longrightarrow> heap (subtree l ds)"
    by (auto intro: 3(1))
  then show ?case
    by (intro 3(2) [of A "B @ \<lparr>m_size = z, m_addr = b\<rparr> # segs r" "add_mset h (M + hdrs r)"]) (auto, force)
next
  case (4 l h b z r ds)
  from 4(3) obtain A B M where "\<And>u. segs (replace r ds u) = A @ segs u @ B"
    "\<And>u. hdrs (replace r ds u) = M + hdrs u" "segs r = A @ segs (subtree r ds) @ B"
    "hdrs r = M + hdrs (subtree r ds)"
    "\<And>u. heap r \<Longrightarrow> heap u \<Longrightarrow> weight u \<le> weight (subtree r ds) \<Longrightarrow>
       heap (replace r ds u) \<and> weight (replace r ds u) \<le> weight r"
    "heap r \<Longrightarrow> heap (subtree r ds)"
    by (auto intro: 4(1))
  then show ?case
    by (intro 4(2) [of "segs l @ \<lparr>m_size = z, m_addr = b\<rparr> # A" B "add_mset h (M + hdrs l)"]) (auto, force)
qed auto

section \<open>Counting the owners of a byte\<close>

text \<open>
  \<open>inb a n x\<close> counts byte \<open>x\<close> once when it lies in the block of \<open>n\<close> bytes at \<open>a\<close>.  A block that
  moves between the tree, the deferred blocks and the caller keeps its count, and disjointness is
  that no byte counts more than once.
\<close>

definition inb :: "int \<Rightarrow> int \<Rightarrow> int \<Rightarrow> nat" where
  "inb a n x = (if a \<le> x \<and> x < a + n then 1 else 0)"

fun cnt :: "mapent list \<Rightarrow> int \<Rightarrow> nat" where
  "cnt [] x = 0"
| "cnt (b # S) x = inb (m_addr b) (m_size b) x + cnt S x"

definition hcnt :: "int multiset \<Rightarrow> int \<Rightarrow> nat" where
  "hcnt M x = sum_mset (image_mset (\<lambda>h. inb h HDRSIZE x) M)"

lemma cnt_append [simp]: "cnt (S @ T) x = cnt S x + cnt T x"
  by (induction S) auto

lemma hcnt_simps [simp]:
  "hcnt {#} x = 0" "hcnt (add_mset h M) x = inb h HDRSIZE x + hcnt M x" "hcnt (M + N) x = hcnt M x + hcnt N x"
  by (simp_all add: hcnt_def)

lemma inb_split: "0 \<le> m \<Longrightarrow> 0 \<le> n \<Longrightarrow> inb a (m + n) x = inb a m x + inb (a + m) n x"
  by (auto simp: inb_def)

lemma inb_zero [simp]: "n \<le> 0 \<Longrightarrow> inb a n x = 0"
  by (simp add: inb_def)

lemma inb_le: "inb a n x \<le> 1"
  by (simp add: inb_def)

lemma inb_start: "0 < n \<Longrightarrow> inb a n a = 1"
  by (simp add: inb_def)

section \<open>Returning a block to the tree\<close>

lemma wf_segs_drop: "wf_segs lo (S @ b # T) \<Longrightarrow> wf_segs lo (S @ T)"
  using wf_segs_mono [of "m_addr b + m_size b" T "seg_hi lo S"] by auto

lemma seg_hi_drop:
  "wf_segs lo (S @ b # T) \<Longrightarrow> seg_hi lo (S @ T) \<le> seg_hi lo (S @ b # T)"
  using wf_segs_hi [of "m_addr b + m_size b" T] by (cases T) auto

definition apart :: "mapent list \<Rightarrow> int \<Rightarrow> int \<Rightarrow> bool" where
  "apart S p n \<longleftrightarrow> (\<forall>b\<in>set S. m_addr b + m_size b < p \<or> p + n < m_addr b)"

text \<open>
  What the search leaves: the block grown by its neighbours, the tree without them, no other
  free block touching it, and every byte and header accounted for.
\<close>

definition search_ok :: "int \<Rightarrow> int \<Rightarrow> Freehdr \<Rightarrow> int \<Rightarrow> int \<Rightarrow> int list \<Rightarrow>
    Freehdr \<times> int \<times> int \<times> int list \<Rightarrow> bool" where
  "search_ok lo hi t p n hs = (\<lambda>(t', p', n', hs').
     wf_segs lo (segs t') \<and> seg_hi lo (segs t') < hi \<and> heap t' \<and> weight t' \<le> weight t
     \<and> lo < p' \<and> p' + n' < hi \<and> n \<le> n' \<and> apart (segs t') p' n'
     \<and> (\<forall>x. cnt (segs t') x + inb p' n' x = cnt (segs t) x + inb p n x)
     \<and> mset hs' + hdrs t' = mset hs + hdrs t \<and> length hs \<le> length hs')"

lemma free_search_absorb:
  assumes wf: "wf_segs lo (segs (Node l h b z r))" and hi: "seg_hi lo (segs (Node l h b z r)) < hi"
    and hp: "heap (Node l h b z r)"
  obtains t where "delete_merge l r = Ok t" "segs t = segs l @ segs r" "wf_segs lo (segs t)"
    "seg_hi lo (segs t) < hi" "heap t" "weight t \<le> z" "hdrs t = hdrs l + hdrs r"
proof -
  have "pos_segs (segs l @ segs r)" using wf_segs_pos [OF wf] by auto
  then obtain t where t: "delete_merge l r = Ok t" "segs t = segs l @ segs r" "hdrs t = hdrs l + hdrs r"
      "heap t" "weight t = max (weight l) (weight r)"
    using delete_merge_spec [of l r] hp by auto
  moreover have "wf_segs lo (segs l @ segs r)"
    using wf_segs_drop [of lo "segs l" "\<lparr>m_size = z, m_addr = b\<rparr>" "segs r"] wf by simp
  moreover have "seg_hi lo (segs l @ segs r) < hi"
    using seg_hi_drop [of lo "segs l" "\<lparr>m_size = z, m_addr = b\<rparr>" "segs r"] wf hi by simp
  ultimately show ?thesis using that hp by auto
qed

lemma free_search_spec:
  assumes "wf_segs lo (segs t)" "seg_hi lo (segs t) < hi" "hi \<le> INT_MAX + 1" "heap t"
    "0 \<le> lo" "lo < p" "p + n < hi" "0 < n" "\<forall>x. cnt (segs t) x + inb p n x \<le> 1"
  shows "\<exists>res. free_search t p n hs = Ok res \<and> search_ok lo hi t p n hs res"
  using assms
proof (induction t p n hs arbitrary: lo hi rule: free_search.induct)
  case (1 p n hs)
  then show ?case by (simp add: search_ok_def apart_def)
next
  case (2 l h b z r p n hs)
  note prems = 2(5-)
  let ?t = "Node l h b z r"
  have bz: "lo < b" "0 < z" "b + z < hi" "wf_segs lo (segs l)" "wf_segs (b + z) (segs r)"
      "seg_hi lo (segs l) < b"
    using prems(1,2) wf_segs_hi [of lo "segs l"] wf_segs_hi [of "b + z" "segs r"] by auto
  have small: "uint32 (p + n) = p + n" "uint32 (b + z) = b + z"
    using prems bz by (auto simp: INT_MAX_def)
  have at: "cnt (segs ?t) x = cnt (segs l) x + inb b z x + cnt (segs r) x" for x
    by simp
  note sep = node_order [OF prems(1)]
  note one = prems(9) [rule_format]
  consider (right_nb) "p < b" "p + n = b" | (left) "p < b" "p + n < b"
    | (left_nb) "b < p" "b + z = p" | (right) "b < p" "b + z < p" | (over) "p \<le> b" "b < p + n" | (inside) "b \<le> p" "p < b + z"
    using bz(2) prems(8) by linarith
  then show ?case
  proof cases
    case right_nb
    obtain t where t: "delete_merge l r = Ok t" "segs t = segs l @ segs r" "wf_segs lo (segs t)"
      "seg_hi lo (segs t) < hi" "heap t" "weight t \<le> z" "hdrs t = hdrs l + hdrs r"
      by (rule free_search_absorb [OF prems(1,2,4)])
    have grow: "inb p (n + z) x = inb p n x + inb b z x" for x
      using right_nb bz prems(8) by (simp add: inb_split)
    have w: "uint32 (n + z) = n + z" using right_nb bz prems by (simp add: INT_MAX_def)
    have "\<exists>res. free_search t p (n + z) (freehdr h hs) = Ok res \<and> search_ok lo hi t p (n + z) (freehdr h hs) res"
      using 2(1) [OF right_nb(1) _ t(1), of lo hi] right_nb small t prems bz one
      by (simp add: w grow at ac_simps)
    then show ?thesis
      using right_nb t small bz(2) by (fastforce simp: w search_ok_def grow freehdr_def)
  next
    case left
    have c: "cnt (segs l) x + inb p n x \<le> 1" for x using one [of x] by simp
    have "\<exists>res. free_search l p n hs = Ok res \<and> search_ok lo b l p n hs res"
      using 2(2) [of lo b] left small prems bz c by simp
    then obtain l' p' n' hs' where l': "free_search l p n hs = Ok (l', p', n', hs')"
        "search_ok lo b l p n hs (l', p', n', hs')" by auto
    have "free_search ?t p n hs = Ok (Node l' h b z r, p', n', hs')"
      using left small l'(1) by simp
    moreover have "search_ok lo hi ?t p n hs (Node l' h b z r, p', n', hs')"
      using l'(2) prems bz sep by (fastforce simp: search_ok_def apart_def at)
    ultimately show ?thesis by blast
  next
    case left_nb
    obtain t where t: "delete_merge l r = Ok t" "segs t = segs l @ segs r" "wf_segs lo (segs t)"
      "seg_hi lo (segs t) < hi" "heap t" "weight t \<le> z" "hdrs t = hdrs l + hdrs r"
      by (rule free_search_absorb [OF prems(1,2,4)])
    have grow: "inb b (n + z) x = inb p n x + inb b z x" for x
      using left_nb bz prems(8) inb_split [of z n b x] by (simp add: add.commute)
    have w: "uint32 (n + z) = n + z" using left_nb bz prems by (simp add: INT_MAX_def)
    have "\<exists>res. free_search t b (n + z) (freehdr h hs) = Ok res \<and> search_ok lo hi t b (n + z) (freehdr h hs) res"
      using 2(3) [of t lo hi] left_nb small t prems bz one
      by (simp add: w grow at ac_simps)
    then show ?thesis
      using left_nb t small bz(2) by (fastforce simp: w search_ok_def grow freehdr_def)
  next
    case right
    have c: "cnt (segs r) x + inb p n x \<le> 1" for x using one [of x] by simp
    have "\<exists>res. free_search r p n hs = Ok res \<and> search_ok (b + z) hi r p n hs res"
      using 2(4) [of "b + z" hi] right small prems bz c by simp
    then obtain r' p' n' hs' where r': "free_search r p n hs = Ok (r', p', n', hs')"
        "search_ok (b + z) hi r p n hs (r', p', n', hs')" by auto
    have "free_search ?t p n hs = Ok (Node l h b z r', p', n', hs')"
      using right small r'(1) by simp
    moreover have "search_ok lo hi ?t p n hs (Node l h b z r', p', n', hs')"
      using r'(2) prems bz sep by (fastforce simp: search_ok_def apart_def at)
    ultimately show ?thesis by blast
  next
    case over
    then have "inb b z b = 1" "inb p n b = 1" using bz by (simp_all add: inb_def)
    then show ?thesis using one [of b] by simp
  next
    case inside
    then have "inb b z p = 1" "inb p n p = 1" using bz prems(8) by (simp_all add: inb_def)
    then show ?thesis using one [of p] by simp
  qed
qed

section \<open>The state invariant\<close>

definition deferred :: "kmem_info \<Rightarrow> (int \<times> int) list" where
  "deferred s = need_to_free_list s @ filter (\<lambda>e. fst e \<noteq> 0) (need_to_free s)"

fun dcnt :: "(int \<times> int) list \<Rightarrow> int \<Rightarrow> nat" where
  "dcnt [] x = 0"
| "dcnt (e # es) x = inb (fst e) (snd e) x + dcnt es x"

definition page_in :: "kmem_info \<Rightarrow> int \<Rightarrow> nat" where
  "page_in s x = (if (x - vaddr s) div NBPG \<in> rm_space (kmap s) then 1 else 0)"

text \<open>
  How often the allocator owns byte \<open>x\<close>: as part of a free block, of a page that \<open>kernelmap\<close> can
  still give, of a header block (in the tree or on the list of free headers) or of a block that
  waits to be freed.
\<close>

definition own :: "kmem_info \<Rightarrow> int \<Rightarrow> nat" where
  "own s x = cnt (segs (free_root s)) x + page_in s x
     + hcnt (mset (free_hdr_list s) + hdrs (free_root s)) x + dcnt (deferred s) x"

definition arena_cnt :: "kmem_info \<Rightarrow> int \<Rightarrow> nat" where
  "arena_cnt s x = inb (usrpt s) (USRPTSIZE * NBPG) x"

definition km_wf :: "kmem_info \<Rightarrow> bool" where
  "km_wf s \<longleftrightarrow> wf_segs 0 (segs (free_root s)) \<and> heap (free_root s)
     \<and> rm_inv (kmap s) \<and> \<not> is_swapmap (kmap s) \<and> swap_ok (swapconf s)
     \<and> rm_space (kmap s) \<subseteq> {1..<USRPTSIZE}
     \<and> vaddr s = usrpt s \<and> 0 < usrpt s \<and> NBPG dvd usrpt s \<and> usrpt s + USRPTSIZE * NBPG \<le> INT_MAX
     \<and> (\<forall>e\<in>set (need_to_free_list s). fst e \<noteq> 0) \<and> (\<forall>e\<in>set (deferred s). 0 \<le> snd e)"

text \<open>The invariant: both orders of the tree, and every byte of the arena has at most one owner.\<close>

definition km_inv :: "kmem_info \<Rightarrow> bool" where
  "km_inv s \<longleftrightarrow> km_wf s \<and> (\<forall>x. own s x \<le> arena_cnt s x)"

text \<open>The routines that need pages may find none: then they sleep, or panic at interrupt level.\<close>

definition starved :: "'a outcome \<Rightarrow> bool" where
  "starved m \<longleftrightarrow> m = Sleep \<or> m = Panic ''getpages called at interrupt level''"

lemma starved_simps [simp]:
  "starved Sleep" "starved (Panic ''getpages called at interrupt level'')" "\<not> starved (Ok v)"
  by (simp_all add: starved_def)

lemma starved_obind [simp]: "starved m \<Longrightarrow> starved (obind m f)"
  by (auto simp: starved_def)

lemma NBPG_simps [simp]: "NBPG = 8192" "CLBYTES = 8192" "USRPTSIZE = 1216" "HDRSIZE = 16" "CLSIZE = 1"
  by (simp_all add: NBPG_def CLBYTES_def CLSIZE_def USRPTSIZE_def HDRSIZE_def)

lemma page_div_iff: "k \<le> (y :: int) div 8192 \<longleftrightarrow> k * 8192 \<le> y" "y div 8192 < k \<longleftrightarrow> y < k * 8192"
proof -
  have y: "y = y div 8192 * 8192 + y mod 8192" by simp
  have r: "0 \<le> y mod 8192" "y mod 8192 < 8192" by simp_all
  show "k \<le> y div 8192 \<longleftrightarrow> k * 8192 \<le> y" using y r by linarith
  show "y div 8192 < k \<longleftrightarrow> y < k * 8192" using y r by linarith
qed

lemma page_inb: "(if (x - v) div 8192 \<in> blk k n then 1 else 0) = inb (v + k * 8192) (n * 8192) x"
  by (auto simp: inb_def page_div_iff algebra_simps)

lemma getpages_spec [consumes 2, case_names starved pages]:
  assumes wf: "km_wf s" and n: "0 < n"
  obtains (starved) "starved (getpages s n)"
  | (pages) p mp where "getpages s n = Ok (p, s\<lparr>kmap := mp\<rparr>)" "km_wf (s\<lparr>kmap := mp\<rparr>)"
      "8192 dvd p" "usrpt s < p" "p + n * 8192 \<le> usrpt s + 1216 * 8192"
      "\<And>x. own s x = own (s\<lparr>kmap := mp\<rparr>) x + inb p (n * 8192) x"
proof -
  have inv: "rm_inv (kmap s)" "swap_ok (swapconf s)" "\<not> is_swapmap (kmap s)"
      and sp: "rm_space (kmap s) \<subseteq> {1..<1216}" and v: "vaddr s = usrpt s" "0 < usrpt s"
      "usrpt s + 1216 * 8192 \<le> INT_MAX" "8192 dvd usrpt s"
    using wf by (auto simp: km_wf_def)
  show ?thesis
  proof (cases "\<exists>b\<in>set (rm_segs (kmap s)). rm_fits (swapconf s) (kmap s) n b")
    case False
    then have "rmalloc (swapconf s) (kmap s) n = Ok (0, kmap s)"
      using rmalloc_none [OF inv(1,2) n] inv(3) by auto
    then show ?thesis by (intro starved) (simp add: getpages_def)
  next
    case True
    then obtain k mp where k: "rmalloc (swapconf s) (kmap s) n = Ok (k, mp)" "0 < k" "rm_ext (kmap s) mp"
        "blk k n \<subseteq> rm_space (kmap s)" "rm_space mp = rm_space (kmap s) - blk k n"
      using rmalloc_some [OF inv(1,2) n] inv(3) by fastforce
    have "k \<in> blk k n" "k + n - 1 \<in> blk k n" using n by auto
    then have kn: "1 \<le> k" "k + n \<le> 1216" using k(4) sp by fastforce+
    have p: "getpages s n = Ok (usrpt s + k * 8192, s\<lparr>kmap := mp\<rparr>)"
      using k(1,2) kn v n by (simp add: getpages_def INT_MAX_def)
    have "page_in s x = page_in (s\<lparr>kmap := mp\<rparr>) x + inb (usrpt s + k * 8192) (n * 8192) x" for x
      unfolding page_inb [symmetric] using k(4,5) v(1) by (auto simp: page_in_def)
    then have o: "own s x = own (s\<lparr>kmap := mp\<rparr>) x + inb (usrpt s + k * 8192) (n * 8192) x" for x
      by (simp add: own_def deferred_def)
    have "km_wf (s\<lparr>kmap := mp\<rparr>)"
      using wf k(3,5) by (auto simp: km_wf_def rm_ext_def deferred_def)
    from pages [OF p this _ _ _ o] show ?thesis using kn v by simp
  qed
qed

lemma mset_fold_freehdr: "mset (fold (\<lambda>n. freehdr (g n)) ns hs) = mset (map g ns) + mset hs"
  by (induction ns arbitrary: hs) (simp_all add: freehdr_def)

lemma hcnt_page: "hcnt (mset (map (\<lambda>n. r + int n * 16) [0..<k])) x = inb r (int k * 16) x"
  by (induction k) (auto simp: inb_def)

lemma length_fold_freehdr: "length (fold (\<lambda>n. freehdr (g n)) ns hs) = length ns + length hs"
  by (induction ns arbitrary: hs) (simp_all add: freehdr_def)

lemma getfreehdr_spec [consumes 1, case_names starved header]:
  assumes wf: "km_wf s"
  obtains (starved) "starved (getfreehdr s)" "free_hdr_list s = []"
  | (header) h mp hs where "getfreehdr s = Ok (h, s\<lparr>kmap := mp, free_hdr_list := hs\<rparr>)"
      "km_wf (s\<lparr>kmap := mp, free_hdr_list := hs\<rparr>)" "length (free_hdr_list s) \<le> Suc (length hs)"
      "\<And>x. own s x = own (s\<lparr>kmap := mp, free_hdr_list := hs\<rparr>) x + inb h HDRSIZE x"
proof (cases "free_hdr_list s")
  case (Cons h hs)
  have s: "s\<lparr>kmap := kmap s, free_hdr_list := hs\<rparr> = s\<lparr>free_hdr_list := hs\<rparr>" by simp
  show ?thesis
    by (rule header [where h = h and mp = "kmap s" and hs = hs])
       (use Cons wf in \<open>simp_all add: s getfreehdr_def km_wf_def deferred_def own_def page_in_def\<close>)
next
  case Nil
  from wf zero_less_one show ?thesis
  proof (cases rule: getpages_spec)
    case starved
    then have "starved (getfreehdr s)" using Nil by (simp add: getfreehdr_def)
    then show ?thesis using Nil by (rule that(1))
  next
    case (pages r mp)
    define hs where "hs = fold (\<lambda>n. freehdr (uint32 (r + int n * 16))) [1..<512] []"
    have r: "0 < r" "r + 8192 \<le> INT_MAX" using pages wf by (auto simp: km_wf_def)
    have "getfreehdr s = Ok (r, s\<lparr>kmap := mp, free_hdr_list := hs\<rparr>)"
      using Nil pages(1) r by (simp add: getfreehdr_def hs_def)
    moreover have "km_wf (s\<lparr>kmap := mp, free_hdr_list := hs\<rparr>)"
      using pages(2) by (simp add: km_wf_def deferred_def)
    moreover have "own s x = own (s\<lparr>kmap := mp, free_hdr_list := hs\<rparr>) x + inb r HDRSIZE x" for x
    proof -
      have "map (\<lambda>n. uint32 (r + int n * 16)) [1..<512] = map (\<lambda>n. r + int n * 16) [1..<512]"
        using r by (auto simp: INT_MAX_def)
      then have "mset hs = mset (map (\<lambda>n. r + int n * 16) [1..<512])"
        unfolding hs_def mset_fold_freehdr by (simp only: mset.simps add_0_right)
      then have "hcnt (mset hs) x + inb r 16 x = hcnt (mset (map (\<lambda>n. r + int n * 16) (0 # [1..<512]))) x"
        by simp
      also have "0 # [1..<512] = [0..<512::nat]"
        using upt_conv_Cons [of 0 512] unfolding One_nat_def by (simp only: zero_less_numeral simp_thms)
      finally have "hcnt (mset hs) x + inb r 16 x = inb r 8192 x" unfolding hcnt_page by simp
      moreover have "own (s\<lparr>kmap := mp, free_hdr_list := hs\<rparr>) x = own (s\<lparr>kmap := mp\<rparr>) x + hcnt (mset hs) x"
        using Nil by (simp add: own_def deferred_def page_in_def)
      ultimately show ?thesis using pages(6) [of x] by simp
    qed
    ultimately show ?thesis using that(2) Nil by fastforce
  qed
qed

section \<open>kmem\_free\<close>

lemma seg_hi_below:
  "wf_segs lo A \<Longrightarrow> lo < p \<Longrightarrow> \<forall>b\<in>set A. m_addr b + m_size b < p \<Longrightarrow> seg_hi lo A < p"
  by (induction A arbitrary: lo) auto

lemma wf_segs_insert:
  assumes "wf_segs lo (A @ B)" "lo < p" "0 < n" "p + n \<le> INT_MAX"
    "\<forall>b\<in>set A. m_addr b + m_size b < p" "\<forall>b\<in>set B. p + n < m_addr b"
  shows "wf_segs lo (A @ \<lparr>m_size = n, m_addr = p\<rparr> # B)"
proof -
  have "wf_segs (p + n) B" using assms(1,6) by (cases B) auto
  then show ?thesis using assms seg_hi_below [of lo A p] by simp
qed

lemma apart_split:
  assumes "apart (A @ B) p n" "below A p" "above B p" "pos_segs (A @ B)" "0 < n"
  shows "\<forall>b\<in>set A. m_addr b + m_size b < p" "\<forall>b\<in>set B. p + n < m_addr b"
  using assms by (force simp: apart_def)+

lemma km_wf_tree:
  "km_wf s \<Longrightarrow> wf_segs 0 (segs (free_root s))" "km_wf s \<Longrightarrow> heap (free_root s)"
  by (simp_all add: km_wf_def)

lemma km_wf_update:
  "km_wf s \<Longrightarrow> wf_segs 0 (segs t) \<Longrightarrow> heap t \<Longrightarrow> km_wf (s\<lparr>free_root := t, free_hdr_list := hs\<rparr>)"
  "km_wf s \<Longrightarrow> wf_segs 0 (segs t) \<Longrightarrow> heap t \<Longrightarrow> km_wf (s\<lparr>free_root := t\<rparr>)"
  "km_wf s \<Longrightarrow> km_wf (s\<lparr>free_hdr_list := hs\<rparr>)"
  by (simp_all add: km_wf_def deferred_def)

text \<open>Entering a block that touches no other into the tree.\<close>

lemma insert_blk_spec [consumes 5, case_names starved placed]:
  assumes wf: "km_wf s" and ap: "apart (segs (free_root s)) p n" and p: "0 < p" "0 < n" "p + n \<le> INT_MAX"
  obtains (starved) "starved (insert_blk s p n)" "free_hdr_list s = []"
  | (placed) s' where "insert_blk s p n = Ok s'" "km_wf s'" "\<And>x. own s' x = own s x + inb p n x"
      "n \<le> weight (free_root s')" "length (free_hdr_list s) \<le> Suc (length (free_hdr_list s'))"
proof -
  let ?t = "free_root s"
  have ne: "\<forall>b\<in>set (segs ?t). m_addr b \<noteq> p"
    using ap wf_segs_pos [OF km_wf_tree(1) [OF wf]] p(2) by (force simp: apart_def)
  obtain ds A B where ins: "insert_path ?t p n = Ok ds" "ins_ok ?t (insert_at ?t ds p n) A B p n"
    using insert_path_spec [OF km_wf_tree [OF wf] p(2) ne] by blast
  have AB: "segs ?t = A @ B" "below A p" "above B p" using ins(2) by (auto simp: ins_ok_def)
  have wfi: "wf_segs 0 (segs (insert_at ?t ds p n h))" "heap (insert_at ?t ds p n h)" for h
    using ins(2) apart_split [of A B p n] ap wf_segs_insert [of 0 A B p n] p
      km_wf_tree(1) [OF wf] wf_segs_pos [OF km_wf_tree(1) [OF wf]] AB by (auto simp: ins_ok_def)
  from wf show ?thesis
  proof (cases rule: getfreehdr_spec)
    case starved
    then have "starved (insert_blk s p n)" using ins(1) by (simp add: insert_blk_def)
    then show ?thesis using starved(2) by (rule that(1))
  next
    case (header h mp hs)
    let ?s = "s\<lparr>kmap := mp, free_hdr_list := hs, free_root := insert_at ?t ds p n h\<rparr>"
    have "insert_blk s p n = Ok ?s"
      using ins(1) header(1) by (simp add: insert_blk_def insert_at_def)
    moreover have "km_wf ?s"
      using km_wf_update(2) [OF header(2) wfi] by simp
    moreover have "own ?s x = own s x + inb p n x" for x
      using header(4) [of x] ins(2)
      by (simp add: own_def ins_ok_def deferred_def page_in_def)
    moreover have "n \<le> weight (free_root ?s)" using ins(2) by (simp add: ins_ok_def)
    ultimately show ?thesis using that(2) header(3) by simp
  qed
qed

lemma arena_bounds:
  assumes "km_wf s" "0 < n" "\<forall>x. own s x + inb p n x \<le> arena_cnt s x"
  shows "usrpt s \<le> p" "p + n \<le> usrpt s + 1216 * 8192" "0 < p" "p + n \<le> INT_MAX"
proof -
  have "inb p n p \<le> arena_cnt s p" "inb p n (p + n - 1) \<le> arena_cnt s (p + n - 1)"
    using assms(3) by (auto intro: order_trans [OF le_add2])
  then show "usrpt s \<le> p" "p + n \<le> usrpt s + 1216 * 8192"
    using assms(2) by (auto simp: arena_cnt_def inb_def split: if_splits)
  then show "0 < p" "p + n \<le> INT_MAX" using assms(1) by (auto simp: km_wf_def)
qed

lemma kmem_free_spec [consumes 3, case_names starved freed]:
  assumes wf: "km_wf s" and n: "0 < n" and free: "\<forall>x. own s x + inb p n x \<le> arena_cnt s x"
  obtains (starved) "starved (kmem_free s p n)" "free_hdr_list s = []"
  | (freed) s' where "kmem_free s p n = Ok s'" "km_wf s'" "\<And>x. own s' x = own s x + inb p n x"
      "n \<le> weight (free_root s')" "length (free_hdr_list s) \<le> Suc (length (free_hdr_list s'))"
proof -
  note b = arena_bounds [OF assms]
  have w: "uint32 (usrpt s + 9961472) = usrpt s + 9961472" using wf by (simp add: km_wf_def INT_MAX_def)
  have one: "\<forall>x. cnt (segs (free_root s)) x + inb p n x \<le> 1"
  proof
    fix x
    show "cnt (segs (free_root s)) x + inb p n x \<le> 1"
      using free [rule_format, of x] inb_le [of "usrpt s" "1216 * 8192" x]
      by (simp add: own_def arena_cnt_def)
  qed
  have "seg_hi 0 (segs (free_root s)) < INT_MAX + 1"
    using wf_segs_hi_max [OF km_wf_tree(1) [OF wf]] by (simp add: INT_MAX_def)
  then obtain t p' n' hs where fs: "free_search (free_root s) p n (free_hdr_list s) = Ok (t, p', n', hs)"
      "search_ok 0 (INT_MAX + 1) (free_root s) p n (free_hdr_list s) (t, p', n', hs)"
    using free_search_spec [OF km_wf_tree(1) [OF wf] _ _ km_wf_tree(2) [OF wf] _ b(3) _ n one, of "INT_MAX + 1" "free_hdr_list s"]
      b(4) by auto
  note ok = fs(2) [unfolded search_ok_def, simplified]
  let ?s = "s\<lparr>free_root := t, free_hdr_list := hs\<rparr>"
  have kf: "kmem_free s p n = insert_blk ?s p' n'"
    using n b fs(1) w by (simp add: kmem_free_def)
  have wfs: "km_wf ?s" using km_wf_update(1) [OF wf] ok by simp
  have own: "own ?s x + inb p' n' x = own s x + inb p n x" for x
    using ok by (simp add: own_def deferred_def page_in_def)
  have len: "length (free_hdr_list s) \<le> length hs"
    using ok by simp
  have side: "apart (segs (free_root ?s)) p' n'" "0 < p'" "0 < n'" "p' + n' \<le> INT_MAX" "n \<le> n'"
    using ok n by auto
  from wfs side(1-4) show ?thesis
  proof (cases rule: insert_blk_spec)
    case starved
    then show ?thesis using that(1) kf len by simp
  next
    case (placed s')
    then show ?thesis using that(2) [of s'] kf len own side(5) by simp
  qed
qed

lemma cnt_bounds: "wf_segs lo S \<Longrightarrow> cnt S x \<noteq> 0 \<Longrightarrow> lo < x \<and> x < seg_hi lo S"
proof (induction S arbitrary: lo)
  case (Cons b S)
  then show ?case
    using wf_segs_hi [of "m_addr b + m_size b" S] by (fastforce simp: inb_def split: if_splits)
qed simp

text \<open>Every block that overlaps a free block is detected, however many neighbours it absorbs first.\<close>

lemma free_search_overlap:
  assumes "wf_segs lo (segs t)" "seg_hi lo (segs t) < hi" "hi \<le> INT_MAX + 1" "heap t"
    "0 \<le> lo" "0 < p" "p + n < hi" "0 < n" "p \<le> x" "x < p + n" "cnt (segs t) x \<noteq> 0"
  shows "\<exists>m. free_search t p n hs = Panic m"
  using assms
proof (induction t p n hs arbitrary: lo hi rule: free_search.induct)
  case (2 l h b z r p n hs)
  note prems = 2(5-)
  let ?t = "Node l h b z r"
  have bz: "lo < b" "0 < z" "b + z < hi" "wf_segs lo (segs l)" "wf_segs (b + z) (segs r)"
      "seg_hi lo (segs l) < b"
    using prems(1,2) wf_segs_hi [of lo "segs l"] wf_segs_hi [of "b + z" "segs r"] by auto
  have small: "uint32 (p + n) = p + n" "uint32 (b + z) = b + z"
    using prems bz by (auto simp: INT_MAX_def)
  have lr: "x < b" if "cnt (segs l) x \<noteq> 0"
    using that cnt_bounds [OF bz(4)] bz(6) by fastforce
  have rr: "b + z < x" if "cnt (segs r) x \<noteq> 0"
    using that cnt_bounds [OF bz(5)] by fastforce
  have bb: "b \<le> x \<and> x < b + z" if "inb b z x \<noteq> 0"
    using that by (auto simp: inb_def split: if_splits)
  have x: "cnt (segs l) x \<noteq> 0 \<or> inb b z x \<noteq> 0 \<or> cnt (segs r) x \<noteq> 0" using prems(11) by simp
  obtain t where t: "delete_merge l r = Ok t" "segs t = segs l @ segs r" "wf_segs lo (segs t)"
      "seg_hi lo (segs t) < hi" "heap t"
    by (rule free_search_absorb [OF prems(1,2,4)])
  consider (right_nb) "p < b" "p + n = b" | (left) "p < b" "p + n < b"
    | (left_nb) "b < p" "b + z = p" | (right) "b < p" "b + z < p"
    | "p < b" "b < p + n" | "b < p" "p < b + z" | "p = b"
    by linarith
  then show ?case
  proof cases
    case right_nb
    have w: "uint32 (n + z) = n + z" using right_nb bz prems by (simp add: INT_MAX_def)
    have "cnt (segs t) x \<noteq> 0" using x bb right_nb prems(10) t(2) by auto
    then have "\<exists>m. free_search t p (n + z) (freehdr h hs) = Panic m"
      using 2(1) [OF right_nb(1) _ t(1), of lo hi] right_nb small t prems bz by (simp add: w)
    then show ?thesis using right_nb t(1) small by (simp add: w)
  next
    case left
    have "cnt (segs l) x \<noteq> 0" using x bb rr left prems(10) bz(2) by auto
    then have "\<exists>m. free_search l p n hs = Panic m"
      using 2(2) [of lo b] left small prems bz by simp
    then show ?thesis using left small by auto
  next
    case left_nb
    have w: "uint32 (n + z) = n + z" using left_nb bz prems by (simp add: INT_MAX_def)
    have "cnt (segs t) x \<noteq> 0" using x bb left_nb prems(9) t(2) by auto
    then have "\<exists>m. free_search t b (n + z) (freehdr h hs) = Panic m"
      using 2(3) [of t lo hi] left_nb small t prems bz by (simp add: w)
    then show ?thesis using left_nb t(1) small by (simp add: w)
  next
    case right
    have "cnt (segs r) x \<noteq> 0" using x bb lr right prems(9) bz(2) by auto
    then have "\<exists>m. free_search r p n hs = Panic m"
      using 2(4) [of "b + z" hi] right small prems bz by simp
    then show ?thesis using right small by auto
  qed (use small in auto)
qed simp

section \<open>Deferred blocks\<close>

lemma ntf_take_Some:
  "ntf_take es = Some (e, es') \<Longrightarrow> fst e \<noteq> 0 \<and> e \<in> set es
     \<and> (\<forall>d\<in>set es'. fst d \<noteq> 0 \<longrightarrow> d \<in> set es)
     \<and> dcnt (filter (\<lambda>e. fst e \<noteq> 0) es) x = inb (fst e) (snd e) x + dcnt (filter (\<lambda>e. fst e \<noteq> 0) es') x"
  by (induction es arbitrary: es') (force split: if_splits)+

lemma ntf_take_None: "ntf_take es = None \<Longrightarrow> filter (\<lambda>e. fst e \<noteq> 0) es = []"
  by (induction es) (auto split: if_splits)

lemma dcnt_append [simp]: "dcnt (es @ fs) x = dcnt es x + dcnt fs x"
  by (induction es) auto

lemma ntf_next_Some:
  assumes "ntf_next s = Some ((a, n), s1)" "km_wf s"
  shows "km_wf s1 \<and> 0 \<le> n \<and> own s x = own s1 x + inb a n x \<and> usrpt s1 = usrpt s"
proof (cases "need_to_free_list s")
  case (Cons e es)
  then have "s1 = s\<lparr>need_to_free_list := es\<rparr>" "e = (a, n)"
    using assms by (auto simp: ntf_next_def km_wf_def)
  then show ?thesis
    using assms(2) Cons by (auto simp: km_wf_def own_def deferred_def page_in_def)
next
  case Nil
  then obtain es where es: "ntf_take (need_to_free s) = Some ((a, n), es)" "s1 = s\<lparr>need_to_free := es\<rparr>"
    using assms(1) by (auto simp: ntf_next_def)
  then show ?thesis
    using assms(2) Nil ntf_take_Some [OF es(1), of x]
    by (auto simp: km_wf_def own_def deferred_def page_in_def)
qed

lemma ntf_next_None: "ntf_next s = None \<Longrightarrow> km_wf s \<Longrightarrow> deferred s = []"
  by (cases "need_to_free_list s")
     (auto simp: ntf_next_def km_wf_def deferred_def dest: ntf_take_None split: if_splits)

lemma check_need_to_free_spec:
  assumes "km_wf s" "\<forall>x. own s x \<le> arena_cnt s x"
  shows "starved (check_need_to_free s)
    \<or> (\<exists>s'. check_need_to_free s = Ok s' \<and> km_wf s' \<and> own s' = own s \<and> deferred s' = [] \<and> usrpt s' = usrpt s)"
  using assms
proof (induction s rule: check_need_to_free.induct)
  case (1 s)
  show ?case
  proof (cases "ntf_next s")
    case None
    then show ?thesis
      using 1(2) ntf_next_None by (subst (1 2) check_need_to_free.simps) auto
  next
    case (Some e)
    then obtain a n s1 where e: "ntf_next s = Some ((a, n), s1)" by (cases e) auto
    note s1 = ntf_next_Some [OF e 1(2)]
    have unf: "check_need_to_free s = obind (kmem_free s1 a n) check_need_to_free"
      by (subst check_need_to_free.simps) (simp add: e)
    have arena: "\<forall>x. own s1 x + inb a n x \<le> arena_cnt s1 x"
      using 1(3) s1 by (simp add: arena_cnt_def)
    have IH: "starved (check_need_to_free s2)
        \<or> (\<exists>s'. check_need_to_free s2 = Ok s' \<and> km_wf s' \<and> own s' = own s2 \<and> deferred s' = [] \<and> usrpt s' = usrpt s2)"
      if "kmem_free s1 a n = Ok s2" "km_wf s2" "\<forall>x. own s2 x \<le> arena_cnt s2 x" for s2
      using 1(1) [OF e refl refl that(1)] that(2,3) by blast
    show ?thesis
    proof (cases "n = 0")
      case True
      then have o: "own s1 = own s" and k: "kmem_free s1 a n = Ok s1"
        using ntf_next_Some [OF e 1(2)] by (auto simp: fun_eq_iff kmem_free_def)
      have "\<forall>x. own s1 x \<le> arena_cnt s1 x" using arena True by simp
      with IH [OF k] s1 have "starved (check_need_to_free s1) \<or> (\<exists>s'. check_need_to_free s1 = Ok s'
          \<and> km_wf s' \<and> own s' = own s \<and> deferred s' = [] \<and> usrpt s' = usrpt s)"
        unfolding o by metis
      then show ?thesis by (simp add: unf k)
    next
      case False
      then have n: "0 < n" using s1 by (metis order_le_less)
      have "km_wf s1" using s1 by blast
      from this n arena show ?thesis
      proof (cases rule: kmem_free_spec)
        case starved
        then show ?thesis by (simp add: unf)
      next
        case (freed s2)
        have "own s2 = own s" "usrpt s2 = usrpt s"
          using ntf_next_Some [OF e 1(2)] freed(3) kmem_free_frame [OF freed(1)] by (auto simp: fun_eq_iff)
        moreover from this have "\<forall>x. own s2 x \<le> arena_cnt s2 x" using 1(3) by (simp add: arena_cnt_def)
        ultimately show ?thesis using IH [OF freed(1,2)] by (simp add: unf freed(1))
      qed
    qed
  qed
qed

lemma morecore_spec:
  assumes wf: "km_wf s" and own: "\<forall>x. own s x \<le> arena_cnt s x" and n: "0 < n" "n \<le> INT_MAX"
  shows "starved (morecore s n)
    \<or> (\<exists>s'. morecore s n = Ok (True, s') \<and> km_wf s' \<and> own s' = own s
         \<and> (n + 8191) div 8192 * 8192 \<le> weight (free_root s') \<and> usrpt s' = usrpt s)"
proof -
  define k where "k = (n + 8191) div 8192"
  have k: "0 < k" "k * 8192 \<le> INT_MAX + 8192" using n by (auto simp: k_def INT_MAX_def)
  have w: "uint32 (n + 8191) = n + 8191" "uint32 (k * 8192) = k * 8192"
    using n k by (auto simp: INT_MAX_def)
  have unf: "morecore s n = obind (getpages s k) (\<lambda>(p, s1).
      if p = 0 then Ok (False, s1) else obind (kmem_free s1 p (k * 8192)) (\<lambda>s2. Ok (True, s2)))"
    using w by (simp add: morecore_def Let_def flip: k_def)
  from wf k(1) show ?thesis
  proof (cases rule: getpages_spec)
    case starved
    then show ?thesis by (simp add: unf)
  next
    case (pages p mp)
    let ?s = "s\<lparr>kmap := mp\<rparr>"
    have u: "morecore s n = obind (kmem_free ?s p (k * 8192)) (\<lambda>s2. Ok (True, s2))"
      using pages wf by (simp add: unf km_wf_def)
    have ar: "\<forall>x. own ?s x + inb p (k * 8192) x \<le> arena_cnt ?s x"
      using own pages(6) by (simp add: arena_cnt_def)
    have pos: "0 < k * 8192" using k(1) by simp
    from pages(2) pos ar show ?thesis
    proof (cases rule: kmem_free_spec)
      case starved
      then show ?thesis by (simp add: u)
    next
      case (freed s')
      then have "own s' = own s" "usrpt s' = usrpt s"
        using pages(6) kmem_free_frame [OF freed(1)] by (auto simp: fun_eq_iff)
      then show ?thesis using freed by (simp add: u k_def)
    qed
  qed
qed

section \<open>kmem\_alloc\<close>

lemma mweight_le: "pos_segs (segs t) \<Longrightarrow> mweight t \<le> weight t"
  using pos_mod_bound [of 4] by (cases t) (auto simp: ALIGNMORE_def intro: order_less_imp_le)

lemma alloc_path_fits:
  "0 < n \<Longrightarrow> n \<le> mweight t \<Longrightarrow>
   subtree t (alloc_path n t) \<noteq> NIL \<and> n \<le> mweight (subtree t (alloc_path n t))"
  by (induction t) (auto simp del: mweight.simps(2))

lemma ALIGNMORE_bounds: "misaligned b \<Longrightarrow> 0 < ALIGNMORE b \<and> ALIGNMORE b < 4" "4 dvd b + ALIGNMORE b"
proof -
  show "misaligned b \<Longrightarrow> 0 < ALIGNMORE b \<and> ALIGNMORE b < 4"
    using pos_mod_bound [of 4 b] pos_mod_sign [of 4 b] by (auto simp: misaligned_def ALIGNMORE_def)
  show "4 dvd b + ALIGNMORE b" unfolding ALIGNMORE_def by presburger
qed

definition alloc_ok :: "kmem_info \<Rightarrow> int \<Rightarrow> int \<Rightarrow> kmem_info \<Rightarrow> bool" where
  "alloc_ok s n a s' \<longleftrightarrow> km_wf s' \<and> (\<forall>x. own s x = own s' x + inb a n x) \<and> usrpt s' = usrpt s
     \<and> 0 < a \<and> (4 \<le> n \<longrightarrow> 4 dvd a)"

lemma node_context:
  assumes wf: "km_wf s" and sub: "subtree (free_root s) ds = Node l h b z r"
  obtains A B M where
    "segs (free_root s) = (A @ segs l) @ \<lparr>m_size = z, m_addr = b\<rparr> # (segs r @ B)"
    "\<And>u. segs (replace (free_root s) ds u) = A @ segs u @ B"
    "\<And>u. hdrs (replace (free_root s) ds u) = M + hdrs u"
    "hdrs (free_root s) = M + add_mset h (hdrs l + hdrs r)"
    "\<And>u. heap u \<Longrightarrow> weight u \<le> z \<Longrightarrow> heap (replace (free_root s) ds u)"
    "heap l" "heap r" "weight l \<le> z" "weight r \<le> z" "pos_segs (segs l @ segs r)"
    "0 < b" "0 < z" "b + z \<le> INT_MAX"
proof (rule replace_spec [of "free_root s" ds])
  show "subtree (free_root s) ds \<noteq> NIL" using sub by simp
next
  note tree = km_wf_tree [OF wf]
  fix A B M
  assume rp: "\<And>u. segs (replace (free_root s) ds u) = A @ segs u @ B"
    "\<And>u. hdrs (replace (free_root s) ds u) = M + hdrs u"
    "segs (free_root s) = A @ segs (subtree (free_root s) ds) @ B"
    "hdrs (free_root s) = M + hdrs (subtree (free_root s) ds)"
    "\<And>u. heap (free_root s) \<Longrightarrow> heap u \<Longrightarrow> weight u \<le> weight (subtree (free_root s) ds) \<Longrightarrow>
       heap (replace (free_root s) ds u) \<and> weight (replace (free_root s) ds u) \<le> weight (free_root s)"
    "heap (free_root s) \<Longrightarrow> heap (subtree (free_root s) ds)"
  have segs: "segs (free_root s) = (A @ segs l) @ \<lparr>m_size = z, m_addr = b\<rparr> # (segs r @ B)"
    using rp(3) sub by simp
  have hp: "heap (Node l h b z r)" using rp(6) tree(2) sub by simp
  have pos: "pos_segs (segs l @ segs r)" using wf_segs_pos [OF tree(1)] segs by auto
  have b: "0 < b" "0 < z" "b + z \<le> INT_MAX"
    using tree(1) wf_segs_hi [of 0 "A @ segs l"] unfolding segs by auto
  show ?thesis
    by (rule that [OF segs rp(1,2)]) (use rp(4,5) sub tree(2) hp pos b in auto)
qed

lemma alloc_exact:
  assumes wf: "km_wf s" and sub: "subtree (free_root s) ds = Node l h b z r"
    and n: "z = n" "n \<le> mweight (Node l h b z r)" "0 < n"
  shows "\<exists>t. delete_merge l r = Ok t \<and> alloc_ok s n b
           (s\<lparr>free_root := replace (free_root s) ds t, free_hdr_list := freehdr h (free_hdr_list s)\<rparr>)"
proof (rule node_context [OF wf sub])
  fix A B M
  assume segs: "segs (free_root s) = (A @ segs l) @ \<lparr>m_size = z, m_addr = b\<rparr> # (segs r @ B)"
    and rp: "\<And>u. segs (replace (free_root s) ds u) = A @ segs u @ B"
      "\<And>u. hdrs (replace (free_root s) ds u) = M + hdrs u"
      "hdrs (free_root s) = M + add_mset h (hdrs l + hdrs r)"
      "\<And>u. heap u \<Longrightarrow> weight u \<le> z \<Longrightarrow> heap (replace (free_root s) ds u)"
    and lr: "heap l" "heap r" "weight l \<le> z" "weight r \<le> z" "pos_segs (segs l @ segs r)" and b: "0 < b"
  obtain t where t: "delete_merge l r = Ok t" "segs t = segs l @ segs r" "hdrs t = hdrs l + hdrs r"
      "heap t" "weight t = max (weight l) (weight r)"
    using delete_merge_spec [OF lr(1,2,5)] by auto
  let ?s = "s\<lparr>free_root := replace (free_root s) ds t, free_hdr_list := freehdr h (free_hdr_list s)\<rparr>"
  have "wf_segs 0 (A @ segs l @ segs r @ B)"
    using wf_segs_drop [of 0 "A @ segs l" "\<lparr>m_size = z, m_addr = b\<rparr>" "segs r @ B"] km_wf_tree(1) [OF wf]
    unfolding segs by simp
  then have "km_wf ?s"
    using rp(1,4) t lr by (intro km_wf_update(1) [OF wf]) auto
  moreover have "own s x = own ?s x + inb b n x" for x
    using segs rp(1-3) t n(1) by (simp add: own_def deferred_def page_in_def freehdr_def)
  moreover have "4 \<le> n \<longrightarrow> 4 dvd b"
    using n ALIGNMORE_bounds(1) [of b]
    by (cases "misaligned b") (auto simp: misaligned_def dvd_eq_mod_eq_0 split: if_splits)
  ultimately show ?thesis using t(1) b by (auto simp: alloc_ok_def)
qed

text \<open>Replacing a node by a smaller one: what is left of its block, as a new node with header \<open>x\<close>.\<close>

lemma shrink_node:
  assumes wf: "km_wf s" and sub: "subtree (free_root s) ds = Node l h b z r"
    and c: "b \<le> c" "0 < w" "c + w \<le> b + z"
  obtains t where "demote x c w l r = Ok t" "km_wf (s\<lparr>free_root := replace (free_root s) ds t\<rparr>)"
    "\<And>y. own s y + inb x HDRSIZE y + inb c w y
       = own (s\<lparr>free_root := replace (free_root s) ds t\<rparr>) y + inb h HDRSIZE y + inb b z y"
proof (rule node_context [OF wf sub])
  fix A B M
  assume segs: "segs (free_root s) = (A @ segs l) @ \<lparr>m_size = z, m_addr = b\<rparr> # (segs r @ B)"
    and rp: "\<And>u. segs (replace (free_root s) ds u) = A @ segs u @ B"
      "\<And>u. hdrs (replace (free_root s) ds u) = M + hdrs u"
      "hdrs (free_root s) = M + add_mset h (hdrs l + hdrs r)"
      "\<And>u. heap u \<Longrightarrow> weight u \<le> z \<Longrightarrow> heap (replace (free_root s) ds u)"
    and lr: "heap l" "heap r" "weight l \<le> z" "weight r \<le> z" and b: "0 < b" "b + z \<le> INT_MAX"
  have "0 \<le> w" using c by simp
  then obtain t where t: "demote x c w l r = Ok t" "segs t = segs l @ \<lparr>m_size = w, m_addr = c\<rparr> # segs r"
      "hdrs t = add_mset x (hdrs l + hdrs r)" "heap t" "weight t = max w (max (weight l) (weight r))"
    using demote_spec [OF lr(1,2)] by blast
  have all: "wf_segs 0 ((A @ segs l) @ \<lparr>m_size = z, m_addr = b\<rparr> # (segs r @ B))"
    using km_wf_tree(1) [OF wf] unfolding segs .
  then have "wf_segs (c + w) (segs r @ B)"
    using wf_segs_mono [of "b + z" "segs r @ B" "c + w"] c by simp
  then have "wf_segs 0 ((A @ segs l) @ \<lparr>m_size = w, m_addr = c\<rparr> # (segs r @ B))"
    using all c b by simp
  then have "km_wf (s\<lparr>free_root := replace (free_root s) ds t\<rparr>)"
    using rp(1,4) t lr c by (intro km_wf_update(2) [OF wf]) auto
  moreover have "own s y + inb x HDRSIZE y + inb c w y
       = own (s\<lparr>free_root := replace (free_root s) ds t\<rparr>) y + inb h HDRSIZE y + inb b z y" for y
    using segs rp(1-3) t by (simp add: own_def deferred_def page_in_def)
  ultimately show ?thesis using t(1) that by blast
qed

lemma own_push: "own (s\<lparr>free_hdr_list := freehdr h (free_hdr_list s)\<rparr>) x = own s x + inb h HDRSIZE x"
  by (simp add: own_def deferred_def page_in_def freehdr_def)

lemma alloc_low:
  assumes wf: "km_wf s1" and sub: "subtree (free_root s1) ds = Node l h b z r"
    and n: "0 < n" "n < z" "n \<le> mweight (Node l h b z r)" "\<not> (misaligned b \<and> z > ALIGNMORE b)"
    and own: "\<And>y. own s y = own s1 y + inb x HDRSIZE y" and u: "usrpt s1 = usrpt s"
  shows "\<exists>t. demote x (nextblk b n) (uint32 (z - n)) l r = Ok t \<and> alloc_ok s n b
           (s1\<lparr>free_root := replace (free_root s1) ds t, free_hdr_list := freehdr h (free_hdr_list s1)\<rparr>)"
proof (rule shrink_node [OF wf sub, of "b + n" "z - n" x])
  fix t
  assume t: "demote x (b + n) (z - n) l r = Ok t" "km_wf (s1\<lparr>free_root := replace (free_root s1) ds t\<rparr>)"
    "\<And>y. own s1 y + inb x HDRSIZE y + inb (b + n) (z - n) y
       = own (s1\<lparr>free_root := replace (free_root s1) ds t\<rparr>) y + inb h HDRSIZE y + inb b z y"
  let ?s = "s1\<lparr>free_root := replace (free_root s1) ds t, free_hdr_list := freehdr h (free_hdr_list s1)\<rparr>"
  obtain b: "0 < b" "b + z \<le> INT_MAX" by (rule node_context [OF wf sub])
  have "nextblk b n = b + n" "uint32 (z - n) = z - n"
    using b n by (auto simp: nextblk_def INT_MAX_def)
  moreover have "own s y = own ?s y + inb b n y" for y
    using t(3) [of y] own [of y] inb_split [of n "z - n" b y] n
      own_push [where s = "s1\<lparr>free_root := replace (free_root s1) ds t\<rparr>" and h = h and x = y] by simp
  moreover have "4 \<le> n \<longrightarrow> 4 dvd b"
    using n ALIGNMORE_bounds(1) [of b] by (cases "misaligned b") (auto simp: misaligned_def dvd_eq_mod_eq_0)
  moreover have "km_wf ?s" using km_wf_update(3) [OF t(2)] by simp
  ultimately show ?thesis using t(1) b u by (auto simp: alloc_ok_def)
qed (use n in auto)

lemma alloc_high:
  assumes wf: "km_wf s1" and ar: "\<forall>x. own s x \<le> arena_cnt s x"
    and sub: "subtree (free_root s1) ds = Node l h b z r"
    and n: "0 < n" "n \<le> z - ALIGNMORE b" "misaligned b"
    and own: "\<And>y. own s y = own s1 y + inb x HDRSIZE y" and u: "usrpt s1 = usrpt s"
  shows "\<exists>t. demote x b (ALIGNMORE b) l r = Ok t \<and> uint32 (n + ALIGNMORE b) = n + ALIGNMORE b
     \<and> (let s2 = s1\<lparr>free_root := replace (free_root s1) ds t\<rparr>; nb = n + ALIGNMORE b;
            m = (if z > nb then kmem_free s2 (nextblk b nb) (z - nb) else Ok s2)
        in starved m \<and> free_hdr_list s1 = []
           \<or> (\<exists>s3. m = Ok s3 \<and> alloc_ok s n (uint32 (b + ALIGNMORE b))
                 (s3\<lparr>free_hdr_list := freehdr h (free_hdr_list s3)\<rparr>)))"
proof (rule shrink_node [OF wf sub, of b "ALIGNMORE b" x])
  note more = ALIGNMORE_bounds(1) [OF n(3)] ALIGNMORE_bounds(2) [of b]
  fix t
  assume t: "demote x b (ALIGNMORE b) l r = Ok t" "km_wf (s1\<lparr>free_root := replace (free_root s1) ds t\<rparr>)"
    "\<And>y. own s1 y + inb x HDRSIZE y + inb b (ALIGNMORE b) y
       = own (s1\<lparr>free_root := replace (free_root s1) ds t\<rparr>) y + inb h HDRSIZE y + inb b z y"
  obtain b: "0 < b" "b + z \<le> INT_MAX" by (rule node_context [OF wf sub])
  define a where "a = b + ALIGNMORE b"
  define s2 where "s2 = s1\<lparr>free_root := replace (free_root s1) ds t\<rparr>"
  have w: "uint32 (n + ALIGNMORE b) = n + ALIGNMORE b" "nextblk b (n + ALIGNMORE b) = a + n" "uint32 (b + ALIGNMORE b) = a"
    using b n more by (auto simp: nextblk_def INT_MAX_def a_def)
  have part: "inb b z y = inb b (ALIGNMORE b) y + (inb a n y + inb (a + n) (z - (n + ALIGNMORE b)) y)" for y
    using inb_split [of "ALIGNMORE b" "z - ALIGNMORE b" b y] inb_split [of n "z - ALIGNMORE b - n" a y] n more
    by (simp add: a_def algebra_simps)
  have own2: "own s y = own s2 y + inb h HDRSIZE y + inb a n y + inb (a + n) (z - (n + ALIGNMORE b)) y" for y
    using t(3) [of y] own [of y] part [of y] by (simp add: s2_def)
  have wf2: "km_wf s2" "usrpt s2 = usrpt s" using t(2) u by (simp_all add: s2_def)
  have fin: "alloc_ok s n a (s3\<lparr>free_hdr_list := freehdr h (free_hdr_list s3)\<rparr>)"
    if "km_wf s3" "usrpt s3 = usrpt s" "\<And>y. own s y = own s3 y + inb h HDRSIZE y + inb a n y" for s3
    using that b more km_wf_update(3) by (auto simp: alloc_ok_def own_push a_def)
  show ?thesis
  proof (cases "z > n + ALIGNMORE b")
    case True
    have "\<forall>y. own s2 y + inb (a + n) (z - (n + ALIGNMORE b)) y \<le> arena_cnt s2 y"
    proof
      fix y
      show "own s2 y + inb (a + n) (z - (n + ALIGNMORE b)) y \<le> arena_cnt s2 y"
        using ar [rule_format, of y] own2 [of y] wf2(2) by (simp add: arena_cnt_def)
    qed
    moreover have "0 < z - (n + ALIGNMORE b)" using True by simp
    ultimately have "starved (kmem_free s2 (a + n) (z - (n + ALIGNMORE b))) \<and> free_hdr_list s1 = []
      \<or> (\<exists>s3. kmem_free s2 (a + n) (z - (n + ALIGNMORE b)) = Ok s3
           \<and> alloc_ok s n a (s3\<lparr>free_hdr_list := freehdr h (free_hdr_list s3)\<rparr>))"
    proof (cases rule: kmem_free_spec [OF wf2(1)])
      assume "starved (kmem_free s2 (a + n) (z - (n + ALIGNMORE b)))" "free_hdr_list s2 = []"
      then show ?thesis by (simp add: s2_def)
    next
      fix s3
      assume k: "kmem_free s2 (a + n) (z - (n + ALIGNMORE b)) = Ok s3" "km_wf s3"
        "\<And>x. own s3 x = own s2 x + inb (a + n) (z - (n + ALIGNMORE b)) x"
      have "alloc_ok s n a (s3\<lparr>free_hdr_list := freehdr h (free_hdr_list s3)\<rparr>)"
        using k own2 kmem_free_frame [OF k(1)] wf2(2) by (intro fin) simp_all
      then show ?thesis using k(1) by blast
    qed
    then show ?thesis using t(1) True by (simp add: w s2_def [symmetric] Let_def)
  next
    case False
    then have "alloc_ok s n a (s2\<lparr>free_hdr_list := freehdr h (free_hdr_list s2)\<rparr>)"
      using wf2 own2 by (intro fin) simp_all
    moreover have "free_hdr_list s2 = free_hdr_list s1" by (simp add: s2_def)
    ultimately show ?thesis using t(1) False by (simp add: w s2_def [symmetric] Let_def)
  qed
qed (use n ALIGNMORE_bounds(1) [OF n(3)] in auto)

lemma mweight_bound: "n \<le> mweight (Node l h b z r) \<Longrightarrow> 0 \<le> z \<Longrightarrow> n \<le> z"
  using ALIGNMORE_bounds(1) [of b] by (auto split: if_splits)

lemma alloc_node_spec:
  assumes wf: "km_wf s" and ar: "\<forall>x. own s x \<le> arena_cnt s x" and n: "0 < n"
    and fit: "n \<le> mweight (subtree (free_root s) (alloc_path n (free_root s)))"
  shows "starved (alloc_node s n) \<and> length (free_hdr_list s) < 2
           \<or> (\<exists>a s'. alloc_node s n = Ok (a, s') \<and> alloc_ok s n a s')"
proof -
  define ds where "ds = alloc_path n (free_root s)"
  obtain l h b z r where sub: "subtree (free_root s) ds = Node l h b z r"
    using fit n by (cases "subtree (free_root s) ds") (auto simp: ds_def)
  note fit' = fit [folded ds_def, unfolded sub]
  obtain z: "0 < z" "b + z \<le> INT_MAX" "0 < b" by (rule node_context [OF wf sub])
  have le: "n \<le> z" using mweight_bound [OF fit'] z by simp
  have u: "uint32 (z - n) = z - n" using le z n by (simp add: INT_MAX_def)
  show ?thesis
  proof (cases "z = n")
    case True
    from alloc_exact [OF wf sub this fit' n] show ?thesis
      using True by (auto simp: alloc_node_def Let_def ds_def [symmetric] sub u SMALLEST_BLK_def)
  next
    case False
    then have split: "alloc_node s n = obind (getfreehdr s) (\<lambda>(x, s1).
        if misaligned b \<and> z > ALIGNMORE b then
          (let nb = uint32 (n + ALIGNMORE b)
           in obind (demote x b (ALIGNMORE b) l r) (\<lambda>t.
              let s2 = s1\<lparr>free_root := replace (free_root s1) ds t\<rparr>
              in obind (if z > nb then kmem_free s2 (nextblk b nb) (z - nb) else Ok s2)
                   (\<lambda>s3. Ok (uint32 (b + ALIGNMORE b), s3\<lparr>free_hdr_list := freehdr h (free_hdr_list s3)\<rparr>))))
        else
          obind (demote x (nextblk b n) (uint32 (z - n)) l r) (\<lambda>t.
            Ok (b, s1\<lparr>free_root := replace (free_root s1) ds t,
                      free_hdr_list := freehdr h (free_hdr_list s1)\<rparr>)))"
      using le by (simp add: alloc_node_def Let_def ds_def [symmetric] sub u SMALLEST_BLK_def)
    from wf show ?thesis
    proof (cases rule: getfreehdr_spec)
      case starved
      then show ?thesis by (simp add: split)
    next
      case (header x mp hs)
      let ?s = "s\<lparr>kmap := mp, free_hdr_list := hs\<rparr>"
      have sub1: "subtree (free_root ?s) ds = Node l h b z r" "usrpt ?s = usrpt s" using sub by simp_all
      show ?thesis
      proof (cases "misaligned b \<and> z > ALIGNMORE b")
        case True
        then have "n \<le> z - ALIGNMORE b" "misaligned b" using fit' by auto
        from alloc_high [OF header(2) ar sub1(1) n this header(4) sub1(2)] obtain t where
          t: "demote x b (ALIGNMORE b) l r = Ok t" "uint32 (n + ALIGNMORE b) = n + ALIGNMORE b"
          and m: "let s2 = ?s\<lparr>free_root := replace (free_root ?s) ds t\<rparr>; nb = n + ALIGNMORE b;
                m = (if z > nb then kmem_free s2 (nextblk b nb) (z - nb) else Ok s2)
             in starved m \<and> free_hdr_list ?s = []
                \<or> (\<exists>s3. m = Ok s3 \<and> alloc_ok s n (uint32 (b + ALIGNMORE b))
                      (s3\<lparr>free_hdr_list := freehdr h (free_hdr_list s3)\<rparr>))"
          by blast
        from m header(3) show ?thesis
          unfolding split header(1) using True t by (auto simp: Let_def)
      next
        case False
        then have "n < z" using le \<open>z \<noteq> n\<close> by simp
        from alloc_low [OF header(2) sub1(1) n this fit' False header(4) sub1(2)]
        show ?thesis unfolding split header(1) using False by auto
      qed
    qed
  qed
qed

text \<open>
  Requests within three bytes below a multiple of the page size are the ones for which the
  search after \<open>morecore\<close> can stop at a misaligned block that is too short.
\<close>

definition page_safe :: "int \<Rightarrow> bool" where
  "page_safe n \<longleftrightarrow> 0 < n \<and> n \<le> INT_MAX \<and> 1 \<le> n mod 8192 \<and> n mod 8192 \<le> 8189"

lemma page_safe_round: "page_safe n \<Longrightarrow> n + 3 \<le> (n + 8191) div 8192 * 8192"
proof -
  define q m where "q = n div 8192" and "m = n mod 8192"
  assume "page_safe n"
  then have m: "1 \<le> m" "m \<le> 8189" by (auto simp: page_safe_def m_def)
  have n: "n = q * 8192 + m" by (simp add: q_def m_def)
  have "n + 8191 = (m - 1) + (q + 1) * 8192" by (simp add: n)
  then have "(n + 8191) div 8192 = (m - 1) div 8192 + (q + 1)" by (simp only: div_mult_self1)
  also have "(m - 1) div 8192 = 0" using m by (simp add: div_pos_pos_trivial)
  finally show ?thesis using m by (simp add: n)
qed

lemma mweight_ge: "0 \<le> weight t \<Longrightarrow> weight t - 3 \<le> mweight t"
  using ALIGNMORE_bounds(1) by (cases t) (auto split: if_splits, fastforce)

lemma kmem_alloc_spec:
  assumes inv: "km_inv s" and n: "page_safe n"
  shows "starved (kmem_alloc s n) \<or> (\<exists>a s'. kmem_alloc s n = Ok (a, s') \<and> alloc_ok s n a s')"
proof -
  have wf: "km_wf s" and ar: "\<forall>x. own s x \<le> arena_cnt s x" using inv by (auto simp: km_inv_def)
  have pos: "0 < n" "n \<le> INT_MAX" using n by (auto simp: page_safe_def)
  have final: "starved (alloc_node s2 n) \<or> (\<exists>a s'. alloc_node s2 n = Ok (a, s') \<and> alloc_ok s n a s')"
    if s2: "km_wf s2" "own s2 = own s" "usrpt s2 = usrpt s" "n \<le> mweight (free_root s2)" for s2
  proof -
    have "\<forall>x. own s2 x \<le> arena_cnt s2 x" using ar s2 by (simp add: arena_cnt_def)
    then show ?thesis
      using alloc_node_spec [OF s2(1) _ pos(1)] alloc_path_fits [OF pos(1) s2(4)] s2(2,3)
      by (auto simp: alloc_ok_def)
  qed
  have unf: "kmem_alloc s n = obind (check_need_to_free s) (\<lambda>s1.
           obind (if mweight (free_root s1) \<le> n then morecore s1 n else Ok (True, s1))
             (\<lambda>(ok, s2). if ok then alloc_node s2 n else Panic ''kmem_alloc''))"
    using pos by (simp add: kmem_alloc_def SMALLEST_BLK_def)
  from check_need_to_free_spec [OF wf ar] show ?thesis
  proof
    assume "\<exists>s'. check_need_to_free s = Ok s' \<and> km_wf s' \<and> own s' = own s \<and> deferred s' = [] \<and> usrpt s' = usrpt s"
    then obtain s1 where s1: "check_need_to_free s = Ok s1" "km_wf s1" "own s1 = own s" "usrpt s1 = usrpt s"
      by blast
    have ar1: "\<forall>x. own s1 x \<le> arena_cnt s1 x" using ar s1 by (simp add: arena_cnt_def)
    show ?thesis
    proof (cases "mweight (free_root s1) \<le> n")
      case True
      from morecore_spec [OF s1(2) ar1 pos] show ?thesis
      proof
        assume "\<exists>s'. morecore s1 n = Ok (True, s') \<and> km_wf s' \<and> own s' = own s1
          \<and> (n + 8191) div 8192 * 8192 \<le> weight (free_root s') \<and> usrpt s' = usrpt s1"
        then obtain s2 where s2: "morecore s1 n = Ok (True, s2)" "km_wf s2" "own s2 = own s" "usrpt s2 = usrpt s"
            "n + 3 \<le> weight (free_root s2)"
          using page_safe_round [OF n] s1(3,4) by fastforce
        then have "n \<le> mweight (free_root s2)" using mweight_ge [of "free_root s2"] pos(1) by simp
        from final [OF s2(2-4) this] show ?thesis using True by (simp add: unf s1(1) s2(1))
      qed (simp add: unf s1(1) True)
    next
      case False
      from final [OF s1(2-4)] False show ?thesis by (simp add: unf s1(1))
    qed
  qed (simp add: unf)
qed

section \<open>The kernel heap as a space allocator\<close>

definition owned :: "kmem_info \<Rightarrow> int set" where
  "owned s = {x. own s x \<noteq> 0}"

definition arena :: "int \<Rightarrow> int set" where
  "arena v = blk v (USRPTSIZE * NBPG)"

lemma inb_blk: "inb a n x \<noteq> 0 \<longleftrightarrow> x \<in> blk a n"
  by (simp add: inb_def)

lemma km_inv_one: "km_inv s \<Longrightarrow> own s x \<le> 1"
  unfolding km_inv_def arena_cnt_def by (meson inb_le order_trans)

lemma km_inv_arena: "km_inv s \<Longrightarrow> owned s \<subseteq> arena (usrpt s)"
proof
  fix x assume "km_inv s" "x \<in> owned s"
  then have "arena_cnt s x \<noteq> 0" by (metis km_inv_def owned_def mem_Collect_eq le_zero_eq)
  then show "x \<in> arena (usrpt s)" by (simp add: arena_cnt_def arena_def inb_def split: if_splits)
qed

lemma alloc_ok_owned:
  assumes "km_inv s" "alloc_ok s n a s'"
  shows "km_inv s' \<and> blk a n \<subseteq> owned s \<and> owned s' = owned s - blk a n"
proof -
  have o: "own s x = own s' x + inb a n x" for x using assms(2) by (simp add: alloc_ok_def)
  have one: "own s' x + inb a n x \<le> 1" for x using km_inv_one [OF assms(1), of x] o by simp
  have "own s' x \<le> arena_cnt s' x" for x
    using assms o [of x] by (auto simp: km_inv_def alloc_ok_def arena_cnt_def dest!: spec [of _ x])
  then have "km_inv s'" using assms(2) by (simp add: km_inv_def alloc_ok_def)
  moreover have "blk a n \<subseteq> owned s"
    using o inb_blk [of a n] by (auto simp: owned_def simp del: mem_blk)
  moreover have "x \<in> owned s' \<longleftrightarrow> x \<in> owned s - blk a n" for x
    using o [of x] one [of x] inb_blk [of a n x] by (auto simp: owned_def simp del: mem_blk)
  ultimately show ?thesis by blast
qed

lemma free_room:
  assumes "km_inv s" "blk p n \<subseteq> arena (usrpt s)" "blk p n \<inter> owned s = {}"
  shows "\<forall>x. own s x + inb p n x \<le> arena_cnt s x"
proof
  fix x
  show "own s x + inb p n x \<le> arena_cnt s x"
  proof (cases "x \<in> blk p n")
    case True
    then have "own s x = 0" "arena_cnt s x = 1"
      using assms by (auto simp: owned_def arena_def arena_cnt_def inb_def)
    then show ?thesis using inb_le by simp
  next
    case False
    then have "inb p n x = 0" using inb_blk by blast
    then show ?thesis using assms(1) by (simp add: km_inv_def)
  qed
qed

lemma free_owned:
  assumes "\<forall>x. own s x + inb p n x \<le> arena_cnt s x" "km_wf s'" "\<And>x. own s' x = own s x + inb p n x"
    "usrpt s' = usrpt s"
  shows "km_inv s' \<and> owned s' = owned s \<union> blk p n"
  using assms inb_blk [of p n] by (auto simp: km_inv_def owned_def arena_cnt_def simp del: mem_blk)

interpretation kms: space_allocator "\<lambda>s. km_inv s \<and> usrpt s = v" owned "arena v" kmem_alloc kmem_free page_safe
  for v :: int
proof
  fix s assume "km_inv s \<and> usrpt s = v"
  then show "owned s \<subseteq> arena v" using km_inv_arena by blast
next
  fix s n a s' assume s: "km_inv s \<and> usrpt s = v" "page_safe n" "kmem_alloc s n = Ok (a, s')"
  then show "km_inv s' \<and> usrpt s' = v"
    using kmem_alloc_spec [of s n] alloc_ok_owned [of s n a s'] by (auto simp: alloc_ok_def)
next
  fix s n a s' assume s: "km_inv s \<and> usrpt s = v" "page_safe n" "kmem_alloc s n = Ok (a, s')" "a \<noteq> 0"
  then show "0 < n \<and> blk a n \<subseteq> owned s \<and> owned s' \<subseteq> owned s - blk a n"
    using kmem_alloc_spec [of s n] alloc_ok_owned [of s n a s'] by (auto simp: page_safe_def simp del: mem_blk)
next
  fix s n s' assume s: "km_inv s \<and> usrpt s = v" "page_safe n" "kmem_alloc s n = Ok (0, s')"
  then show "owned s' \<subseteq> owned s"
    using kmem_alloc_spec [of s n] by (auto simp: alloc_ok_def)
next
  fix s n a s' assume s: "km_inv s \<and> usrpt s = v" "0 < n" "blk a n \<subseteq> arena v" "blk a n \<inter> owned s = {}"
    "kmem_free s a n = Ok s'"
  then have room: "\<forall>x. own s x + inb a n x \<le> arena_cnt s x" and wf: "km_wf s"
    using free_room [of s a n] by (auto simp: km_inv_def)
  from wf s(2) room show "(km_inv s' \<and> usrpt s' = v) \<and> owned s' \<subseteq> owned s \<union> blk a n"
  proof (cases rule: kmem_free_spec)
    case starved
    then show ?thesis using s(5) by simp
  next
    case (freed s1)
    then show ?thesis
      using free_owned [OF room freed(2,3)] kmem_free_frame [OF freed(1)] s by simp
  qed
qed

lemma ntf_store_Some:
  "ntf_store es p n = Some es' \<Longrightarrow> p \<noteq> 0 \<Longrightarrow>
   dcnt (filter (\<lambda>e. fst e \<noteq> 0) es') x = dcnt (filter (\<lambda>e. fst e \<noteq> 0) es) x + inb p n x
   \<and> set es' \<subseteq> insert (p, n) (set es)"
  by (induction es arbitrary: es') (auto split: if_splits)

lemma kmem_free_intr_spec:
  assumes "km_wf s" "0 < p" "p + n \<le> INT_MAX" "0 \<le> n"
  shows "kmem_free_intr s p n = Panic ''kmem_free_intr''
    \<or> (\<exists>s'. kmem_free_intr s p n = Ok s' \<and> km_wf s' \<and> (\<forall>x. own s' x = own s x + inb p n x)
         \<and> free_root s' = free_root s \<and> usrpt s' = usrpt s)"
  using assms
proof (induction s p n rule: kmem_free_intr.induct)
  case (1 s p n)
  note unf = kmem_free_intr.simps [of s p n]
  consider (small) "n < NTFSIZE" | (cell) "n \<ge> NTFSIZE" "\<not> misaligned p" | (odd) "n \<ge> NTFSIZE" "misaligned p"
    by linarith
  then show ?case
  proof cases
    case small
    show ?thesis
    proof (cases "ntf_store (need_to_free s) p n")
      case None
      then show ?thesis using small unf by simp
    next
      case (Some es)
      let ?s = "s\<lparr>need_to_free := es\<rparr>"
      have d: "dcnt (deferred ?s) x = dcnt (deferred s) x + inb p n x" "set es \<subseteq> insert (p, n) (set (need_to_free s))" for x
        using ntf_store_Some [OF Some, of x] 1(4) by (auto simp: deferred_def)
      have "km_wf ?s" using 1(3,6) d(2) by (auto simp: km_wf_def deferred_def)
      then show ?thesis using small unf Some d(1) by (simp add: own_def page_in_def)
    qed
  next
    case cell
    let ?s = "s\<lparr>need_to_free_list := (p, n) # need_to_free_list s\<rparr>"
    have "km_wf ?s" using 1(3,4,6) by (auto simp: km_wf_def deferred_def)
    then show ?thesis using cell unf by (simp add: own_def page_in_def deferred_def)
  next
    case odd
    let ?m = "ALIGNMORE p"
    have m: "0 < ?m" "?m < 4" "8 \<le> n" using ALIGNMORE_bounds(1) [OF odd(2)] odd(1) by (auto simp: NTFSIZE_def)
    have w: "uint32 (p + ?m) = p + ?m" using 1(4,5) m by (simp add: INT_MAX_def)
    have "kmem_free_intr s p ?m = Panic ''kmem_free_intr''
      \<or> (\<exists>s'. kmem_free_intr s p ?m = Ok s' \<and> km_wf s' \<and> (\<forall>x. own s' x = own s x + inb p ?m x)
         \<and> free_root s' = free_root s \<and> usrpt s' = usrpt s)"
      using 1(1) [OF odd 1(3,4)] 1(5) m by simp
    then show ?thesis
    proof
      assume "\<exists>s'. kmem_free_intr s p ?m = Ok s' \<and> km_wf s' \<and> (\<forall>x. own s' x = own s x + inb p ?m x)
         \<and> free_root s' = free_root s \<and> usrpt s' = usrpt s"
      then obtain s1 where s1: "kmem_free_intr s p ?m = Ok s1" "km_wf s1" "\<forall>x. own s1 x = own s x + inb p ?m x"
          "free_root s1 = free_root s" "usrpt s1 = usrpt s" by blast
      have "inb p n x = inb p ?m x + inb (p + ?m) (n - ?m) x" for x
        using inb_split [of ?m "n - ?m" p x] m by simp
      then show ?thesis
        using 1(2) [OF odd s1(1)] s1 m 1(4,5) odd by (simp add: unf w add.assoc)
    qed (simp add: unf odd)
  qed
qed

section \<open>Properties\<close>


text \<open>
  A heap at address \<open>0x100000\<close> with pages 1000 to 1099 of the arena still in \<open>kernelmap\<close>, two
  free blocks of 8194 bytes at odd addresses, the headers in page 900, and one page deferred.
\<close>

definition odd_heap :: kmem_info where
  "odd_heap =
     \<lparr>free_root = Node NIL (1048576 + 7372800) (1048576 + 819201) 8194
                    (Node NIL (1048576 + 7372816) (1048576 + 1638401) 8194 NIL),
      free_hdr_list = map (\<lambda>i. 1048576 + 7372832 + 16 * i) [0, 1, 2, 3, 4],
      kmap = \<lparr>m_free = 3, m_want = 0,
              m_ent = \<lparr>m_size = 100, m_addr = 1000\<rparr> # replicate 4 \<lparr>m_size = 0, m_addr = 0\<rparr>,
              m_nam = ''usrpt'', is_swapmap = False, m_lost = [], m_wakeups = 0\<rparr>,
      vaddr = 1048576, need_to_free_list = [(1048576 + 8192, 4096)],
      need_to_free = (1048576 + 65536, 6) # replicate 9 (0, 0), usrpt = 1048576, intsvc = False,
      swapconf = \<lparr>dmmax = 16, nswdev = 1\<rparr>\<rparr>"

lemma odd_heap_own:
  "own odd_heap x = inb 1867777 8194 x + inb 2686977 8194 x
     + inb (1048576 + 8192000) 819200 x
     + (inb 8421408 16 x + inb 8421424 16 x + inb 8421440 16 x + inb 8421456 16 x + inb 8421472 16 x
        + inb 8421376 16 x + inb 8421392 16 x) + inb 1056768 4096 x + inb 1114112 6 x"
proof -
  have "page_in odd_heap x = inb (1048576 + 8192000) 819200 x"
    using page_inb [of x 1048576 1000 100]
    by (simp add: page_in_def odd_heap_def rm_space_def rm_segs_def)
  then show ?thesis
    by (simp add: own_def odd_heap_def deferred_def)
qed

lemma odd_heap_inv: "km_inv odd_heap"
proof -
  have "km_wf odd_heap"
    unfolding km_wf_def
    by (intro conjI) (simp_all add: odd_heap_def rm_inv_def rm_segs_def rm_space_def swap_ok_def deferred_def INT_MAX_def, auto simp: blk_def)
  moreover have "own odd_heap x \<le> arena_cnt odd_heap x" for x
    unfolding odd_heap_own arena_cnt_def by (simp add: odd_heap_def inb_def)
  ultimately show ?thesis by (simp add: km_inv_def)
qed

lemma starved_not_Ok: "is_Ok m \<Longrightarrow> \<not> starved m"
  by (cases m) auto



definition calm_heap :: kmem_info where
  "calm_heap = odd_heap\<lparr>need_to_free_list := [], need_to_free := replicate 10 (0, 0)\<rparr>"

lemma calm_heap_inv: "km_inv calm_heap"
proof -
  have "own calm_heap x \<le> own odd_heap x" for x
    by (simp add: own_def calm_heap_def odd_heap_def deferred_def page_in_def)
  then have "own calm_heap x \<le> arena_cnt calm_heap x" for x
    using odd_heap_inv order_trans by (fastforce simp: km_inv_def arena_cnt_def calm_heap_def)
  then show ?thesis
    using odd_heap_inv by (simp add: km_inv_def km_wf_def calm_heap_def deferred_def)
qed


text \<open>
  C4: Freeing a block of the arena that the heap does not own succeeds, unless a page is needed
  for headers and none is left; afterwards the heap owns exactly that block more, its
  invariant holds, and some free block is at least as long as the one freed.
\<close>

theorem kmem_free_correct:
  assumes "km_inv s" "0 < n" "blk p n \<subseteq> arena (usrpt s)" "blk p n \<inter> owned s = {}"
  shows "starved (kmem_free s p n) \<and> free_hdr_list s = []
    \<or> (\<exists>s'. kmem_free s p n = Ok s' \<and> km_inv s' \<and> owned s' = owned s \<union> blk p n \<and> n \<le> weight (free_root s'))"
proof -
  have room: "\<forall>x. own s x + inb p n x \<le> arena_cnt s x" and wf: "km_wf s"
    using free_room [OF assms(1,3,4)] assms(1) by (auto simp: km_inv_def)
  from wf assms(2) room show ?thesis
  proof (cases rule: kmem_free_spec)
    case (freed s')
    then show ?thesis
      using free_owned [OF room freed(2,3)] kmem_free_frame [OF freed(1)] by blast
  qed simp
qed

theorem kmem_free_correct_witness:
  "\<exists>s'. kmem_free odd_heap 1876000 100 = Ok s' \<and> km_inv s' \<and> owned s' = owned odd_heap \<union> blk 1876000 100
     \<and> 100 \<le> weight (free_root s')"
proof -
  have "free_hdr_list odd_heap \<noteq> []" by (simp add: odd_heap_def)
  moreover have "blk 1876000 100 \<subseteq> arena (usrpt odd_heap)"
    by (auto simp: arena_def odd_heap_def)
  moreover have "blk 1876000 100 \<inter> owned odd_heap = {}"
    by (auto simp: owned_def odd_heap_own inb_def)
  ultimately show ?thesis
    using kmem_free_correct [OF odd_heap_inv, of 100 1876000] by auto
qed

text \<open>
  C37: Freeing a block of which any byte is already free in the tree is always detected:
  \<open>kmem_free\<close> panics, whatever neighbours it has absorbed before it reaches the overlap.
\<close>

theorem kmem_free_detects_overlap:
  assumes "km_inv s" "0 < n" "0 < p" "p + n \<le> INT_MAX" "blk p n \<inter> fspace (segs (free_root s)) \<noteq> {}"
  shows "\<exists>m. kmem_free s p n = Panic m"
proof -
  have wf: "km_wf s" using assms(1) by (simp add: km_inv_def)
  obtain x where x: "p \<le> x" "x < p + n" "x \<in> fspace (segs (free_root s))"
    using assms(5) by auto
  have "cnt S x \<noteq> 0" if "x \<in> fspace S" for S
    using that by (induction S) (auto simp: inb_def)
  then have "cnt (segs (free_root s)) x \<noteq> 0" using x(3) by blast
  moreover have "seg_hi 0 (segs (free_root s)) < INT_MAX + 1"
    using wf_segs_hi_max [OF km_wf_tree(1) [OF wf]] by (simp add: INT_MAX_def)
  ultimately have "\<exists>m. free_search (free_root s) p n (free_hdr_list s) = Panic m"
    using free_search_overlap [OF km_wf_tree(1) [OF wf] _ order_refl km_wf_tree(2) [OF wf] order_refl assms(3) _ assms(2) x(1,2)]
      assms(4) by fastforce
  then show ?thesis using assms(2) by (auto simp: kmem_free_def)
qed

theorem kmem_free_detects_overlap_witness: 
  "\<exists>m. kmem_free odd_heap 1867000 778 = Panic m"
proof -
  have "1867777 \<in> blk 1867000 778 \<inter> fspace (segs (free_root odd_heap))"
    by (simp add: odd_heap_def)
  then have "blk 1867000 778 \<inter> fspace (segs (free_root odd_heap)) \<noteq> {}" by blast
  then show ?thesis
    using kmem_free_detects_overlap [OF odd_heap_inv, of 778 1867000] by (simp add: INT_MAX_def)
qed



text \<open>
  The size restriction is needed.  On a well-formed heap, a request of exactly one page can
  be given a block that runs past the end of the free block it was taken from, into a byte the
  heap does not own: after \<open>morecore\<close> the search does not check that the root itself is long
  enough behind its misaligned start.
\<close>

theorem kmem_alloc_page_overrun:
  "\<exists>s s' a x. km_inv s \<and> kmem_alloc s 8192 = Ok (a, s') \<and> x \<in> blk a 8192 \<and> x \<notin> owned s"
proof -
  have "\<exists>s'. kmem_alloc odd_heap 8192 = Ok (1867780, s')" 
  proof -
    have "case kmem_alloc odd_heap 8192 of Ok r \<Rightarrow> fst r = 1867780 | _ \<Rightarrow> False" by code_simp
    then show ?thesis by (auto split: outcome.splits)
  qed
  moreover have "1875971 \<in> blk 1867780 8192" by simp
  moreover have "1875971 \<notin> owned odd_heap" by (simp add: owned_def odd_heap_own inb_def)
  ultimately show ?thesis using odd_heap_inv by blast
qed



end
