(* ===== verification/Clist.thy ===== *)
theory Clist
  imports Kernel_Prelude
begin

text \<open>
  Character lists, \<open>sys/tty_subr.c\<close> with \<open>h/clist.h\<close>, and \<open>cinit\<close> of \<open>sys/init_main.c\<close>: queues
  of characters in linked 32-byte blocks that share one list of free blocks.  The model keeps the
  pointers and the rounding tricks of the code.
\<close>

unbundle bit_operations_syntax

section \<open>Data\<close>

text \<open>
  A block lies at an address that is a multiple of 32, so a \<open>struct cblock\<close> pointer is a block
  number (0 is \<open>NULL\<close>) and a \<open>char\<close> pointer an address; the four bytes at the start of a block
  hold \<open>c_next\<close>, the other 28 the characters.  Characters are signed bytes.
\<close>

definition CBSIZE :: nat where
  "CBSIZE = 28"

definition CROUND :: nat where
  "CROUND = 31"

definition int8 :: "int \<Rightarrow> int" where
  "int8 x = (x + 128) mod 256 - 128"

record cpool =
  c_next :: "nat \<Rightarrow> nat"
  c_mem :: "nat \<Rightarrow> int"
  cfreelist :: nat
  cfreecount :: int
  cwaiting :: bool
  cwakeups :: nat

record clist =
  c_cc :: int
  c_cf :: nat
  c_cl :: nat

text \<open>The block an address lies in, the start of a block's characters, the test \<open>& CROUND\<close>.\<close>

definition blockof :: "nat \<Rightarrow> nat" where
  "blockof a = a div (CROUND + 1)"

definition c_info :: "nat \<Rightarrow> nat" where
  "c_info b = (CROUND + 1) * b + 4"

definition croundof :: "nat \<Rightarrow> nat" where
  "croundof a = a mod (CROUND + 1)"

text \<open>Access through a pointer faults in block 0, where \<open>NULL\<close> points to.\<close>

definition cload :: "cpool \<Rightarrow> nat \<Rightarrow> int outcome" where
  "cload cs a = (if blockof a = 0 then Fault else Ok (c_mem cs a))"

definition cstore :: "cpool \<Rightarrow> nat \<Rightarrow> int \<Rightarrow> cpool outcome" where
  "cstore cs a c = (if blockof a = 0 then Fault else Ok (cs\<lparr>c_mem := (c_mem cs)(a := int8 c)\<rparr>))"

definition get_next :: "cpool \<Rightarrow> nat \<Rightarrow> nat outcome" where
  "get_next cs b = (if b = 0 then Fault else Ok (c_next cs b))"

definition set_next :: "cpool \<Rightarrow> nat \<Rightarrow> nat \<Rightarrow> cpool outcome" where
  "set_next cs b b' = (if b = 0 then Fault else Ok (cs\<lparr>c_next := (c_next cs)(b := b')\<rparr>))"

section \<open>Operations\<close>

text \<open>\<open>cinit\<close> puts the blocks of the array at address \<open>cfree\<close> on the free list.\<close>

definition cinit :: "cpool \<Rightarrow> nat \<Rightarrow> nat \<Rightarrow> cpool outcome" where
  "cinit cs cfree nclist =
     fold (\<lambda>b m. obind m (\<lambda>cs. obind (set_next cs b (cfreelist cs)) (\<lambda>cs1.
              Ok (cs1\<lparr>cfreelist := b, cfreecount := cfreecount cs1 + int CBSIZE\<rparr>))))
       [blockof (cfree + CROUND)..<(cfree + (CROUND + 1) * (nclist - 1) + CROUND) div (CROUND + 1)] (Ok cs)"

text \<open>The wakeup when a block comes free, and giving a block back with or without it.\<close>

definition cwake :: "cpool \<Rightarrow> cpool" where
  "cwake cs = (if cwaiting cs then cs\<lparr>cwakeups := Suc (cwakeups cs), cwaiting := False\<rparr> else cs)"

definition cbfree :: "cpool \<Rightarrow> nat \<Rightarrow> cpool outcome" where
  "cbfree cs bp = obind (set_next cs bp (cfreelist cs)) (\<lambda>cs1.
     Ok (cs1\<lparr>cfreelist := bp, cfreecount := cfreecount cs1 + int CBSIZE\<rparr>))"

definition getc :: "cpool \<Rightarrow> clist \<Rightarrow> (int \<times> cpool \<times> clist) outcome" where
  "getc cs p =
     (if c_cc p \<le> 0 then Ok (-1, cs, \<lparr>c_cc = 0, c_cf = 0, c_cl = 0\<rparr>)
      else obind (cload cs (c_cf p)) (\<lambda>ch.
        let c = ch AND 255; cf = c_cf p + 1; cc = c_cc p - 1
        in if cc \<le> 0 then
             obind (cbfree cs (blockof (cf - 1))) (\<lambda>cs1.
               Ok (c, cwake cs1, \<lparr>c_cc = cc, c_cf = 0, c_cl = 0\<rparr>))
           else if croundof cf = 0 then
             (let bp = blockof cf - 1
              in obind (get_next cs bp) (\<lambda>nb.
                 obind (cbfree cs bp) (\<lambda>cs1.
                   Ok (c, cwake cs1, p\<lparr>c_cc := cc, c_cf := c_info nb\<rparr>))))
           else Ok (c, cs, p\<lparr>c_cc := cc, c_cf := cf\<rparr>)))"

text \<open>\<open>q_to_b\<close>: the loop runs at most \<open>cc\<close> times; the characters moved are the result.\<close>

fun q_to_b_loop :: "cpool \<Rightarrow> clist \<Rightarrow> nat \<Rightarrow> (int list \<times> cpool \<times> clist) outcome" where
  "q_to_b_loop cs q 0 = Ok ([], cs, q)"
| "q_to_b_loop cs q (Suc n) =
     obind (cload cs (c_cf q)) (\<lambda>ch.
       let cf = c_cf q + 1; cc = c_cc q - 1
       in if cc \<le> 0 then
            obind (cbfree cs (blockof (cf - 1))) (\<lambda>cs1.
              Ok ([ch], cwake cs1, \<lparr>c_cc = cc, c_cf = 0, c_cl = 0\<rparr>))
          else
            obind (if croundof cf = 0 then
                     obind (get_next cs (blockof cf - 1)) (\<lambda>nb.
                     obind (cbfree cs (blockof cf - 1)) (\<lambda>cs1. Ok (c_info nb, cwake cs1)))
                   else Ok (cf, cs))
              (\<lambda>(cf', cs1). obind (q_to_b_loop cs1 (q\<lparr>c_cc := cc, c_cf := cf'\<rparr>) n)
                 (\<lambda>(cps, r). Ok (ch # cps, r))))"

definition q_to_b :: "cpool \<Rightarrow> clist \<Rightarrow> int \<Rightarrow> (int list \<times> cpool \<times> clist) outcome" where
  "q_to_b cs q cc =
     (if cc \<le> 0 then Ok ([], cs, q)
      else if c_cc q \<le> 0 then Ok ([], cs, \<lparr>c_cc = 0, c_cf = 0, c_cl = 0\<rparr>)
      else q_to_b_loop cs q (nat cc))"

text \<open>\<open>ndqb\<close>: contiguous characters, up to one that has a bit of \<open>flag\<close>.\<close>

fun ndqb_scan :: "cpool \<Rightarrow> int \<Rightarrow> nat \<Rightarrow> nat \<Rightarrow> int outcome" where
  "ndqb_scan cs flag p 0 = Ok 0"
| "ndqb_scan cs flag p (Suc n) =
     obind (cload cs p) (\<lambda>ch.
       if ch AND flag \<noteq> 0 then Ok 0 else obind (ndqb_scan cs flag (p + 1) n) (\<lambda>k. Ok (k + 1)))"

definition ndqb :: "cpool \<Rightarrow> clist \<Rightarrow> int \<Rightarrow> int outcome" where
  "ndqb cs q flag =
     (if c_cc q \<le> 0 then Ok (- c_cc q)
      else
        (let n = int ((CROUND + 1) * blockof (c_cf q + CBSIZE)) - int (c_cf q);
             cc = (if c_cc q < n then c_cc q else n)
         in if flag \<noteq> 0 then ndqb_scan cs flag (c_cf q) (nat cc) else Ok cc))"

text \<open>
  \<open>ndflush\<close>: every turn of the loop removes at least one character of a well-formed list, so
  \<open>cc\<close> turns are enough.
\<close>

fun ndflush_loop :: "nat \<Rightarrow> cpool \<Rightarrow> clist \<Rightarrow> int \<Rightarrow> (cpool \<times> clist) outcome" where
  "ndflush_loop fuel cs q cc =
     (if cc > 0 \<and> c_cc q \<noteq> 0 then
        (case fuel of 0 \<Rightarrow> Fault
         | Suc fuel' \<Rightarrow>
             let bp = blockof (c_cf q);
                 end = (if bp = blockof (c_cl q - 1) then c_cl q else (CROUND + 1) * (bp + 1));
                 rem = int end - int (c_cf q)
             in if cc \<ge> rem then
                  obind (get_next cs bp) (\<lambda>nb.
                  obind (cbfree cs bp) (\<lambda>cs1.
                    ndflush_loop fuel' (cwake cs1) (q\<lparr>c_cc := c_cc q - rem, c_cf := c_info nb\<rparr>) (cc - rem)))
                else
                  (let q1 = q\<lparr>c_cc := c_cc q - cc, c_cf := nat (int (c_cf q) + cc)\<rparr>
                   in if c_cc q1 \<le> 0 then obind (cbfree cs bp) (\<lambda>cs1. Ok (cwake cs1, q1))
                      else Ok (cs, q1)))
      else Ok (cs, q))"

definition ndflush :: "cpool \<Rightarrow> clist \<Rightarrow> int \<Rightarrow> (cpool \<times> clist) outcome" where
  "ndflush cs q cc =
     (if c_cc q \<le> 0 then Ok (cs, q)
      else obind (ndflush_loop (nat cc) cs q cc) (\<lambda>(cs1, q1).
        Ok (cs1, if c_cc q1 \<le> 0 then \<lparr>c_cc = 0, c_cf = 0, c_cl = 0\<rparr> else q1)))"

text \<open>Taking the first block of the free list, with its link cleared; 0 when there is none.\<close>

definition cballoc :: "cpool \<Rightarrow> (nat \<times> cpool) outcome" where
  "cballoc cs =
     (if cfreelist cs = 0 then Ok (0, cs)
      else obind (get_next cs (cfreelist cs)) (\<lambda>nb.
           obind (set_next (cs\<lparr>cfreelist := nb, cfreecount := cfreecount cs - int CBSIZE\<rparr>) (cfreelist cs) 0)
             (\<lambda>cs1. Ok (cfreelist cs, cs1))))"

text \<open>The block behind \<open>cp\<close> gets the first free block as its successor.\<close>

definition cextend :: "cpool \<Rightarrow> nat \<Rightarrow> (nat \<times> cpool) outcome" where
  "cextend cs cp = obind (set_next cs (blockof cp - 1) (cfreelist cs)) cballoc"

definition putc :: "cpool \<Rightarrow> int \<Rightarrow> clist \<Rightarrow> (int \<times> cpool \<times> clist) outcome" where
  "putc cs c p =
     (if c_cl p = 0 \<or> c_cc p < 0 then
        obind (cballoc cs) (\<lambda>(bp, cs1).
          if bp = 0 then Ok (-1, cs1, p)
          else obind (cstore cs1 (c_info bp) c) (\<lambda>cs2.
            Ok (0, cs2, \<lparr>c_cc = c_cc p + 1, c_cf = c_info bp, c_cl = c_info bp + 1\<rparr>)))
      else if croundof (c_cl p) = 0 then
        obind (cextend cs (c_cl p)) (\<lambda>(bp, cs1).
          if bp = 0 then Ok (-1, cs1, p)
          else obind (cstore cs1 (c_info bp) c) (\<lambda>cs2.
            Ok (0, cs2, p\<lparr>c_cc := c_cc p + 1, c_cl := c_info bp + 1\<rparr>)))
      else
        obind (cstore cs (c_cl p) c) (\<lambda>cs1.
          Ok (0, cs1, p\<lparr>c_cc := c_cc p + 1, c_cl := c_cl p + 1\<rparr>)))"

text \<open>\<open>b_to_q\<close>: the copying loop from \<open>cq\<close> on; the result is the end pointer and what is left.\<close>

fun b_to_q_loop :: "cpool \<Rightarrow> int list \<Rightarrow> nat \<Rightarrow> (int list \<times> nat \<times> cpool) outcome" where
  "b_to_q_loop cs [] cq = Ok ([], cq, cs)"
| "b_to_q_loop cs (c # cps) cq =
     (if croundof cq = 0 then
        obind (cextend cs cq) (\<lambda>(bp, cs1).
          if bp = 0 then Ok (c # cps, cq, cs1)
          else obind (cstore cs1 (c_info bp) c) (\<lambda>cs2. b_to_q_loop cs2 cps (c_info bp + 1)))
      else obind (cstore cs cq c) (\<lambda>cs2. b_to_q_loop cs2 cps (cq + 1)))"

definition b_to_q :: "cpool \<Rightarrow> int list \<Rightarrow> clist \<Rightarrow> (int \<times> cpool \<times> clist) outcome" where
  "b_to_q cs cps q =
     (if cps = [] then Ok (0, cs, q)
      else
        obind (if c_cl q = 0 \<or> c_cc q < 0 then
                 obind (cballoc cs) (\<lambda>(bp, cs1).
                   Ok (if bp = 0 then (None, c_cf q, cs1) else (Some (c_info bp), c_info bp, cs1)))
               else Ok (Some (c_cl q), c_cf q, cs))
          (\<lambda>(start, cf, cs1). case start of
              None \<Rightarrow> Ok (int (length cps), cs1, q)
            | Some cq \<Rightarrow> obind (b_to_q_loop cs1 cps cq) (\<lambda>(left, cq', cs2).
                Ok (int (length left), cs2,
                    q\<lparr>c_cf := cf, c_cl := cq', c_cc := c_cc q + int (length cps) - int (length left)\<rparr>))))"

definition nextc :: "cpool \<Rightarrow> clist \<Rightarrow> nat \<Rightarrow> nat outcome" where
  "nextc cs p cp =
     (if c_cc p \<noteq> 0 \<and> cp + 1 \<noteq> c_cl p then
        (if croundof (cp + 1) = 0
         then obind (get_next cs (blockof (cp + 1) - 1)) (\<lambda>nb. Ok (c_info nb))
         else Ok (cp + 1))
      else Ok 0)"

text \<open>
  \<open>unputc\<close>: the search for the block before the last; it has at most as many steps as the
  list has characters.
\<close>

fun find_prev :: "nat \<Rightarrow> cpool \<Rightarrow> nat \<Rightarrow> nat \<Rightarrow> nat outcome" where
  "find_prev 0 cs bp lb = Fault"
| "find_prev (Suc fuel) cs bp lb =
     obind (get_next cs bp) (\<lambda>nb. if nb = lb then Ok bp else find_prev fuel cs nb lb)"

definition unputc :: "cpool \<Rightarrow> clist \<Rightarrow> (int \<times> cpool \<times> clist) outcome" where
  "unputc cs p =
     (if c_cc p \<le> 0 then Ok (-1, cs, p)
      else
        (let cl = c_cl p - 1; cc = c_cc p - 1
         in obind (cload cs cl) (\<lambda>c.
              if cc \<le> 0 then
                obind (cbfree cs (blockof cl)) (\<lambda>cs1. Ok (c, cs1, \<lparr>c_cc = cc, c_cf = 0, c_cl = 0\<rparr>))
              else if croundof cl = 4 then
                obind (find_prev (nat (c_cc p)) cs (blockof (c_cf p)) (blockof cl)) (\<lambda>obp.
                obind (get_next cs obp) (\<lambda>bp.
                obind (cbfree cs bp) (\<lambda>cs1.
                obind (set_next cs1 obp 0) (\<lambda>cs2.
                  Ok (c, cs2, p\<lparr>c_cc := cc, c_cl := (CROUND + 1) * (obp + 1)\<rparr>)))))
              else Ok (c, cs, p\<lparr>c_cc := cc, c_cl := cl\<rparr>))))"

lemma getc_count: "getc cs p = Ok (c, cs', p') \<Longrightarrow> 0 \<le> c \<Longrightarrow> c_cc p' = c_cc p - 1 \<and> 0 < c_cc p"
  by (auto simp: getc_def Let_def split: if_splits)

text \<open>\<open>catq\<close> ends because every character it gets shortens the queue it reads.\<close>

function catq :: "cpool \<Rightarrow> clist \<Rightarrow> clist \<Rightarrow> (cpool \<times> clist \<times> clist) outcome" where
  "catq cs from to =
     obind (getc cs from) (\<lambda>(c, cs1, from').
       if c \<ge> 0 then obind (putc cs1 c to) (\<lambda>(_, cs2, to'). catq cs2 from' to')
       else Ok (cs1, from', to))"
  by pat_completeness auto
termination
  by (relation "measure (\<lambda>(cs, from, to). nat (c_cc from))") (auto dest: getc_count)

declare catq.simps [simp del]

section \<open>What a list of blocks represents\<close>

lemma clist_consts [simp]: "CBSIZE = 28" "CROUND = 31"
  by (simp_all add: CBSIZE_def CROUND_def)

text \<open>
  The addresses of the characters of the blocks \<open>bs\<close>, from offset \<open>i\<close> in the first one up to
  offset \<open>j\<close> in the last one.
\<close>

fun addrs :: "nat list \<Rightarrow> nat \<Rightarrow> nat \<Rightarrow> nat list" where
  "addrs [] i j = []"
| "addrs [b] i j = [32 * b + 4 + i..<32 * b + 4 + j]"
| "addrs (b # b' # bs) i j = [32 * b + 4 + i..<32 * b + 32] @ addrs (b' # bs) 0 j"

fun chain :: "cpool \<Rightarrow> nat list \<Rightarrow> bool" where
  "chain cs [] = True"
| "chain cs [b] = (c_next cs b = 0)"
| "chain cs (b # b' # bs) = (c_next cs b = b' \<and> chain cs (b' # bs))"

text \<open>
  \<open>crep cs q bs xs\<close>: the list \<open>q\<close> consists of the blocks \<open>bs\<close> and holds the characters \<open>xs\<close>.
\<close>

definition cspan :: "clist \<Rightarrow> nat list \<Rightarrow> nat \<Rightarrow> nat \<Rightarrow> bool" where
  "cspan q bs i j \<longleftrightarrow> bs \<noteq> [] \<and> i < 28 \<and> 0 < j \<and> j \<le> 28 \<and> (length bs = 1 \<longrightarrow> i < j)
     \<and> c_cf q = 32 * hd bs + 4 + i \<and> c_cl q = 32 * last bs + 4 + j"

definition crep :: "cpool \<Rightarrow> clist \<Rightarrow> nat list \<Rightarrow> int list \<Rightarrow> bool" where
  "crep cs q bs xs \<longleftrightarrow>
     distinct bs \<and> 0 \<notin> set bs \<and> chain cs bs \<and> c_cc q = int (length xs)
     \<and> (if bs = [] then xs = [] \<and> c_cf q = 0 \<and> c_cl q = 0
        else \<exists>i j. cspan q bs i j \<and> xs = map (c_mem cs) (addrs bs i j))"

text \<open>The free list, and the count kept of its characters.\<close>

definition frep :: "cpool \<Rightarrow> nat list \<Rightarrow> bool" where
  "frep cs fs \<longleftrightarrow> distinct fs \<and> 0 \<notin> set fs \<and> chain cs fs
     \<and> cfreelist cs = (if fs = [] then 0 else hd fs) \<and> cfreecount cs = 28 * int (length fs)"

text \<open>Two pools that agree on the blocks of a list represent it alike.\<close>

definition agree :: "nat set \<Rightarrow> cpool \<Rightarrow> cpool \<Rightarrow> bool" where
  "agree B cs cs' \<longleftrightarrow> (\<forall>b\<in>B. c_next cs' b = c_next cs b) \<and> (\<forall>a. a div 32 \<in> B \<longrightarrow> c_mem cs' a = c_mem cs a)"

lemma agree_refl [simp]: "agree B cs cs"
  by (simp add: agree_def)

lemma agree_trans: "agree B cs cs1 \<Longrightarrow> agree B cs1 cs2 \<Longrightarrow> agree B cs cs2"
  by (simp add: agree_def)

lemma agree_mono: "agree B cs cs' \<Longrightarrow> B' \<subseteq> B \<Longrightarrow> agree B' cs cs'"
  by (auto simp: agree_def)

lemma addrs_blocks: "a \<in> set (addrs bs i j) \<Longrightarrow> j \<le> 28 \<Longrightarrow> a div 32 \<in> set bs"
  by (induction bs i j rule: addrs.induct) auto

lemma chain_agree: "agree (set bs) cs cs' \<Longrightarrow> chain cs bs \<Longrightarrow> chain cs' bs"
  by (induction cs bs rule: chain.induct) (auto simp: agree_def)

lemma crep_agree: 
  assumes "crep cs q bs xs" "agree (set bs) cs cs'"
  shows "crep cs' q bs xs"
proof -
  have "map (c_mem cs') (addrs bs i j) = map (c_mem cs) (addrs bs i j)" if "cspan q bs i j" for i j
    using assms(2) addrs_blocks [of _ bs i j] that by (auto simp: agree_def cspan_def)
  then show ?thesis using assms chain_agree by (fastforce simp: crep_def)
qed

lemma frep_agree:
  "frep cs fs \<Longrightarrow> agree (set fs) cs cs' \<Longrightarrow> cfreelist cs' = cfreelist cs \<Longrightarrow> cfreecount cs' = cfreecount cs \<Longrightarrow> frep cs' fs"
  using chain_agree by (auto simp: frep_def)

lemma blockof_simps [simp]:
  "blockof a = a div 32" "croundof a = a mod 32" "c_info b = 32 * b + 4"
  by (simp_all add: blockof_def croundof_def c_info_def)

lemma div_block [simp]:
  "i < 32 \<Longrightarrow> (32 * b + i) div 32 = (b :: nat)"
  "(i :: nat) < 32 \<Longrightarrow> (32 * b + i) mod 32 = i"
  by simp_all

text \<open>Giving a block back puts it in front of the free list.\<close>

lemma cwake_simps [simp]:
  "c_next (cwake cs) = c_next cs" "c_mem (cwake cs) = c_mem cs" "cfreelist (cwake cs) = cfreelist cs"
  "cfreecount (cwake cs) = cfreecount cs"
  by (simp_all add: cwake_def)

lemma crep_cwake [simp]: "crep (cwake cs) q bs xs = crep cs q bs xs"
  using crep_agree [of cs q bs xs "cwake cs"] crep_agree [of "cwake cs" q bs xs cs] by (auto simp: agree_def)

lemma frep_cwake [simp]: "frep (cwake cs) fs = frep cs fs"
  using frep_agree [of cs fs "cwake cs"] frep_agree [of "cwake cs" fs cs] by (auto simp: agree_def)

lemma cbfree_spec:
  assumes "frep cs fs" "b \<noteq> 0" "b \<notin> set fs"
  obtains cs' where "cbfree cs b = Ok cs'" "frep cs' (b # fs)" "agree (- {b}) cs cs'"
    "c_mem cs' = c_mem cs"
proof -
  define cs' where "cs' = cs\<lparr>c_next := (c_next cs)(b := cfreelist cs), cfreelist := b, cfreecount := cfreecount cs + 28\<rparr>"
  have ag: "agree (- {b}) cs cs'" by (auto simp: agree_def cs'_def)
  have "chain cs' fs" using assms chain_agree [of fs cs cs'] agree_mono [OF ag, of "set fs"] by (auto simp: frep_def)
  moreover have "c_next cs' b = (if fs = [] then 0 else hd fs)" using assms(1) by (simp add: cs'_def frep_def)
  ultimately have "frep cs' (b # fs)"
    using assms by (cases fs) (auto simp: frep_def cs'_def)
  moreover have "cbfree cs b = Ok cs'" using assms(2) by (simp add: cbfree_def set_next_def cs'_def)
  ultimately show ?thesis using that ag by (simp add: cs'_def)
qed

lemma cballoc_spec:
  assumes "frep cs (b # fs)"
  obtains cs' where "cballoc cs = Ok (b, cs')" "frep cs' fs" "agree (- {b}) cs cs'" "c_next cs' b = 0"
    "c_mem cs' = c_mem cs"
proof -
  define cs' where "cs' = cs\<lparr>c_next := (c_next cs)(b := 0), cfreelist := c_next cs b, cfreecount := cfreecount cs - 28\<rparr>"
  have b: "b \<noteq> 0" "b \<notin> set fs" "cfreelist cs = b" using assms by (auto simp: frep_def)
  have ag: "agree (- {b}) cs cs'" by (auto simp: agree_def cs'_def)
  have "chain cs fs" "c_next cs b = (if fs = [] then 0 else hd fs)"
    using assms by (cases fs; auto simp: frep_def)+
  then have "frep cs' fs"
    using assms b chain_agree [of fs cs cs'] agree_mono [OF ag, of "set fs"]
    by (auto simp: frep_def cs'_def)
  moreover have "cballoc cs = Ok (b, cs')" using b by (simp add: cballoc_def get_next_def set_next_def cs'_def)
  ultimately show ?thesis using that ag by (simp add: cs'_def)
qed

lemma cballoc_none: "frep cs [] \<Longrightarrow> cballoc cs = Ok (0, cs)"
  by (simp add: cballoc_def frep_def)

section \<open>Taking characters from the front\<close>

lemma addrs_front:
  assumes "i < 28" "bs = [] \<Longrightarrow> i < j"
  shows "addrs (b # bs) i j = (32 * b + 4 + i) #
           (if bs \<noteq> [] \<and> i = 27 then addrs bs 0 j else addrs (b # bs) (Suc i) j)"
  using assms by (cases bs) (auto simp: upt_conv_Cons)

lemma chain_tl: "chain cs (b # bs) \<Longrightarrow> chain cs bs"
  by (cases bs) auto

lemma chain_next: "chain cs (b # bs) \<Longrightarrow> c_next cs b = (if bs = [] then 0 else hd bs)"
  by (cases bs) auto

lemma crep_frontE:
  assumes rep: "crep cs q bs (x # xs)"
  obtains b bs' where "bs = b # bs'" "b \<noteq> 0" "b \<notin> set bs'" "c_cf q div 32 = b" "c_mem cs (c_cf q) = x"
    "c_cc q = int (length xs) + 1"
    "xs = [] \<Longrightarrow> bs' = []"
    "xs \<noteq> [] \<Longrightarrow> (c_cf q + 1) mod 32 = 0 \<Longrightarrow> (c_cf q + 1) div 32 - 1 = b \<and> c_next cs b = hd bs'
        \<and> bs' \<noteq> [] \<and> crep cs (q\<lparr>c_cc := int (length xs), c_cf := 32 * hd bs' + 4\<rparr>) bs' xs"
    "xs \<noteq> [] \<Longrightarrow> (c_cf q + 1) mod 32 \<noteq> 0 \<Longrightarrow>
        crep cs (q\<lparr>c_cc := int (length xs), c_cf := c_cf q + 1\<rparr>) bs xs"
proof -
  from rep have ne: "bs \<noteq> []" by (auto simp: crep_def)
  then obtain b bs' where bs: "bs = b # bs'" by (cases bs) auto
  obtain i j where sp: "cspan q bs i j" and xs: "x # xs = map (c_mem cs) (addrs bs i j)"
    using rep ne by (auto simp: crep_def)
  have ij: "i < 28" "0 < j" "j \<le> 28" "bs' = [] \<Longrightarrow> i < j" "c_cf q = 32 * b + 4 + i" "c_cl q = 32 * last bs + 4 + j"
    using sp bs by (auto simp: cspan_def)
  note front = addrs_front [of i bs' j b, folded bs, OF ij(1,4)]
  have mem: "c_mem cs (c_cf q) = x" using xs front ij(5) by simp
  have rest: "xs = map (c_mem cs) (if bs' \<noteq> [] \<and> i = 27 then addrs bs' 0 j else addrs bs (Suc i) j)"
    using xs front by simp
  have wf: "distinct bs" "0 \<notin> set bs" "chain cs bs" "c_cc q = int (length xs) + 1"
    using rep by (auto simp: crep_def)
  have single: "bs' = []" if "xs = []"
  proof (rule ccontr)
    assume "bs' \<noteq> []"
    then show False using rest that ij by (cases bs'; cases "tl bs'") (auto simp: bs split: if_splits)
  qed
  have m: "(c_cf q + 1) mod 32 = 0 \<longleftrightarrow> i = 27"
    using ij(1) div_block(2) [of "5 + i" b] by (cases "i = 27") (simp_all add: ij(5) ac_simps)
  have cross: "(c_cf q + 1) div 32 - 1 = b \<and> c_next cs b = hd bs' \<and> bs' \<noteq> []
      \<and> crep cs (q\<lparr>c_cc := int (length xs), c_cf := 32 * hd bs' + 4\<rparr>) bs' xs"
    if "xs \<noteq> []" "(c_cf q + 1) mod 32 = 0"
  proof -
    have i: "i = 27" using that m by simp
    have ne': "bs' \<noteq> []"
    proof
      assume "bs' = []"
      then have "i < j" "xs = map (c_mem cs) (addrs bs (Suc i) j)" using ij(4) rest by auto
      then show False using that(1) i ij(3) \<open>bs' = []\<close> by (simp add: bs)
    qed
    have "cspan (q\<lparr>c_cc := int (length xs), c_cf := 32 * hd bs' + 4\<rparr>) bs' 0 j"
      using ne' ij by (simp add: cspan_def bs)
    moreover have "xs = map (c_mem cs) (addrs bs' 0 j)" using rest ne' i by simp
    moreover have "(c_cf q + 1) div 32 = Suc b" using i ij(5) by simp
    ultimately show ?thesis
      using ne' wf chain_tl [of cs b bs'] chain_next [of cs b bs']
      unfolding crep_def by (auto simp: bs)
  qed
  have stay: "crep cs (q\<lparr>c_cc := int (length xs), c_cf := c_cf q + 1\<rparr>) bs xs"
    if "xs \<noteq> []" "(c_cf q + 1) mod 32 \<noteq> 0"
  proof -
    have i: "i < 27" using that m ij(1) by simp
    have r: "xs = map (c_mem cs) (addrs bs (Suc i) j)" using rest i by simp
    have "Suc i < j" if "bs' = []" using r \<open>xs \<noteq> []\<close> that by (simp add: bs)
    then have "cspan (q\<lparr>c_cc := int (length xs), c_cf := c_cf q + 1\<rparr>) bs (Suc i) j"
      using sp i ij by (auto simp: cspan_def bs)
    then show ?thesis using r wf by (auto simp: crep_def bs)
  qed
  have "c_cf q div 32 = b" using ij by simp
  then show ?thesis
    using that [OF bs] wf(1,2,4) mem single cross stay by (simp add: bs)
qed

text \<open>
  What an operation does to the pool: the blocks stay the same ones, in the list or free, and
  no other block changes.
\<close>

definition cframe :: "cpool \<Rightarrow> nat list \<Rightarrow> nat list \<Rightarrow> cpool \<Rightarrow> nat list \<Rightarrow> nat list \<Rightarrow> bool" where
  "cframe cs bs fs cs' bs' fs' \<longleftrightarrow> frep cs' fs' \<and> set bs' \<inter> set fs' = {} \<and> set bs' \<union> set fs' = set bs \<union> set fs
     \<and> agree (- (set bs \<union> set fs)) cs cs'"

lemma cframe_trans:
  "cframe cs bs fs cs1 bs1 fs1 \<Longrightarrow> cframe cs1 bs1 fs1 cs2 bs2 fs2 \<Longrightarrow> cframe cs bs fs cs2 bs2 fs2"
  unfolding cframe_def using agree_trans by metis

lemma cframe_refl: "frep cs fs \<Longrightarrow> set bs \<inter> set fs = {} \<Longrightarrow> cframe cs bs fs cs bs fs"
  by (simp add: cframe_def)

lemma free_front:
  assumes "frep cs fs" "set (b # bs) \<inter> set fs = {}" "b \<noteq> 0" "b \<notin> set bs" "crep cs q bs xs"
  obtains cs' where "cbfree cs b = Ok cs'" "cframe cs (b # bs) fs (cwake cs') bs (b # fs)" "crep (cwake cs') q bs xs"
    "cframe cs (b # bs) fs cs' bs (b # fs)" "crep cs' q bs xs"
proof (rule cbfree_spec [of cs fs b])
  show "frep cs fs" "b \<noteq> 0" "b \<notin> set fs" using assms by auto
  fix cs'
  assume c: "cbfree cs b = Ok cs'" "frep cs' (b # fs)" "agree (- {b}) cs cs'" "c_mem cs' = c_mem cs"
  have f: "cframe cs (b # bs) fs cs' bs (b # fs)"
    using c assms by (auto simp: cframe_def intro: agree_mono)
  moreover have "crep cs' q bs xs"
    using crep_agree [OF assms(5)] agree_mono [OF c(3), of "set bs"] assms(4) by auto
  moreover have "cframe cs (b # bs) fs (cwake cs') bs (b # fs)"
    using f by (simp add: cframe_def agree_def)
  ultimately show thesis using that c(1) by simp
qed

lemma crep_empty [simp]: "crep cs \<lparr>c_cc = 0, c_cf = 0, c_cl = 0\<rparr> [] []"
  by (simp add: crep_def)

lemma crep_Nil: "crep cs q bs [] \<Longrightarrow> bs = [] \<and> q = \<lparr>c_cc = 0, c_cf = 0, c_cl = 0\<rparr>"
proof -
  assume r: "crep cs q bs []"
  have "bs = []"
  proof (rule ccontr)
    assume ne: "bs \<noteq> []"
    then obtain i j where "cspan q bs i j" "addrs bs i j = []" using r by (auto simp: crep_def)
    then show False using ne by (cases bs; cases "tl bs") (auto simp: cspan_def)
  qed
  then show ?thesis using r by (simp add: crep_def)
qed

definition croom :: "cpool \<Rightarrow> clist \<Rightarrow> int" where
  "croom cs q = int ((32 - c_cl q mod 32) mod 32) + cfreecount cs"

lemma crep_cl: "crep cs q bs xs \<Longrightarrow> (32 - c_cl q mod 32) mod 32 \<le> 28"
proof (cases "bs = []")
  case False
  assume "crep cs q bs xs"
  then obtain j where j: "0 < j" "j \<le> 28" "c_cl q = 32 * last bs + 4 + j"
    using False by (auto simp: crep_def cspan_def)
  show ?thesis
  proof (cases "j = 28")
    case True
    then have "c_cl q = 32 * Suc (last bs)" using j by simp
    then show ?thesis by simp
  next
    case False
    then have "c_cl q mod 32 = 4 + j" using j div_block(2) [of "4 + j" "last bs"] by (simp add: add.assoc)
    then show ?thesis using j by simp
  qed
qed (auto simp: crep_def)

lemma getc_Cons:
  assumes rep: "crep cs q bs (x # xs)" and fr: "frep cs fs" and dis: "set bs \<inter> set fs = {}"
  shows "\<exists>cs' q' bs' fs'. getc cs q = Ok (x AND 255, cs', q') \<and> crep cs' q' bs' xs
           \<and> cframe cs bs fs cs' bs' fs' \<and> croom cs q \<le> croom cs' q' \<and> length fs \<le> length fs'"
  using rep
proof (rule crep_frontE)
  fix b bs'
  assume bs: "bs = b # bs'" "b \<noteq> 0" "b \<notin> set bs'" and cf: "c_cf q div 32 = b" "c_mem cs (c_cf q) = x"
    and cc: "c_cc q = int (length xs) + 1" and one: "xs = [] \<Longrightarrow> bs' = []"
    and cross: "xs \<noteq> [] \<Longrightarrow> (c_cf q + 1) mod 32 = 0 \<Longrightarrow> (c_cf q + 1) div 32 - 1 = b \<and> c_next cs b = hd bs'
        \<and> bs' \<noteq> [] \<and> crep cs (q\<lparr>c_cc := int (length xs), c_cf := 32 * hd bs' + 4\<rparr>) bs' xs"
    and stay: "xs \<noteq> [] \<Longrightarrow> (c_cf q + 1) mod 32 \<noteq> 0 \<Longrightarrow>
        crep cs (q\<lparr>c_cc := int (length xs), c_cf := c_cf q + 1\<rparr>) bs xs"
  have ld: "cload cs (c_cf q) = Ok x" using cf bs(2) by (simp add: cload_def)
  have dis': "set (b # bs') \<inter> set fs = {}" using dis bs(1) by simp
  consider (last) "xs = []" | (cross) "xs \<noteq> []" "(c_cf q + 1) mod 32 = 0" | (stay) "xs \<noteq> []" "(c_cf q + 1) mod 32 \<noteq> 0"
    by blast
  then show ?thesis
  proof cases
    case last
    obtain cs' where c: "cbfree cs b = Ok cs'" "cframe cs (b # bs') fs (cwake cs') bs' (b # fs)"
      by (rule free_front [OF fr dis' bs(2,3), of "\<lparr>c_cc = 0, c_cf = 0, c_cl = 0\<rparr>" "[]"]) (simp add: one last)
    have "getc cs q = Ok (x AND 255, cwake cs', \<lparr>c_cc = 0, c_cf = 0, c_cl = 0\<rparr>)"
      using ld cc last cf c(1) by (simp add: getc_def)
    moreover have "croom cs q \<le> croom (cwake cs') \<lparr>c_cc = 0, c_cf = 0, c_cl = 0\<rparr>"
      using fr c(2) crep_cl [OF rep] by (simp add: croom_def cframe_def frep_def)
    moreover have "crep (cwake cs') \<lparr>c_cc = 0, c_cf = 0, c_cl = 0\<rparr> bs' xs" using one last by simp
    moreover have "length fs \<le> length (b # fs)" by simp
    ultimately show ?thesis using c(2) bs(1) by blast
  next
    case cross
    let ?q = "q\<lparr>c_cc := int (length xs), c_cf := 32 * hd bs' + 4\<rparr>"
    note cr = assms(1) \<open>xs \<noteq> [] \<Longrightarrow> (c_cf q + 1) mod 32 = 0 \<Longrightarrow> (c_cf q + 1) div 32 - 1 = b \<and> c_next cs b = hd bs'
        \<and> bs' \<noteq> [] \<and> crep cs (q\<lparr>c_cc := int (length xs), c_cf := 32 * hd bs' + 4\<rparr>) bs' xs\<close> [OF cross]
    obtain cs' where c: "cbfree cs b = Ok cs'" "cframe cs (b # bs') fs (cwake cs') bs' (b # fs)" "crep (cwake cs') ?q bs' xs"
      by (rule free_front [OF fr dis' bs(2,3), of ?q xs]) (use cr in auto)
    have "getc cs q = Ok (x AND 255, cwake cs', ?q)"
      using ld cc cross cr(2) c(1) bs(2) by (simp add: getc_def Let_def get_next_def)
    moreover have "croom cs q \<le> croom (cwake cs') ?q"
      using fr c(2) by (simp add: croom_def cframe_def frep_def)
    moreover have "length fs \<le> length (b # fs)" by simp
    ultimately show ?thesis using c bs(1) by blast
  next
    case stay
    let ?q = "q\<lparr>c_cc := int (length xs), c_cf := c_cf q + 1\<rparr>"
    have "getc cs q = Ok (x AND 255, cs, ?q)" using ld cc stay by (simp add: getc_def Let_def)
    moreover have "crep cs ?q bs xs"
      by (rule \<open>xs \<noteq> [] \<Longrightarrow> (c_cf q + 1) mod 32 \<noteq> 0 \<Longrightarrow> crep cs ?q bs xs\<close> [OF stay])
    moreover have "croom cs q \<le> croom cs ?q" by (simp add: croom_def)
    ultimately show ?thesis using cframe_refl [OF fr dis] by blast
  qed
qed

lemma getc_Nil:
  "crep cs q bs [] \<Longrightarrow> getc cs q = Ok (-1, cs, q)"
  by (auto dest!: crep_Nil simp: getc_def)

text \<open>\<open>q_to_b\<close> takes characters the way repeated \<open>getc\<close> does, without the mask.\<close>

lemma q_to_b_loop_spec:
  assumes "crep cs q bs xs" "frep cs fs" "set bs \<inter> set fs = {}" "xs \<noteq> []"
  shows "\<exists>cs' q' bs' fs'. q_to_b_loop cs q n = Ok (take n xs, cs', q') \<and> crep cs' q' bs' (drop n xs)
           \<and> cframe cs bs fs cs' bs' fs'"
  using assms
proof (induction n arbitrary: cs q bs fs xs)
  case 0
  then show ?case using cframe_refl by fastforce
next
  case (Suc n)
  from Suc.prems(4) obtain x ys where xs: "xs = x # ys" by (cases xs) auto
  note fr = Suc.prems(2) and dis = Suc.prems(3)
  show ?case
    using Suc.prems(1) unfolding xs
  proof (rule crep_frontE)
    fix b bs'
    assume bs: "bs = b # bs'" "b \<noteq> 0" "b \<notin> set bs'" and cf: "c_cf q div 32 = b" "c_mem cs (c_cf q) = x"
      and cc: "c_cc q = int (length ys) + 1" and one: "ys = [] \<Longrightarrow> bs' = []"
      and cr: "ys \<noteq> [] \<Longrightarrow> (c_cf q + 1) mod 32 = 0 \<Longrightarrow> (c_cf q + 1) div 32 - 1 = b \<and> c_next cs b = hd bs'
        \<and> bs' \<noteq> [] \<and> crep cs (q\<lparr>c_cc := int (length ys), c_cf := 32 * hd bs' + 4\<rparr>) bs' ys"
      and st: "ys \<noteq> [] \<Longrightarrow> (c_cf q + 1) mod 32 \<noteq> 0 \<Longrightarrow>
        crep cs (q\<lparr>c_cc := int (length ys), c_cf := c_cf q + 1\<rparr>) bs ys"
    have ld: "cload cs (c_cf q) = Ok x" using cf bs(2) by (simp add: cload_def)
    have dis': "set (b # bs') \<inter> set fs = {}" using dis bs(1) by simp
    consider (last) "ys = []" | (cross) "ys \<noteq> []" "(c_cf q + 1) mod 32 = 0" | (stay) "ys \<noteq> []" "(c_cf q + 1) mod 32 \<noteq> 0"
      by blast
    then show "\<exists>cs' q' bs' fs'. q_to_b_loop cs q (Suc n) = Ok (take (Suc n) (x # ys), cs', q')
        \<and> crep cs' q' bs' (drop (Suc n) (x # ys)) \<and> cframe cs bs fs cs' bs' fs'"
    proof cases
      case last
      obtain cs' where c: "cbfree cs b = Ok cs'" "cframe cs (b # bs') fs (cwake cs') bs' (b # fs)"
        by (rule free_front [OF fr dis' bs(2,3), of "\<lparr>c_cc = 0, c_cf = 0, c_cl = 0\<rparr>" "[]"]) (simp add: one last)
      have "q_to_b_loop cs q (Suc n) = Ok ([x], cwake cs', \<lparr>c_cc = 0, c_cf = 0, c_cl = 0\<rparr>)"
        using ld cc last cf c(1) by simp
      then have "q_to_b_loop cs q (Suc n) = Ok (take (Suc n) (x # ys), cwake cs', \<lparr>c_cc = 0, c_cf = 0, c_cl = 0\<rparr>)
          \<and> crep (cwake cs') \<lparr>c_cc = 0, c_cf = 0, c_cl = 0\<rparr> [] (drop (Suc n) (x # ys))
          \<and> cframe cs bs fs (cwake cs') [] (b # fs)"
        using c(2) one last bs(1) by simp
      then show ?thesis by blast
    next
      case cross
      let ?q = "q\<lparr>c_cc := int (length ys), c_cf := 32 * hd bs' + 4\<rparr>"
      obtain cs' where c: "cbfree cs b = Ok cs'" "cframe cs (b # bs') fs (cwake cs') bs' (b # fs)" "crep (cwake cs') ?q bs' ys"
        by (rule free_front [OF fr dis' bs(2,3), of ?q ys]) (use cr [OF cross] in auto)
      then obtain cs2 q2 bs2 fs2 where r: "q_to_b_loop (cwake cs') ?q n = Ok (take n ys, cs2, q2)"
          "crep cs2 q2 bs2 (drop n ys)" "cframe (cwake cs') bs' (b # fs) cs2 bs2 fs2"
        using Suc.IH [OF c(3) _ _ cross(1), of "b # fs"] by (auto simp: cframe_def)
      have "q_to_b_loop cs q (Suc n) = Ok (x # take n ys, cs2, q2)"
        using ld cc cross cr [OF cross] c(1) bs(2) r(1) by (simp add: get_next_def)
      then show ?thesis unfolding take_Suc_Cons drop_Suc_Cons using r(2) cframe_trans [OF c(2) r(3)] bs(1) by blast
    next
      case stay
      let ?q = "q\<lparr>c_cc := int (length ys), c_cf := c_cf q + 1\<rparr>"
      obtain cs2 q2 bs2 fs2 where r: "q_to_b_loop cs ?q n = Ok (take n ys, cs2, q2)"
          "crep cs2 q2 bs2 (drop n ys)" "cframe cs bs fs cs2 bs2 fs2"
        using Suc.IH [OF st [OF stay] fr dis stay(1)] by blast
      have "q_to_b_loop cs q (Suc n) = Ok (x # take n ys, cs2, q2)"
        using ld cc stay r(1) by simp
      then show ?thesis unfolding take_Suc_Cons drop_Suc_Cons using r(2,3) by blast
    qed
  qed
qed

section \<open>Adding characters at the end\<close>

lemma addrs_extend:
  "bs \<noteq> [] \<Longrightarrow> addrs (bs @ [b]) i j = addrs bs i 28 @ [32 * b + 4..<32 * b + 4 + j]"
  by (induction bs i j rule: addrs.induct) (simp_all add: add.commute)

lemma addrs_last:
  "a \<in> set (addrs bs i j) \<Longrightarrow> distinct bs \<Longrightarrow> a div 32 = last bs \<Longrightarrow> a < 32 * last bs + 4 + j"
proof (induction bs i j rule: addrs.induct)
  case (3 b b' bs i j)
  have "last (b' # bs) \<in> set (b' # bs)" by (rule last_in_set) simp
  then have "a div 32 \<noteq> b" using 3(3,4) by auto
  then have "a \<notin> set [32 * b + 4 + i..<32 * b + 32]" by auto
  then show ?case using 3 by (auto split: if_splits)
qed auto

lemma addrs_one: "addrs [b] 0 1 = [32 * b + 4]"
  by (simp add: upt_rec [of "32 * b + 4"])

lemma crepI:
  "cspan q bs i j \<Longrightarrow> xs = map (c_mem cs) (addrs bs i j) \<Longrightarrow> distinct bs \<Longrightarrow> 0 \<notin> set bs \<Longrightarrow> chain cs bs \<Longrightarrow>
   c_cc q = int (length xs) \<Longrightarrow> crep cs q bs xs"
  by (auto simp: crep_def cspan_def)

lemma addrs_Suc:
  "bs \<noteq> [] \<Longrightarrow> (length bs = 1 \<Longrightarrow> i \<le> j) \<Longrightarrow> addrs bs i (Suc j) = addrs bs i j @ [32 * last bs + 4 + j]"
proof (induction bs i j rule: addrs.induct)
  case (2 b i j)
  then have "[32 * b + 4 + i..<Suc (32 * b + 4 + j)] = [32 * b + 4 + i..<32 * b + 4 + j] @ [32 * b + 4 + j]"
    by (intro upt_Suc_append) simp
  then show ?case by (simp only: addrs.simps last.simps add_Suc_right if_True simp_thms)
qed auto

lemma chain_append:
  "chain cs (bs @ [b]) \<longleftrightarrow> (bs \<noteq> [] \<longrightarrow> c_next cs (last bs) = b) \<and> c_next cs b = 0
     \<and> (\<forall>i. Suc i < length bs \<longrightarrow> c_next cs (bs ! i) = bs ! Suc i)"
proof (induction cs bs rule: chain.induct)
  case (3 cs b1 b2 bs)
  then show ?case by (auto simp: nth_Cons split: nat.splits)
qed auto

lemma chain_nth:
  "bs \<noteq> [] \<Longrightarrow> chain cs bs \<longleftrightarrow> c_next cs (last bs) = 0 \<and> (\<forall>i. Suc i < length bs \<longrightarrow> c_next cs (bs ! i) = bs ! Suc i)"
proof (induction cs bs rule: chain.induct)
  case (3 cs b1 b2 bs)
  then show ?case by (auto simp: nth_Cons split: nat.splits)
qed auto

lemma chain_extend:
  assumes "chain cs bs" "bs \<noteq> []" "distinct bs" "\<forall>b\<in>set (butlast bs). c_next cs' b = c_next cs b"
    "c_next cs' (last bs) = b" "c_next cs' b = 0"
  shows "chain cs' (bs @ [b])"
proof -
  have "c_next cs' (bs ! i) = bs ! Suc i" if "Suc i < length bs" for i
  proof -
    have "bs ! i \<in> set (butlast bs)" using that nth_butlast [of i bs] nth_mem [of i "butlast bs"] by simp
    then show ?thesis using assms(1,2,4) that chain_nth by auto
  qed
  then show ?thesis using assms by (simp add: chain_append)
qed

text \<open>A byte written behind the last character.\<close>

lemma crep_push:
  assumes rep: "crep cs q bs xs" and ne: "bs \<noteq> []" and room: "c_cl q mod 32 \<noteq> 0"
  shows "cstore cs (c_cl q) c = Ok (cs\<lparr>c_mem := (c_mem cs)(c_cl q := int8 c)\<rparr>)"
    "crep (cs\<lparr>c_mem := (c_mem cs)(c_cl q := int8 c)\<rparr>) (q\<lparr>c_cc := c_cc q + 1, c_cl := c_cl q + 1\<rparr>) bs (xs @ [int8 c])"
    "c_cl q div 32 = last bs" "(32 - (c_cl q + 1) mod 32) mod 32 + 1 = (32 - c_cl q mod 32) mod 32"
proof -
  obtain i j where sp: "cspan q bs i j" and xs: "xs = map (c_mem cs) (addrs bs i j)"
    using rep ne by (auto simp: crep_def)
  have j: "0 < j" "j \<le> 28" "c_cl q = 32 * last bs + (4 + j)" "length bs = 1 \<Longrightarrow> i < j"
    using sp by (simp_all add: cspan_def)
  have "j \<noteq> 28"
  proof
    assume "j = 28"
    then have "c_cl q = 32 * Suc (last bs)" using j(3) by simp
    then show False using room by simp
  qed
  with j(2) have j28: "j < 28" by simp
  have d: "c_cl q div 32 = last bs" "c_cl q mod 32 = 4 + j" using j(3) j28 by simp_all
  have l: "last bs \<noteq> 0" using rep last_in_set [OF ne] unfolding crep_def by metis
  show "cstore cs (c_cl q) c = Ok (cs\<lparr>c_mem := (c_mem cs)(c_cl q := int8 c)\<rparr>)"
    using d l by (simp add: cstore_def)
  show "c_cl q div 32 = last bs" by fact
  show "(32 - (c_cl q + 1) mod 32) mod 32 + 1 = (32 - c_cl q mod 32) mod 32"
    using d(2) j28 by (cases "j = 27") (simp_all add: mod_Suc)
  have fresh: "c_cl q \<notin> set (addrs bs i j)"
    using addrs_last [of "c_cl q" bs i j] rep d(1) j(3) by (auto simp: crep_def)
  have "addrs bs i (Suc j) = addrs bs i j @ [c_cl q]"
    using addrs_Suc [OF ne, of i j] j(3) less_imp_le [OF j(4)] by (simp add: add.assoc)
  moreover have "map ((c_mem cs)(c_cl q := int8 c)) (addrs bs i j) = xs"
    using fresh xs by (auto simp: map_fun_upd)
  moreover have "cspan (q\<lparr>c_cc := c_cc q + 1, c_cl := c_cl q + 1\<rparr>) bs i (Suc j)"
    using sp j28 by (auto simp: cspan_def)
  moreover have "chain (cs\<lparr>c_mem := (c_mem cs)(c_cl q := int8 c)\<rparr>) bs"
    using rep chain_nth ne by (auto simp: crep_def)
  ultimately show "crep (cs\<lparr>c_mem := (c_mem cs)(c_cl q := int8 c)\<rparr>) (q\<lparr>c_cc := c_cc q + 1, c_cl := c_cl q + 1\<rparr>) bs (xs @ [int8 c])"
    using rep ne by (intro crepI [of _ _ i "Suc j"]) (auto simp: crep_def)
qed

text \<open>A new block behind the last one, with its first character.\<close>

lemma crep_new_block:
  assumes rep: "crep cs q bs xs" and fr: "frep cs (b # fs)" and dis: "set bs \<inter> set (b # fs) = {}"
    and ag: "agree (- insert b (if bs = [] then {} else {last bs})) cs cs'" and mem: "c_mem cs' = c_mem cs"
    and nx: "bs \<noteq> [] \<Longrightarrow> c_next cs' (last bs) = b" "c_next cs' b = 0"
    and q': "c_cc q' = c_cc q + 1" "c_cl q' = 32 * b + 5" "c_cf q' = (if bs = [] then 32 * b + 4 else c_cf q)"
    and full: "bs \<noteq> [] \<Longrightarrow> c_cl q mod 32 = 0"
  shows "crep (cs'\<lparr>c_mem := (c_mem cs')(32 * b + 4 := int8 c)\<rparr>) q' (bs @ [b]) (xs @ [int8 c])"
proof -
  let ?cs = "cs'\<lparr>c_mem := (c_mem cs')(32 * b + 4 := int8 c)\<rparr>"
  have b: "b \<noteq> 0" "b \<notin> set bs" using fr dis by (auto simp: frep_def)
  have wf: "distinct (bs @ [b])" "0 \<notin> set (bs @ [b])" using rep b by (auto simp: crep_def)
  show ?thesis
  proof (cases "bs = []")
    case True
    then have "xs = []" "c_cc q = 0" using rep by (auto simp: crep_def)
    moreover have "cspan q' [b] 0 1" using q' True by (simp add: cspan_def)
    ultimately show ?thesis
      using True b nx(2) q'(1) by (intro crepI [of _ _ 0 1]) (simp_all add: addrs_one [unfolded One_nat_def] del: addrs.simps)
  next
    case False
    obtain i j where sp: "cspan q bs i j" and xs: "xs = map (c_mem cs) (addrs bs i j)"
      using rep False by (auto simp: crep_def)
    have j: "j = 28"
    proof (rule ccontr)
      assume "j \<noteq> 28"
      then have "c_cl q mod 32 = 4 + j"
        using sp div_block(2) [of "4 + j" "last bs"] by (auto simp: cspan_def add.assoc)
      then show False using full [OF False] by simp
    qed
    have ch: "chain ?cs (bs @ [b])"
    proof (rule chain_extend [OF _ False])
      show "chain cs bs" "distinct bs" using rep by (auto simp: crep_def)
      have "last bs \<notin> set (butlast bs)"
        using \<open>distinct bs\<close> append_butlast_last_id [OF False] by (metis distinct_append distinct_singleton disjoint_insert(2) list.simps(15))
      then show "\<forall>x\<in>set (butlast bs). c_next ?cs x = c_next cs x"
        using ag b(2) False by (auto simp: agree_def dest: in_set_butlastD)
    qed (use nx False in auto)
    have sp': "cspan q' (bs @ [b]) i 1"
      using sp q' False by (simp add: cspan_def)
    have mm: "xs @ [int8 c] = map (c_mem ?cs) (addrs (bs @ [b]) i 1)"
    proof -
      have "32 * b + 4 \<notin> set (addrs bs i 28)" using addrs_blocks [of "32 * b + 4" bs i 28] b(2) by auto
      then show ?thesis
        using xs j mem upt_rec [of "32 * b + 4" "32 * b + 4 + 1"] by (simp add: addrs_extend [OF False])
    qed
    show ?thesis
      by (rule crepI [OF sp' mm wf ch]) (use rep q'(1) in \<open>simp add: crep_def\<close>)
  qed
qed

lemma crep_last:
  assumes "crep cs q bs xs" "bs \<noteq> []"
  shows "last bs \<in> set bs" "last bs \<noteq> 0" "c_cl q \<noteq> 0" "0 \<le> c_cc q"
    "c_cl q mod 32 = 0 \<Longrightarrow> c_cl q div 32 - 1 = last bs"
proof -
  show l: "last bs \<in> set bs" using assms(2) by simp
  then show "last bs \<noteq> 0" using assms(1) unfolding crep_def by metis
  obtain j where j: "0 < j" "j \<le> 28" "c_cl q = 32 * last bs + (4 + j)"
    using assms by (auto simp: crep_def cspan_def)
  then show "c_cl q \<noteq> 0" "0 \<le> c_cc q" using assms by (simp_all add: crep_def)
  assume m: "c_cl q mod 32 = 0"
  have "j = 28"
  proof (rule ccontr)
    assume "j \<noteq> 28"
    then show False using m j div_block(2) [of "4 + j" "last bs"] by simp
  qed
  then show "c_cl q div 32 - 1 = last bs" using j(3) by simp
qed

lemma cextend_spec:
  assumes rep: "crep cs q bs xs" and fr: "frep cs fs" and dis: "set bs \<inter> set fs = {}"
    and ne: "bs \<noteq> []" and full: "c_cl q mod 32 = 0"
  shows "fs = [] \<Longrightarrow> \<exists>cs'. cextend cs (c_cl q) = Ok (0, cs') \<and> crep cs' q bs xs \<and> cframe cs bs fs cs' bs fs"
    "fs = b # fs' \<Longrightarrow> \<exists>cs'. cextend cs (c_cl q) = Ok (b, cs') \<and> frep cs' fs' \<and> c_next cs' b = 0
       \<and> c_next cs' (last bs) = b \<and> agree (- {b, last bs}) cs cs' \<and> c_mem cs' = c_mem cs"
proof -
  note l = crep_last [OF rep ne]
  define cs0 where "cs0 = cs\<lparr>c_next := (c_next cs)(last bs := cfreelist cs)\<rparr>"
  have ext: "cextend cs (c_cl q) = cballoc cs0"
    using l full by (simp add: cextend_def set_next_def cs0_def)
  have ag: "agree (- {last bs}) cs cs0" by (auto simp: agree_def cs0_def)
  have fr0: "frep cs0 fs"
  proof (rule frep_agree [OF fr])
    show "agree (set fs) cs cs0" using agree_mono [OF ag, of "set fs"] dis l(1) by auto
  qed (simp_all add: cs0_def)
  { assume "fs = []"
    then have "cfreelist cs = 0" using fr by (simp add: frep_def)
    moreover have "c_next cs (last bs) = 0" using rep ne chain_nth [OF ne] by (simp add: crep_def)
    ultimately have "agree B cs cs0" for B by (simp add: agree_def cs0_def)
    then show "\<exists>cs'. cextend cs (c_cl q) = Ok (0, cs') \<and> crep cs' q bs xs \<and> cframe cs bs fs cs' bs fs"
      using ext cballoc_none [of cs0] fr0 \<open>fs = []\<close> crep_agree [OF rep] by (auto simp: cframe_def) }
  { assume fs: "fs = b # fs'"
    obtain cs' where c: "cballoc cs0 = Ok (b, cs')" "frep cs' fs'" "agree (- {b}) cs0 cs'" "c_next cs' b = 0"
        "c_mem cs' = c_mem cs0"
      using cballoc_spec [of cs0 b fs'] fr0 fs by blast
    have "last bs \<noteq> b" using dis l(1) fs by auto
    then have "c_next cs' (last bs) = c_next cs0 (last bs)" using c(3) by (simp add: agree_def)
    also have "\<dots> = b" using fr fs by (simp add: cs0_def frep_def)
    finally have "c_next cs' (last bs) = b" .
    moreover have "agree (- {b, last bs}) cs cs'"
      using agree_trans [OF agree_mono [OF ag] agree_mono [OF c(3)], of "- {b, last bs}"] by auto
    ultimately show "\<exists>cs'. cextend cs (c_cl q) = Ok (b, cs') \<and> frep cs' fs' \<and> c_next cs' b = 0
       \<and> c_next cs' (last bs) = b \<and> agree (- {b, last bs}) cs cs' \<and> c_mem cs' = c_mem cs"
      using ext c by (auto simp: cs0_def) }
qed

text \<open>The pool after a character was stored in a block of the list or in a new one.\<close>

lemma cframe_store:
  assumes "frep cs' fs'" "agree (- insert b A) cs cs'" "A \<subseteq> set bs" "c_mem cs' = c_mem cs"
    "set bs \<inter> set fs = {}" "fs = b # fs'" "distinct fs"
  shows "cframe cs bs fs (cs'\<lparr>c_mem := (c_mem cs')(32 * b + 4 := v)\<rparr>) (bs @ [b]) fs'"
proof -
  have "frep (cs'\<lparr>c_mem := (c_mem cs')(32 * b + 4 := v)\<rparr>) fs'"
    using assms by (intro frep_agree [OF assms(1)]) (auto simp: agree_def)
  then show ?thesis using assms by (auto simp: cframe_def agree_def)
qed

lemma putc_new:
  assumes rep: "crep cs q bs xs" and fr: "frep cs (b # fs)" and dis: "set bs \<inter> set (b # fs) = {}"
    and full: "bs \<noteq> [] \<Longrightarrow> c_cl q mod 32 = 0"
  shows "\<exists>cs'. crep cs' (\<lparr>c_cc = c_cc q + 1, c_cf = (if bs = [] then 32 * b + 4 else c_cf q), c_cl = 32 * b + 5\<rparr>)
              (bs @ [b]) (xs @ [int8 c])
           \<and> cframe cs bs (b # fs) cs' (bs @ [b]) fs
           \<and> putc cs c q = Ok (0, cs', \<lparr>c_cc = c_cc q + 1, c_cf = (if bs = [] then 32 * b + 4 else c_cf q), c_cl = 32 * b + 5\<rparr>)"
proof -
  have b: "b \<noteq> 0" "distinct (b # fs)" using fr by (auto simp: frep_def)
  obtain cs1 where c: "(if bs = [] then cballoc cs else cextend cs (c_cl q)) = Ok (b, cs1)" "frep cs1 fs" "c_next cs1 b = 0"
      "bs \<noteq> [] \<Longrightarrow> c_next cs1 (last bs) = b" "agree (- insert b (if bs = [] then {} else {last bs})) cs cs1"
      "c_mem cs1 = c_mem cs"
  proof (cases "bs = []")
    case True
    then show ?thesis using cballoc_spec [OF fr] that by auto
  next
    case False
    then show ?thesis using cextend_spec(2) [OF rep fr dis False full refl] that by auto
  qed
  let ?cs = "cs1\<lparr>c_mem := (c_mem cs1)(32 * b + 4 := int8 c)\<rparr>"
  let ?q = "\<lparr>c_cc = c_cc q + 1, c_cf = (if bs = [] then 32 * b + 4 else c_cf q), c_cl = 32 * b + 5\<rparr>"
  have "crep ?cs ?q (bs @ [b]) (xs @ [int8 c])"
    by (rule crep_new_block [OF rep fr dis c(5,6,4,3)]) (use full in auto)
  moreover have "cframe cs bs (b # fs) ?cs (bs @ [b]) fs"
    using c b dis last_in_set [of bs] by (intro cframe_store [OF c(2,5)]) auto
  moreover have "putc cs c q = Ok (0, ?cs, ?q)"
  proof (cases "bs = []")
    case True
    then have "c_cl q = 0" using rep by (simp add: crep_def)
    then show ?thesis using True c(1) b by (simp add: putc_def cstore_def)
  next
    case False
    then show ?thesis using c(1) b crep_last [OF rep False] full by (simp add: putc_def cstore_def)
  qed
  ultimately show ?thesis by blast
qed

lemma putc_spec:
  assumes rep: "crep cs q bs xs" and fr: "frep cs fs" and dis: "set bs \<inter> set fs = {}"
  shows "if 0 < croom cs q
         then \<exists>cs' q' bs' fs'. putc cs c q = Ok (0, cs', q') \<and> crep cs' q' bs' (xs @ [int8 c])
                \<and> cframe cs bs fs cs' bs' fs' \<and> croom cs' q' = croom cs q - 1
         else \<exists>cs'. putc cs c q = Ok (-1, cs', q) \<and> crep cs' q bs xs \<and> cframe cs bs fs cs' bs fs"
proof -
  have cnt: "cfreecount cs = 28 * int (length fs)" using fr by (simp add: frep_def)
  have e: "c_cl q = 0" if "bs = []" using rep that by (simp add: crep_def)
  consider (push) "bs \<noteq> []" "c_cl q mod 32 \<noteq> 0" | (none) "bs = [] \<or> c_cl q mod 32 = 0" "fs = []"
    | (new) b fs' where "bs = [] \<or> c_cl q mod 32 = 0" "fs = b # fs'"
    by (metis neq_Nil_conv)
  then show ?thesis
  proof cases
    case push
    note p = crep_push(1,2) [OF rep push, of c] crep_push(3,4) [OF rep push]
    let ?cs = "cs\<lparr>c_mem := (c_mem cs)(c_cl q := int8 c)\<rparr>"
    let ?q = "q\<lparr>c_cc := c_cc q + 1, c_cl := c_cl q + 1\<rparr>"
    have l: "last bs \<in> set bs" "c_cl q \<noteq> 0" "0 \<le> c_cc q" using crep_last [OF rep push(1)] by auto
    have "frep ?cs fs"
      using p(3) l(1) dis by (intro frep_agree [OF fr]) (auto simp: agree_def)
    then have "cframe cs bs fs ?cs bs fs" using p(3) l(1) dis by (auto simp: cframe_def agree_def)
    moreover have "croom ?cs ?q = croom cs q - 1" "0 < croom cs q"
      using p(4) cnt by (auto simp: croom_def)
    moreover have "putc cs c q = Ok (0, ?cs, ?q)" using p(1) push(2) l by (simp add: putc_def)
    ultimately show ?thesis using p(2) by auto
  next
    case none
    have r: "croom cs q = 0" using none cnt e by (auto simp: croom_def)
    show ?thesis
    proof (cases "bs = []")
      case True
      then have "putc cs c q = Ok (-1, cs, q)"
        using e cballoc_none fr none(2) by (simp add: putc_def)
      then show ?thesis using r rep cframe_refl [OF fr dis] by auto
    next
      case False
      then obtain cs' where "cextend cs (c_cl q) = Ok (0, cs')" "crep cs' q bs xs" "cframe cs bs fs cs' bs fs"
        using cextend_spec(1) [OF rep fr dis False] none by auto
      moreover from this have "putc cs c q = Ok (-1, cs', q)"
        using crep_last [OF rep False] none False by (simp add: putc_def)
      ultimately show ?thesis using r by auto
    qed
  next
    case (new b fs')
    have full: "bs \<noteq> [] \<Longrightarrow> c_cl q mod 32 = 0" using new(1) by blast
    from putc_new [OF rep fr [unfolded new(2)] dis [unfolded new(2)] full, of c] obtain cs' q' where
      p: "crep cs' q' (bs @ [b]) (xs @ [int8 c])" "cframe cs bs (b # fs') cs' (bs @ [b]) fs'"
         "putc cs c q = Ok (0, cs', q')" "c_cl q' = 32 * b + 5"
      by fastforce
    have m: "c_cl q mod 32 = 0" using new(1) e by auto
    have "croom cs' q' = croom cs q - 1"
      using p(2,4) m cnt new(2) by (simp add: croom_def cframe_def frep_def)
    moreover have "0 < croom cs q" using cnt new(2) by (simp add: croom_def)
    ultimately show ?thesis using p(1-3) new(2) by auto
  qed
qed

text \<open>The copying loop of \<open>b_to_q\<close> puts one character after the other, as \<open>putc\<close> does.\<close>

definition copied :: "cpool \<Rightarrow> clist \<Rightarrow> nat list \<Rightarrow> nat list \<Rightarrow> int list \<Rightarrow> int list \<Rightarrow> nat \<Rightarrow>
    cpool \<Rightarrow> clist \<Rightarrow> nat list \<Rightarrow> nat list \<Rightarrow> bool" where
  "copied cs q bs fs xs ys n cs' q' bs' fs' \<longleftrightarrow>
     b_to_q_loop cs ys (c_cl q) = Ok (drop n ys, c_cl q', cs') \<and> c_cf q' = c_cf q \<and> c_cc q' = c_cc q + int n
     \<and> crep cs' q' bs' (xs @ map int8 (take n ys)) \<and> cframe cs bs fs cs' bs' fs'
     \<and> croom cs' q' = croom cs q - int n"

lemma b_to_q_loop_spec:
  assumes "crep cs q bs xs" "frep cs fs" "set bs \<inter> set fs = {}" "bs \<noteq> []"
  shows "\<exists>cs' q' bs' fs'. copied cs q bs fs xs ys (nat (min (int (length ys)) (croom cs q))) cs' q' bs' fs'"
  using assms
proof (induction ys arbitrary: cs q bs xs fs)
  case Nil
  have "0 \<le> croom cs q" using Nil by (simp add: croom_def frep_def)
  then have "copied cs q bs fs xs [] (nat (min (int (length ([] :: int list))) (croom cs q))) cs q bs fs"
    using Nil cframe_refl [OF Nil(2,3)] by (simp add: copied_def)
  then show ?case by blast
next
  case (Cons y ys)
  note rep = Cons.prems(1) and fr = Cons.prems(2) and dis = Cons.prems(3) and ne = Cons.prems(4)
  have nonneg: "0 \<le> croom cs q" using fr by (simp add: croom_def frep_def)
  have l: "c_cl q \<noteq> 0" "0 \<le> c_cc q" using crep_last [OF rep ne] by auto
  show ?case
  proof (cases "0 < croom cs q")
    case True
    then obtain cs1 q1 bs1 fs1 where p: "putc cs y q = Ok (0, cs1, q1)" "crep cs1 q1 bs1 (xs @ [int8 y])"
        "cframe cs bs fs cs1 bs1 fs1" "croom cs1 q1 = croom cs q - 1"
      using putc_spec [OF rep fr dis, of y] by auto
    have q1: "c_cf q1 = c_cf q \<and> c_cc q1 = c_cc q + 1"
      and step: "b_to_q_loop cs (y # ys) (c_cl q) = b_to_q_loop cs1 ys (c_cl q1)"
      using p(1) l by (auto simp: putc_def split: if_splits)
    have ne1: "bs1 \<noteq> []" using p(2) by (cases bs1) (auto simp: crep_def)
    define n where "n = nat (min (int (length ys)) (croom cs1 q1))"
    have n: "nat (min (int (length (y # ys))) (croom cs q)) = Suc n"
      using True p(4) by (auto simp: n_def)
    obtain cs2 q2 bs2 fs2 where r: "copied cs1 q1 bs1 fs1 (xs @ [int8 y]) ys n cs2 q2 bs2 fs2"
      using Cons.IH [OF p(2) _ _ ne1, of fs1] p(3) unfolding cframe_def n_def by blast
    have "copied cs q bs fs xs (y # ys) (Suc n) cs2 q2 bs2 fs2"
      using r p(4) step cframe_trans [OF p(3)] q1 unfolding copied_def by simp
    then show ?thesis unfolding n by blast
  next
    case False
    then have r: "croom cs q = 0" using nonneg by simp
    then obtain cs' where p: "putc cs y q = Ok (-1, cs', q)" "crep cs' q bs xs" "cframe cs bs fs cs' bs fs"
      using putc_spec [OF rep fr dis, of y] by auto
    have "b_to_q_loop cs (y # ys) (c_cl q) = Ok (y # ys, c_cl q, cs')"
      using p(1) l by (auto simp: putc_def split: if_splits)
    moreover have "croom cs' q = croom cs q"
      using p(3) fr by (simp add: croom_def cframe_def frep_def)
    ultimately have "copied cs q bs fs xs (y # ys) 0 cs' q bs fs" using p(2,3) by (simp add: copied_def)
    then show ?thesis using r by auto
  qed
qed

lemma b_to_q_spec:
  assumes rep: "crep cs q bs xs" and fr: "frep cs fs" and dis: "set bs \<inter> set fs = {}"
  shows "\<exists>cs' q' bs' fs'. let n = nat (min (int (length ys)) (croom cs q))
         in b_to_q cs ys q = Ok (int (length ys) - int n, cs', q') \<and> crep cs' q' bs' (xs @ map int8 (take n ys))
            \<and> cframe cs bs fs cs' bs' fs' \<and> croom cs' q' = croom cs q - int n"
proof -
  define n where "n = nat (min (int (length ys)) (croom cs q))"
  have nonneg: "0 \<le> croom cs q" using fr by (simp add: croom_def frep_def)
  then have le: "n \<le> length ys" by (simp add: n_def)
  have goal: ?thesis
    if "b_to_q cs ys q = Ok (int (length ys) - int n, cs', q')" "crep cs' q' bs' (xs @ map int8 (take n ys))"
      "cframe cs bs fs cs' bs' fs'" "croom cs' q' = croom cs q - int n" for cs' q' bs' fs'
    using that unfolding n_def Let_def by blast
  show ?thesis
  proof (cases "ys = []")
    case True
    then show ?thesis using goal [of cs q bs fs] rep cframe_refl [OF fr dis] nonneg by (simp add: b_to_q_def n_def)
  next
    case ys: False
    show ?thesis
    proof (cases "bs = []")
      case False
      obtain cs' q' bs' fs' where c: "copied cs q bs fs xs ys n cs' q' bs' fs'"
        using b_to_q_loop_spec [OF rep fr dis False, of ys] unfolding n_def by blast
      then have "b_to_q cs ys q = Ok (int (length ys) - int n, cs', q')"
        using ys crep_last [OF rep False] le unfolding copied_def
        by (simp add: b_to_q_def of_nat_diff)
      then show ?thesis using c goal unfolding copied_def by blast
    next
      case True
      have e: "c_cl q = 0" "xs = []" "c_cc q = 0" "c_cf q = 0" using rep True by (auto simp: crep_def)
      show ?thesis
      proof (cases fs)
        case Nil
        then have "croom cs q = 0" using fr e by (simp add: croom_def frep_def)
        moreover have "b_to_q cs ys q = Ok (int (length ys), cs, q)"
          using ys e cballoc_none fr Nil by (simp add: b_to_q_def)
        ultimately show ?thesis
          using goal [of cs q bs fs] rep cframe_refl [OF fr dis] by (simp add: n_def)
      next
        case (Cons b fs')
        from ys obtain y zs where y: "ys = y # zs" by (cases ys) auto
        let ?q = "\<lparr>c_cc = 1, c_cf = 32 * b + 4, c_cl = 32 * b + 5\<rparr>"
        from putc_new [OF rep fr [unfolded Cons] dis [unfolded Cons], of y] obtain cs1 where
          p: "crep cs1 ?q [b] [int8 y]" "cframe cs bs fs cs1 [b] fs'" "putc cs y q = Ok (0, cs1, ?q)"
          using True e Cons by auto
        have b: "b \<noteq> 0" using fr Cons by (auto simp: frep_def)
        obtain cs0 where a0: "cballoc cs = Ok (b, cs0)"
          by (rule cballoc_spec [OF fr [unfolded Cons]])
        then have "cstore cs0 (32 * b + 4) y = Ok cs1"
          using p(3) e b by (simp add: putc_def)
        note c0 = a0 this
        have room: "croom cs1 ?q = croom cs q - 1"
          using p(2) fr e Cons by (simp add: croom_def cframe_def frep_def)
        define m where "m = nat (min (int (length zs)) (croom cs1 ?q))"
        have "0 \<le> croom cs1 ?q" using p(2) by (simp add: croom_def cframe_def frep_def)
        then have n: "n = Suc m" using room by (auto simp: n_def m_def y)
        obtain cs' q' bs' fs2 where c: "copied cs1 ?q [b] fs' [int8 y] zs m cs' q' bs' fs2"
          using b_to_q_loop_spec [OF p(1), of fs' zs] p(2) unfolding m_def cframe_def by blast
        have loop: "b_to_q_loop cs0 ys (32 * b + 4) = Ok (drop m zs, c_cl q', cs')"
          using c c0 by (simp add: copied_def y add.commute)
        have m: "m \<le> length zs" using le by (simp add: n y)
        have "q\<lparr>c_cf := 32 * b + 4, c_cl := c_cl q', c_cc := int (length ys) - int (length (drop m zs))\<rparr> = q'"
          by (rule clist.equality) (use c m in \<open>auto simp: copied_def y of_nat_diff\<close>)
        then have "b_to_q cs ys q = Ok (int (length (drop m zs)), cs', q')"
          using loop c0(1) b e ys by (simp add: b_to_q_def)
        then have "b_to_q cs ys q = Ok (int (length ys) - int n, cs', q')"
          using m by (simp add: y n of_nat_diff)
        moreover have "crep cs' q' bs' (xs @ map int8 (take n ys))"
          using c by (simp add: copied_def e y n)
        moreover have "croom cs' q' = croom cs q - int n" using c room by (simp add: copied_def n)
        ultimately show ?thesis
          using goal cframe_trans [OF p(2)] c unfolding copied_def by blast
      qed
    qed
  qed
qed

section \<open>The other operations\<close>

lemma addrs_length: "bs \<noteq> [] \<Longrightarrow> i < 28 \<Longrightarrow> 0 < j \<Longrightarrow> (length bs = 1 \<longrightarrow> i < j) \<Longrightarrow> length bs \<le> length (addrs bs i j)"
proof (induction bs i j rule: addrs.induct)
  case (3 b b' bs i j)
  then show ?case by (cases bs) auto
qed auto

lemma find_prev_spec:
  "chain cs (bs @ [b]) \<Longrightarrow> bs \<noteq> [] \<Longrightarrow> distinct (bs @ [b]) \<Longrightarrow> 0 \<notin> set (bs @ [b]) \<Longrightarrow> length bs \<le> fuel \<Longrightarrow>
   find_prev fuel cs (hd bs) b = Ok (last bs)"
proof (induction bs arbitrary: fuel)
  case (Cons a bs)
  then obtain f where f: "fuel = Suc f" by (cases fuel) auto
  have nx: "c_next cs a = hd (bs @ [b])" using Cons.prems(1) chain_next [of cs a "bs @ [b]"] by simp
  show ?case
  proof (cases "bs = []")
    case True
    then show ?thesis using nx Cons.prems f by (simp add: get_next_def)
  next
    case False
    have "find_prev f cs (hd bs) b = Ok (last bs)"
      using Cons.IH [of f] Cons.prems False f chain_tl [of cs a "bs @ [b]"] by simp
    then show ?thesis using nx Cons.prems f False by (cases bs) (auto simp: get_next_def)
  qed
qed simp

lemma unputc_snoc:
  assumes rep: "crep cs q bs (xs @ [x])" and fr: "frep cs fs" and dis: "set bs \<inter> set fs = {}"
  shows "\<exists>cs' q' bs' fs'. unputc cs q = Ok (x, cs', q') \<and> crep cs' q' bs' xs \<and> cframe cs bs fs cs' bs' fs'"
proof -
  have ne: "bs \<noteq> []" using rep by (auto simp: crep_def)
  then obtain i j where sp: "cspan q bs i j" and xs: "xs @ [x] = map (c_mem cs) (addrs bs i j)"
    using rep by (auto simp: crep_def)
  obtain k where k: "j = Suc k" "k < 28" using sp by (cases j) (auto simp: cspan_def)
  have wf: "distinct bs" "0 \<notin> set bs" "chain cs bs" "c_cc q = int (length xs) + 1"
    using rep by (auto simp: crep_def)
  have i: "i < 28" "length bs = 1 \<Longrightarrow> i \<le> k" using sp k by (auto simp: cspan_def)
  have cl1: "c_cl q - 1 = 32 * last bs + (4 + k)" using sp k by (simp add: cspan_def)
  have "(c_cl q - 1) div 32 = last bs" "(c_cl q - 1) mod 32 = 4 + k"
    unfolding cl1 using k(2) by (simp_all only: div_block add_less_cancel_left)
  note cl = cl1 this
  have xs': "xs = map (c_mem cs) (addrs bs i k)" and x: "x = c_mem cs (c_cl q - 1)"
    using xs addrs_Suc [OF ne i(2)] cl(1) by (auto simp: k(1) add.assoc)
  have l: "last bs \<noteq> 0" using crep_last [OF rep ne] by simp
  have ld: "cload cs (c_cl q - 1) = Ok x" using cl l x by (simp add: cload_def)
  consider (one) "xs = []" | (rear) "xs \<noteq> []" "k = 0" | (stay) "xs \<noteq> []" "0 < k" by blast
  then show ?thesis
  proof cases
    case one
    have "length bs = 1"
      using addrs_length [OF ne i(1), of j] sp xs one arg_cong [OF xs, of length] ne
      by (cases bs) (auto simp: cspan_def)
    then obtain b where b: "bs = [b]" by (cases bs) auto
    obtain cs' where c: "cbfree cs b = Ok cs'" "cframe cs [b] fs cs' [] (b # fs)"
      by (rule free_front [OF fr, of b "[]" "\<lparr>c_cc = 0, c_cf = 0, c_cl = 0\<rparr>" "[]"]) (use wf dis b in auto)
    have "unputc cs q = Ok (x, cs', \<lparr>c_cc = 0, c_cf = 0, c_cl = 0\<rparr>)"
      using wf(4) one cl ld c(1) b by (simp add: unputc_def Let_def)
    moreover have "crep cs' \<lparr>c_cc = 0, c_cf = 0, c_cl = 0\<rparr> [] xs" using one by simp
    ultimately show ?thesis using c(2) b by blast
  next
    case stay
    have "cspan (q\<lparr>c_cc := int (length xs), c_cl := c_cl q - 1\<rparr>) bs i k"
    proof -
      have "length bs = 1 \<longrightarrow> i < k"
      proof
        assume "length bs = 1"
        then obtain b where "bs = [b]" by (cases bs) auto
        then show "i < k" using xs' stay by (cases "i < k") auto
      qed
      then show ?thesis using sp stay k cl(1) by (auto simp: cspan_def)
    qed
    then have "crep cs (q\<lparr>c_cc := int (length xs), c_cl := c_cl q - 1\<rparr>) bs xs"
      by (rule crepI [OF _ xs' wf(1-3)]) simp
    moreover have "unputc cs q = Ok (x, cs, q\<lparr>c_cc := int (length xs), c_cl := c_cl q - 1\<rparr>)"
      using wf(4) stay cl ld by (simp add: unputc_def Let_def)
    ultimately show ?thesis using cframe_refl [OF fr dis] by blast
  next
    case rear
    define us b where "us = butlast bs" and "b = last bs"
    have bs: "bs = us @ [b]" using ne by (simp add: us_def b_def)
    have us: "us \<noteq> []"
    proof
      assume "us = []"
      then show False using xs' rear bs by simp
    qed
    have lu: "last us \<in> set us" using us by simp
    then have "last us \<noteq> 0" using wf(2) bs by (metis Un_iff set_append)
    then have ab: "b \<notin> set us" "last us \<in> set us" "last us \<noteq> 0" "b \<noteq> 0" "distinct us" "0 \<notin> set us" "b \<notin> set fs"
      using wf(1,2) bs dis lu by auto
    have "length bs \<le> length (xs @ [x])"
      using addrs_length [OF ne i(1), of j] sp xs unfolding cspan_def by (metis length_map)
    then have fp: "find_prev (nat (c_cc q)) cs (hd us) b = Ok (last us)"
      using find_prev_spec [of cs us b "nat (c_cc q)"] wf us by (simp add: bs)
    have nx: "c_next cs (last us) = b" using wf(3) us by (simp add: bs chain_append)
    have cf: "c_cf q div 32 = hd us" using sp us i(1) by (simp add: cspan_def bs)
    obtain cs1 where c: "cbfree cs b = Ok cs1" "frep cs1 (b # fs)" "agree (- {b}) cs cs1" "c_mem cs1 = c_mem cs"
      by (rule cbfree_spec [OF fr ab(4,7)])
    let ?cs = "cs1\<lparr>c_next := (c_next cs1)(last us := 0)\<rparr>"
    let ?q = "q\<lparr>c_cc := int (length xs), c_cl := 32 * last us + 32\<rparr>"
    have "unputc cs q = Ok (x, ?cs, ?q)"
      using wf(4) rear cl ld fp nx cf c(1) ab(3) bs by (simp add: unputc_def Let_def get_next_def set_next_def)
    moreover have "crep ?cs ?q us xs"
    proof (rule crepI [of _ _ i 28])
      show "cspan ?q us i 28" using sp us i by (simp add: cspan_def bs)
      show "xs = map (c_mem ?cs) (addrs us i 28)"
        using xs' rear c(4) by (simp add: bs addrs_extend [OF us])
      have "c_next ?cs (us ! m) = us ! Suc m" if "Suc m < length us" for m
      proof -
        have "us ! m \<noteq> last us" "us ! m \<noteq> b"
          using that ab us nth_eq_iff_index_eq [OF ab(5), of m "length us - 1"] nth_mem [of m us]
          by (auto simp: last_conv_nth)
        moreover have "c_next cs (us ! m) = us ! Suc m" using wf(3) that by (simp add: bs chain_append)
        ultimately show ?thesis using c(3) by (simp add: agree_def)
      qed
      then show "chain ?cs us" using chain_nth [OF us] by simp
    qed (use ab in auto)
    moreover have "cframe cs bs fs ?cs us (b # fs)"
    proof -
      have "frep ?cs (b # fs)"
        using ab bs dis by (intro frep_agree [OF c(2)]) (auto simp: agree_def)
      moreover have "agree (- (set bs \<union> set fs)) cs ?cs" using c(3) ab(2) by (auto simp: agree_def bs)
      ultimately show ?thesis using ab bs dis by (auto simp: cframe_def)
    qed
    ultimately show ?thesis by blast
  qed
qed

text \<open>The characters in the first block, and the list without some of them.\<close>

lemma crep_first_block:
  assumes rep: "crep cs q (b # bs) xs"
  obtains (single) "bs = []" "c_cl q = c_cf q + length xs" "xs = map (c_mem cs) [c_cf q..<c_cf q + length xs]"
      "(c_cl q - 1) div 32 = b" "c_cf q div 32 = b" "0 < length xs" "length xs \<le> 32 * b + 32 - c_cf q"
  | (more) ys k where "bs \<noteq> []" "k = 32 * b + 32 - c_cf q" "0 < k" "c_cf q + k = 32 * b + 32" "c_cf q div 32 = b"
      "(c_cl q - 1) div 32 \<noteq> b" "xs = map (c_mem cs) [c_cf q..<c_cf q + k] @ ys" "c_next cs b = hd bs"
      "crep cs (q\<lparr>c_cc := c_cc q - int k, c_cf := 32 * hd bs + 4\<rparr>) bs ys"
proof -
  obtain i j where sp: "cspan q (b # bs) i j" and xs: "xs = map (c_mem cs) (addrs (b # bs) i j)"
    using rep by (auto simp: crep_def)
  have ij: "i < 28" "0 < j" "j \<le> 28" "c_cf q = 32 * b + (4 + i)" "c_cl q = 32 * last (b # bs) + (4 + j)"
    using sp by (auto simp: cspan_def)
  have cf: "c_cf q div 32 = b" using ij by simp
  obtain k where k: "j = Suc k" "k < 28" using ij by (cases j) auto
  have cl: "(c_cl q - 1) div 32 = last (b # bs)" using k ij(5) by simp
  show ?thesis
  proof (cases bs)
    case Nil
    then have "i < j" using sp by (simp add: cspan_def)
    then have "c_cl q = c_cf q + (j - i)" using ij Nil by simp
    moreover have "length xs = j - i" using xs Nil by simp
    moreover have "xs = map (c_mem cs) [c_cf q..<c_cl q]" using xs Nil ij by (simp add: add.assoc)
    ultimately show ?thesis using single Nil cl cf \<open>i < j\<close> ij by simp
  next
    case (Cons b' bs')
    have d: "last bs \<noteq> b" using rep Cons last_in_set [of bs] by (auto simp: crep_def)
    have r: "xs = map (c_mem cs) [c_cf q..<c_cf q + (28 - i)] @ map (c_mem cs) (addrs bs 0 j)"
    proof -
      have "c_cf q + (28 - i) = 32 * b + 32" using ij by simp
      then show ?thesis using xs Cons ij by (simp add: add.assoc)
    qed
    have "crep cs (q\<lparr>c_cc := c_cc q - int (28 - i), c_cf := 32 * hd bs + 4\<rparr>) bs (map (c_mem cs) (addrs bs 0 j))"
    proof (rule crepI [of _ _ 0 j])
      show "cspan (q\<lparr>c_cc := c_cc q - int (28 - i), c_cf := 32 * hd bs + 4\<rparr>) bs 0 j"
        using ij Cons by (simp add: cspan_def)
      show "chain cs bs" "distinct bs" "0 \<notin> set bs"
        using rep Cons by (auto simp: crep_def)
      have "length xs = (28 - i) + length (addrs bs 0 j)" unfolding r by simp
      then show "c_cc (q\<lparr>c_cc := c_cc q - int (28 - i), c_cf := 32 * hd bs + 4\<rparr>) = int (length (map (c_mem cs) (addrs bs 0 j)))"
        using rep by (simp add: crep_def)
    qed simp
    moreover have "c_next cs b = hd bs" using rep Cons by (simp add: crep_def)
    ultimately show ?thesis
      using more [of "28 - i" "map (c_mem cs) (addrs bs 0 j)"] Cons ij cf cl d r by simp
  qed
qed

lemma crep_advance:
  assumes rep: "crep cs q (b # bs) xs" and n: "n < length xs" "c_cf q + n < 32 * b + 32"
  shows "crep cs (q\<lparr>c_cc := c_cc q - int n, c_cf := c_cf q + n\<rparr>) (b # bs) (drop n xs)"
proof -
  obtain i j where sp: "cspan q (b # bs) i j" and xs: "xs = map (c_mem cs) (addrs (b # bs) i j)"
    using rep by (auto simp: crep_def)
  have ij: "i < 28" "0 < j" "j \<le> 28" "c_cf q = 32 * b + 4 + i" using sp by (auto simp: cspan_def)
  have a: "addrs (b # bs) (i + n) j = drop n (addrs (b # bs) i j)"
    using n(2) ij by (cases bs) (simp_all add: drop_upt add.assoc)
  show ?thesis
  proof (rule crepI [of _ _ "i + n" j])
    show "cspan (q\<lparr>c_cc := c_cc q - int n, c_cf := c_cf q + n\<rparr>) (b # bs) (i + n) j"
    proof -
      have "length (b # bs) = 1 \<longrightarrow> i + n < j" using n(1) xs by auto
      then show ?thesis using sp n(2) ij by (simp add: cspan_def)
    qed
    show "drop n xs = map (c_mem cs) (addrs (b # bs) (i + n) j)" by (simp add: a xs drop_map)
  qed (use rep n(1) in \<open>auto simp: crep_def of_nat_diff\<close>)
qed

declare ndflush_loop.simps [simp del]

lemma ndflush_loop_spec:
  assumes "crep cs q bs xs" "frep cs fs" "set bs \<inter> set fs = {}" "xs \<noteq> []" "nat cc \<le> fuel"
  shows "\<exists>cs' q' bs' fs'. ndflush_loop fuel cs q cc = Ok (cs', q') \<and> cframe cs bs fs cs' bs' fs'
           \<and> (if nat cc < length xs then crep cs' q' bs' (drop (nat cc) xs) else c_cc q' = 0 \<and> bs' = [])"
  using assms
proof (induction fuel arbitrary: cs q bs xs fs cc)
  case 0
  then show ?case using cframe_refl [of cs fs bs] by (subst ndflush_loop.simps) auto
next
  case (Suc f)
  note rep = Suc.prems(1) and fr = Suc.prems(2) and dis = Suc.prems(3)
  obtain b bs' where bs: "bs = b # bs'" using rep Suc.prems(4) by (cases bs) (auto simp: crep_def)
  have cc: "c_cc q = int (length xs)" "b \<noteq> 0" "b \<notin> set bs'" using rep by (auto simp: crep_def bs)
  have dis': "set (b # bs') \<inter> set fs = {}" using dis bs by simp
  show ?case
  proof (cases "cc > 0")
    case False
    then show ?thesis
      using rep cframe_refl [OF fr dis] Suc.prems(4) by (subst ndflush_loop.simps) auto
  next
    case True
    then have c0: "cc > 0 \<and> c_cc q \<noteq> 0" using cc(1) Suc.prems(4) by simp
    have zero: "ndflush_loop f cs' q' c = Ok (cs', q')" if "c_cc q' = 0" for cs' q' c
      using that by (subst ndflush_loop.simps) simp
    note unf = ndflush_loop.simps [of "Suc f" cs q cc, unfolded if_P [OF c0]]
    from rep [unfolded bs] show ?thesis
    proof (cases rule: crep_first_block)
      case single
      show ?thesis
      proof (cases "int (length xs) \<le> cc")
        case True
        obtain cs1 where f1: "cbfree cs b = Ok cs1" "cframe cs (b # bs') fs (cwake cs1) bs' (b # fs)"
          by (rule free_front [OF fr dis' cc(2,3), of "\<lparr>c_cc = 0, c_cf = 0, c_cl = 0\<rparr>" "[]"]) (simp add: single(1))
        let ?q = "q\<lparr>c_cc := 0, c_cf := 32 * c_next cs b + 4\<rparr>"
        have "ndflush_loop (Suc f) cs q cc = Ok (cwake cs1, ?q)"
          unfolding unf using cc single True f1(1) by (simp add: Let_def get_next_def zero)
        moreover have "\<not> nat cc < length xs" using True by simp
        ultimately show ?thesis using f1(2) single(1) bs by auto
      next
        case False
        then have n: "nat cc < length xs" "c_cf q + nat cc < 32 * b + 32" using c0 single(7) by auto
        have "ndflush_loop (Suc f) cs q cc = Ok (cs, q\<lparr>c_cc := c_cc q - int (nat cc), c_cf := c_cf q + nat cc\<rparr>)"
          unfolding unf using cc single False c0 by (simp add: Let_def nat_add_distrib)
        then show ?thesis
          using crep_advance [OF rep [unfolded bs] n] cframe_refl [OF fr dis] n(1) bs by auto
      qed
    next
      case (more ys k)
      have len: "length xs = k + length ys" using arg_cong [OF more(7), of length] by simp
      have e: "32 * Suc b - c_cf q = k" using more(4) by simp
      have rem: "32 + 32 * int b - int (c_cf q) = int k" using more(4) by linarith
      have ys: "ys \<noteq> []" using more(1,9) crep_Nil by blast
      show ?thesis
      proof (cases "int k \<le> cc")
        case True
        let ?q = "q\<lparr>c_cc := c_cc q - int k, c_cf := 32 * hd bs' + 4\<rparr>"
        obtain cs1 where f1: "cbfree cs b = Ok cs1" "cframe cs (b # bs') fs (cwake cs1) bs' (b # fs)" "crep (cwake cs1) ?q bs' ys"
          by (rule free_front [OF fr dis' cc(2,3) more(9)])
        have nk: "nat (cc - int k) = nat cc - k" "k \<le> nat cc" using True by auto
        have "nat (cc - int k) \<le> f" using Suc.prems(5) more(3) nk by simp
        then obtain cs2 q2 bs2 fs2 where r: "ndflush_loop f (cwake cs1) ?q (cc - int k) = Ok (cs2, q2)"
            "cframe (cwake cs1) bs' (b # fs) cs2 bs2 fs2"
            "if nat (cc - int k) < length ys then crep cs2 q2 bs2 (drop (nat (cc - int k)) ys) else c_cc q2 = 0 \<and> bs2 = []"
          using Suc.IH [OF f1(3) _ _ ys, of "b # fs" "cc - int k"] f1(2) unfolding cframe_def by blast
        have "ndflush_loop (Suc f) cs q cc = Ok (cs2, q2)"
          unfolding unf using more(5,6,8) True cc(2) f1(1) r(1) rem by (simp add: Let_def get_next_def)
        moreover have "if nat cc < length xs then crep cs2 q2 bs2 (drop (nat cc) xs) else c_cc q2 = 0 \<and> bs2 = []"
        proof -
          have "drop (nat cc) xs = drop (nat cc - k) ys" using more(7) nk by simp
          then show ?thesis using r(3) nk(2) len unfolding nk(1) by (auto split: if_splits)
        qed
        ultimately show ?thesis using cframe_trans [OF f1(2) r(2)] bs by blast
      next
        case False
        have n: "nat cc < length xs" "c_cf q + nat cc < 32 * b + 32" using False len more(4) c0 by auto
        have pos: "int (length xs) - cc > 0" using n c0 by simp
        have "ndflush_loop (Suc f) cs q cc = Ok (cs, q\<lparr>c_cc := c_cc q - int (nat cc), c_cf := c_cf q + nat cc\<rparr>)"
          unfolding unf using more(5,6) False cc c0 rem pos by (simp add: Let_def nat_add_distrib)
        then show ?thesis
          using crep_advance [OF rep [unfolded bs] n] cframe_refl [OF fr dis] n(1) bs by auto
      qed
    qed
  qed
qed

lemma ndflush_spec:
  assumes rep: "crep cs q bs xs" and fr: "frep cs fs" and dis: "set bs \<inter> set fs = {}"
  shows "\<exists>cs' q' bs' fs'. ndflush cs q cc = Ok (cs', q') \<and> crep cs' q' bs' (drop (nat cc) xs) \<and> cframe cs bs fs cs' bs' fs'"
proof (cases "xs = []")
  case True
  then have "ndflush cs q cc = Ok (cs, q)" using rep by (simp add: ndflush_def crep_def)
  then show ?thesis using rep cframe_refl [OF fr dis] True by auto
next
  case False
  then have "0 < c_cc q" using rep by (simp add: crep_def)
  obtain cs' q' bs' fs' where r: "ndflush_loop (nat cc) cs q cc = Ok (cs', q')" "cframe cs bs fs cs' bs' fs'"
      "if nat cc < length xs then crep cs' q' bs' (drop (nat cc) xs) else c_cc q' = 0 \<and> bs' = []"
    using ndflush_loop_spec [OF rep fr dis False order_refl] by blast
  show ?thesis
  proof (cases "nat cc < length xs")
    case True
    then have c: "crep cs' q' bs' (drop (nat cc) xs)" using r(3) by simp
    then have "c_cc q' = int (length (drop (nat cc) xs))" unfolding crep_def by blast
    then have "0 < c_cc q'" using True by (simp only: length_drop of_nat_0_less_iff zero_less_diff)
    then show ?thesis using r(1,2) c \<open>0 < c_cc q\<close> by (auto simp: ndflush_def)
  next
    case False
    then have "ndflush cs q cc = Ok (cs', \<lparr>c_cc = 0, c_cf = 0, c_cl = 0\<rparr>)"
      using r \<open>0 < c_cc q\<close> by (simp add: ndflush_def)
    moreover have "crep cs' \<lparr>c_cc = 0, c_cf = 0, c_cl = 0\<rparr> [] (drop (nat cc) xs)" using False by simp
    moreover have "cframe cs bs fs cs' [] fs'" using r False by simp
    ultimately show ?thesis by blast
  qed
qed

lemma ndqb_scan_spec:
  "\<forall>a. p \<le> a \<and> a < p + n \<longrightarrow> a div 32 \<noteq> 0 \<Longrightarrow>
   ndqb_scan cs flag p n = Ok (int (length (takeWhile (\<lambda>x. x AND flag = 0) (map (c_mem cs) [p..<p + n]))))"
proof (induction n arbitrary: p)
  case (Suc n)
  have "[p..<p + Suc n] = p # [Suc p..<Suc p + n]" by (simp add: upt_conv_Cons)
  then show ?case using Suc by (simp add: cload_def)
qed simp

text \<open>The characters \<open>ndqb\<close> counts lie next to each other from \<open>c_cf\<close> on, and there is at least one.\<close>

lemma ndqb_spec:
  assumes rep: "crep cs q bs xs" and ne: "xs \<noteq> []"
  shows "\<exists>k. 0 < k \<and> k \<le> length xs \<and> map (c_mem cs) [c_cf q..<c_cf q + k] = take k xs
           \<and> ndqb cs q 0 = Ok (int k)
           \<and> (\<forall>flag. flag \<noteq> 0 \<longrightarrow> ndqb cs q flag = Ok (int (length (takeWhile (\<lambda>x. x AND flag = 0) (take k xs)))))"
proof -
  obtain b bs' where bs: "bs = b # bs'" using rep ne by (cases bs) (auto simp: crep_def)
  have cc: "c_cc q = int (length xs)" "b \<noteq> 0" using rep by (auto simp: crep_def bs)
  obtain i j where sp: "cspan q bs i j" using rep bs by (auto simp: crep_def)
  have cf: "i < 28" "c_cf q = 32 * b + (4 + i)" using sp by (auto simp: cspan_def bs)
  have n: "int (32 * ((c_cf q + 28) div 32)) - int (c_cf q) = int (32 * b + 32 - c_cf q)"
  proof -
    have "(c_cf q + 28) div 32 = Suc b" using cf by simp
    then show ?thesis using cf by simp
  qed
  define k where "k = min (length xs) (32 * b + 32 - c_cf q)"
  have k: "0 < k" "k \<le> length xs" "c_cf q + k \<le> 32 * b + 32" using ne cf by (auto simp: k_def)
  have mem: "map (c_mem cs) [c_cf q..<c_cf q + k] = take k xs"
    using rep [unfolded bs]
  proof (cases rule: crep_first_block)
    case single
    then have "k = length xs" by (simp add: k_def)
    then show ?thesis using single(3) by simp
  next
    case (more ys m)
    then have "length xs = m + length ys" using arg_cong [OF more(7), of length] by simp
    then have "k = m" using more(2) by (simp add: k_def)
    then show ?thesis using more(7) by (metis add_diff_cancel_left' append_eq_conv_conj length_map length_upt)
  qed
  have n0: "int ((CROUND + 1) * blockof (c_cf q + CBSIZE)) - int (c_cf q) = int (32 * b + 32 - c_cf q)"
    using n by simp
  have nd: "ndqb cs q flag = (if flag \<noteq> 0 then ndqb_scan cs flag (c_cf q) k else Ok (int k))" for flag
    unfolding ndqb_def Let_def n0 using ne cc(1) by (auto simp: k_def min_def)
  have "ndqb cs q 0 = Ok (int k)" by (simp add: nd)
  moreover have "ndqb cs q flag = Ok (int (length (takeWhile (\<lambda>x. x AND flag = 0) (take k xs))))" if "flag \<noteq> 0" for flag
  proof -
    have "\<forall>a. c_cf q \<le> a \<and> a < c_cf q + k \<longrightarrow> a div 32 \<noteq> 0"
    proof (intro allI impI)
      fix a assume "c_cf q \<le> a \<and> a < c_cf q + k"
      then have "32 * b \<le> a" using cf by simp
      then show "a div 32 \<noteq> 0" using cc(2) by (simp add: div_eq_0_iff)
    qed
    from ndqb_scan_spec [OF this] show ?thesis
      using that mem by (simp add: nd)
  qed
  ultimately show ?thesis using k mem by blast
qed

lemma addrs_nth_next:
  "distinct bs \<Longrightarrow> chain cs bs \<Longrightarrow> i < 28 \<Longrightarrow> 0 < j \<Longrightarrow> j \<le> 28 \<Longrightarrow> Suc n < length (addrs bs i j) \<Longrightarrow>
   addrs bs i j ! Suc n = (if (addrs bs i j ! n + 1) mod 32 = 0 then 32 * c_next cs ((addrs bs i j ! n) div 32) + 4
                           else addrs bs i j ! n + 1)"
proof (induction bs i j arbitrary: n rule: addrs.induct)
  case (2 b i j)
  then have n: "4 + i + n + 1 < 32" "i + n + 1 < j" by auto
  have a: "addrs [b] i j ! n + 1 = 32 * b + (4 + i + n + 1)" "addrs [b] i j ! Suc n = 32 * b + (4 + i + n + 1)"
    using n(2) by simp_all
  have "(32 * b + (4 + i + n + 1)) mod 32 \<noteq> 0" unfolding div_block(2) [OF n(1)] by simp
  then show ?case unfolding a by simp
next
  case (3 b b' bs i j)
  let ?A = "[32 * b + 4 + i..<32 * b + 32]" and ?B = "addrs (b' # bs) 0 j"
  have B0: "?B ! 0 = 32 * b' + 4" "?B \<noteq> []"
    using addrs_front [of 0 bs j b'] 3(5) by auto
  consider (inA) "Suc n < length ?A" | (edge) "Suc n = length ?A" | (inB) "length ?A \<le> n" by linarith
  then show ?case
  proof cases
    case inA
    then have n: "4 + i + n + 1 < 32" and n2: "Suc n < 28 - i" by auto
    have a: "addrs (b # b' # bs) i j ! n + 1 = 32 * b + (4 + i + n + 1)"
        "addrs (b # b' # bs) i j ! Suc n = 32 * b + (4 + i + n + 1)"
      using n n2 by (simp_all add: nth_append)
    have "(32 * b + (4 + i + n + 1)) mod 32 \<noteq> 0" unfolding div_block(2) [OF n] by simp
    then show ?thesis unfolding a by simp
  next
    case edge
    then have n: "i + n = 27" "n < length ?A" by auto
    have a: "addrs (b # b' # bs) i j ! n = 32 * b + 31" using n by (simp add: nth_append)
    have "addrs (b # b' # bs) i j ! Suc n = 32 * b' + 4"
      using edge B0 by (simp add: nth_append del: upt_Suc)
    then show ?thesis using 3(3) a by simp
  next
    case inB
    then obtain m where m: "n = length ?A + m" by (metis le_Suc_ex)
    have "Suc m < length ?B" using 3(7) m by simp
    from 3(1) [OF _ _ _ 3(5,6) this] 3(2,3) show ?thesis by (simp add: m nth_append)
  qed
qed simp

lemma addrs_distinct: "distinct bs \<Longrightarrow> j \<le> 28 \<Longrightarrow> distinct (addrs bs i j)"
proof (induction bs i j rule: addrs.induct)
  case (3 b b' bs i j)
  have "a div 32 \<noteq> b" if "a \<in> set (addrs (b' # bs) 0 j)" for a
    using addrs_blocks [OF that 3(3)] 3(2) by auto
  then show ?case using 3 by fastforce
qed auto

lemma nextc_spec:
  assumes rep: "crep cs q bs xs"
  shows "\<exists>A. map (c_mem cs) A = xs \<and> (xs \<noteq> [] \<longrightarrow> hd A = c_cf q)
           \<and> (\<forall>n<length xs. nextc cs q (A ! n) = Ok (if Suc n < length xs then A ! Suc n else 0))"
proof (cases "bs = []")
  case True
  then show ?thesis using rep by (auto simp: crep_def)
next
  case False
  then obtain i j where sp: "cspan q bs i j" and xs: "xs = map (c_mem cs) (addrs bs i j)"
    using rep by (auto simp: crep_def)
  have wf: "distinct bs" "chain cs bs" "0 \<notin> set bs" "c_cc q = int (length xs)" using rep by (auto simp: crep_def)
  have ij: "i < 28" "0 < j" "j \<le> 28" "length bs = 1 \<longrightarrow> i < j" "c_cf q = 32 * hd bs + 4 + i"
      "c_cl q = 32 * last bs + 4 + j" using sp by (auto simp: cspan_def)
  let ?A = "addrs bs i j"
  have h: "hd ?A = c_cf q"
    using ij False by (cases bs; cases "tl bs") (auto simp: upt_conv_Cons)
  have ne: "?A \<noteq> []" using addrs_length [OF False ij(1,2,4)] False by auto
  have lst: "last ?A + 1 = c_cl q"
  proof -
    obtain k where k: "j = Suc k" using ij(2) by (cases j) auto
    then have "?A = addrs bs i k @ [32 * last bs + 4 + k]" using addrs_Suc [OF False, of i k] ij(4) by auto
    then show ?thesis using ij(6) k by simp
  qed
  have dist: "distinct ?A" using wf(1) ij(3) by (rule addrs_distinct)
  have "nextc cs q (?A ! n) = Ok (if Suc n < length xs then ?A ! Suc n else 0)" if n: "n < length xs" for n
  proof (cases "Suc n < length xs")
    case True
    then have len: "Suc n < length ?A" using xs by simp
    have "?A ! n \<noteq> last ?A"
      using dist len ne by (simp add: last_conv_nth nth_eq_iff_index_eq)
    then have nl: "?A ! n + 1 \<noteq> c_cl q" using lst by simp
    have "?A ! n \<in> set ?A" using len by simp
    then have "(?A ! n) div 32 \<in> set bs" using addrs_blocks ij(3) by blast
    then have blk: "(?A ! n) div 32 \<noteq> 0" using wf(3) by metis
    have up: "(?A ! n + 1) div 32 - 1 = (?A ! n) div 32" if "(?A ! n + 1) mod 32 = 0"
      using that by (simp add: div_Suc mod_Suc split: if_splits)
    show ?thesis
      using addrs_nth_next [OF wf(1,2) ij(1-3) len] nl wf(4) True up blk
      by (auto simp: nextc_def get_next_def)
  next
    case False
    then have "n = length ?A - 1" using n xs by simp
    then have "?A ! n = last ?A" using ne by (simp add: last_conv_nth)
    then have "?A ! n + 1 = c_cl q" using lst by simp
    then show ?thesis using False by (simp add: nextc_def)
  qed
  then show ?thesis using xs h by blast
qed

lemma byte_mask: "x AND 255 = x mod (256 :: int)"
proof -
  have "mask 8 = (255 :: int)" by (simp add: mask_eq_exp_minus_1)
  then show ?thesis using take_bit_eq_mask [of 8 x] by (simp add: take_bit_eq_mod)
qed

lemma int8_mod [simp]: "int8 (x mod 256) = int8 x" "int8 x mod 256 = x mod 256"
proof -
  show "int8 (x mod 256) = int8 x" unfolding int8_def by (simp add: mod_add_left_eq)
  show "int8 x mod 256 = x mod 256"
    unfolding int8_def using mod_diff_left_eq [of "x + 128" 256 128] by simp
qed

lemma catq_spec:
  assumes "crep cs f bf xs" "crep cs t bt ys" "frep cs fs" "set bf \<inter> set fs = {}" "set bt \<inter> set fs = {}"
    "set bf \<inter> set bt = {}" "int (length xs) \<le> croom cs t"
  shows "\<exists>cs' f' t' bt' fs'. catq cs f t = Ok (cs', f', t') \<and> crep cs' f' [] [] \<and> crep cs' t' bt' (ys @ map int8 xs)
           \<and> frep cs' fs' \<and> set bt' \<inter> set fs' = {}"
  using assms
proof (induction xs arbitrary: cs f t bf bt fs ys)
  case Nil
  have "bf = []" "getc cs f = Ok (-1, cs, f)" using crep_Nil [OF Nil(1)] getc_Nil [OF Nil(1)] by auto
  then have "catq cs f t = Ok (cs, f, t)" by (simp add: catq.simps)
  then show ?case using Nil \<open>bf = []\<close> by auto
next
  case (Cons x xs)
  note ff = Cons.prems
  obtain cs1 f1 bf1 fs1 where g: "getc cs f = Ok (x AND 255, cs1, f1)" "crep cs1 f1 bf1 xs"
      "cframe cs bf fs cs1 bf1 fs1" "length fs \<le> length fs1"
    using getc_Cons [OF ff(1,3,4)] by blast
  have t1: "crep cs1 t bt ys"
    using crep_agree [OF ff(2)] g(3) ff(5,6) agree_mono [of "- (set bf \<union> set fs)" cs cs1 "set bt"]
    by (auto simp: cframe_def)
  have dis: "set bt \<inter> set fs1 = {}" "set bf1 \<inter> set bt = {}" "set bf1 \<inter> set fs1 = {}" "frep cs1 fs1"
    using g(3) ff(5,6) by (auto simp: cframe_def)
  have room: "int (length (x # xs)) \<le> croom cs1 t"
    using ff(3,7) dis(4) g(4) by (simp add: croom_def frep_def)
  then obtain cs2 t2 bt2 fs2 where p: "putc cs1 (x AND 255) t = Ok (0, cs2, t2)" "crep cs2 t2 bt2 (ys @ [int8 (x AND 255)])"
      "cframe cs1 bt fs1 cs2 bt2 fs2" "croom cs2 t2 = croom cs1 t - 1"
    using putc_spec [OF t1 dis(4,1), of "x AND 255"] by auto
  have f2: "crep cs2 f1 bf1 xs"
    using crep_agree [OF g(2)] p(3) dis(2,3) agree_mono [of "- (set bt \<union> set fs1)" cs1 cs2 "set bf1"]
    by (auto simp: cframe_def)
  have dis2: "set bf1 \<inter> set fs2 = {}" "set bt2 \<inter> set fs2 = {}" "set bf1 \<inter> set bt2 = {}" "frep cs2 fs2"
    using p(3) dis by (auto simp: cframe_def)
  have "catq cs f t = catq cs2 f1 t2"
    using g(1) p(1) by (subst catq.simps) (simp add: byte_mask)
  moreover have "int (length xs) \<le> croom cs2 t2" using room p(4) by simp
  ultimately show ?case
    using Cons.IH [OF f2 p(2) dis2(4,1,2,3)] by (simp add: byte_mask)
qed

section \<open>Character lists as queues\<close>

text \<open>
  What the drivers rely on: \<open>put\<close> answers 0 and appends while there is room, \<open>get\<close> answers the
  oldest character, or -1 when there is none.
\<close>

locale char_queue =
  fixes rep :: "'s \<Rightarrow> int list \<Rightarrow> bool"
    and room :: "'s \<Rightarrow> int"
    and put :: "'s \<Rightarrow> int \<Rightarrow> (int \<times> 's) outcome"
    and get :: "'s \<Rightarrow> (int \<times> 's) outcome"
  assumes put_room: "rep s xs \<Longrightarrow> 0 < room s \<Longrightarrow>
      \<exists>s'. put s c = Ok (0, s') \<and> rep s' (xs @ [c mod 256]) \<and> room s' = room s - 1"
    and put_full: "rep s xs \<Longrightarrow> \<not> 0 < room s \<Longrightarrow> \<exists>s'. put s c = Ok (-1, s') \<and> rep s' xs"
    and get_char: "rep s (x # xs) \<Longrightarrow> \<exists>s'. get s = Ok (x, s') \<and> rep s' xs \<and> room s \<le> room s'"
    and get_empty: "rep s [] \<Longrightarrow> \<exists>s'. get s = Ok (-1, s') \<and> rep s' []"
    and rep_bytes: "rep s xs \<Longrightarrow> x \<in> set xs \<Longrightarrow> 0 \<le> x"

datatype qop = Put int | Get

text \<open>A run of a client: the characters it got, those that were accepted, and the last state.\<close>

fun qrun :: "('s \<Rightarrow> int \<Rightarrow> (int \<times> 's) outcome) \<Rightarrow> ('s \<Rightarrow> (int \<times> 's) outcome) \<Rightarrow> 's \<Rightarrow> qop list \<Rightarrow>
    (int list \<times> int list \<times> 's) outcome" where
  "qrun put get s [] = Ok ([], [], s)"
| "qrun put get s (Put c # ops) =
     obind (put s c) (\<lambda>(r, s1). obind (qrun put get s1 ops) (\<lambda>(out, inp, s2).
       Ok (out, if r = 0 then c mod 256 # inp else inp, s2)))"
| "qrun put get s (Get # ops) =
     obind (get s) (\<lambda>(c, s1). obind (qrun put get s1 ops) (\<lambda>(out, inp, s2).
       Ok (if c = -1 then out else c # out, inp, s2)))"

context char_queue
begin

theorem fifo:
  "rep s xs \<Longrightarrow> \<exists>out inp s' ys. qrun put get s ops = Ok (out, inp, s') \<and> rep s' ys \<and> xs @ inp = out @ ys"
proof (induction ops arbitrary: s xs)
  case (Cons op ops)
  show ?case
  proof (cases op)
    case (Put c)
    obtain r s1 ys where p: "put s c = Ok (r, s1)" "rep s1 ys" "ys = (if r = 0 then xs @ [c mod 256] else xs)"
      using put_room [OF Cons.prems, of c] put_full [OF Cons.prems, of c] by (cases "0 < room s") auto
    then show ?thesis using Cons.IH [OF p(2)] by (fastforce simp: Put split: if_splits)
  next
    case Get
    show ?thesis
    proof (cases xs)
      case Nil
      then show ?thesis using Cons.prems get_empty [of s] Cons.IH by (fastforce simp: Get)
    next
      case xs: (Cons x ys)
      then obtain s1 where g: "get s = Ok (x, s1)" "rep s1 ys" using get_char Cons.prems by blast
      have "x \<noteq> -1" using rep_bytes [OF Cons.prems, of x] xs by auto
      then show ?thesis using Cons.IH [OF g(2)] g(1) by (fastforce simp: Get xs)
    qed
  qed
qed auto

end

type_synonym cqueue = "cpool \<times> clist"

definition cq_rep :: "cqueue \<Rightarrow> int list \<Rightarrow> bool" where
  "cq_rep s ys \<longleftrightarrow> (\<exists>bs fs xs. crep (fst s) (snd s) bs xs \<and> frep (fst s) fs \<and> set bs \<inter> set fs = {}
     \<and> ys = map (\<lambda>x. x mod 256) xs)"

definition cq_room :: "cqueue \<Rightarrow> int" where
  "cq_room s = croom (fst s) (snd s)"

definition cq_put :: "cqueue \<Rightarrow> int \<Rightarrow> (int \<times> cqueue) outcome" where
  "cq_put s c = putc (fst s) c (snd s)"

definition cq_get :: "cqueue \<Rightarrow> (int \<times> cqueue) outcome" where
  "cq_get s = getc (fst s) (snd s)"

lemma cq_repI: "crep cs q bs xs \<Longrightarrow> cframe cs0 bs0 fs0 cs bs fs \<Longrightarrow> cq_rep (cs, q) (map (\<lambda>x. x mod 256) xs)"
  by (auto simp: cq_rep_def cframe_def)

interpretation cq: char_queue cq_rep cq_room cq_put cq_get
proof
  fix s xs c assume "cq_rep s xs" "0 < cq_room s"
  then obtain bs fs ys where r: "crep (fst s) (snd s) bs ys" "frep (fst s) fs" "set bs \<inter> set fs = {}"
      "xs = map (\<lambda>x. x mod 256) ys" "0 < croom (fst s) (snd s)"
    by (auto simp: cq_rep_def cq_room_def)
  from putc_spec [OF r(1-3), of c] r(5) obtain cs' q' bs' fs' where
    p: "putc (fst s) c (snd s) = Ok (0, cs', q')" "crep cs' q' bs' (ys @ [int8 c])" "cframe (fst s) bs fs cs' bs' fs'"
       "croom cs' q' = croom (fst s) (snd s) - 1" by auto
  then show "\<exists>s'. cq_put s c = Ok (0, s') \<and> cq_rep s' (xs @ [c mod 256]) \<and> cq_room s' = cq_room s - 1"
    using cq_repI [OF p(2,3)] r(4) by (auto simp: cq_put_def cq_room_def)
next
  fix s xs c assume "cq_rep s xs" "\<not> 0 < cq_room s"
  then obtain bs fs ys where r: "crep (fst s) (snd s) bs ys" "frep (fst s) fs" "set bs \<inter> set fs = {}"
      "xs = map (\<lambda>x. x mod 256) ys" "\<not> 0 < croom (fst s) (snd s)"
    by (auto simp: cq_rep_def cq_room_def)
  from putc_spec [OF r(1-3), of c] r(5) obtain cs' where
    p: "putc (fst s) c (snd s) = Ok (-1, cs', snd s)" "crep cs' (snd s) bs ys" "cframe (fst s) bs fs cs' bs fs" by auto
  then show "\<exists>s'. cq_put s c = Ok (-1, s') \<and> cq_rep s' xs"
    using cq_repI [OF p(2,3)] r(4) by (auto simp: cq_put_def)
next
  fix s x xs assume "cq_rep s (x # xs)"
  then obtain bs fs y ys where r: "crep (fst s) (snd s) bs (y # ys)" "frep (fst s) fs" "set bs \<inter> set fs = {}"
      "x = y mod 256" "xs = map (\<lambda>x. x mod 256) ys"
    by (auto simp: cq_rep_def)
  from getc_Cons [OF r(1-3)] obtain cs' q' bs' fs' where
    g: "getc (fst s) (snd s) = Ok (y AND 255, cs', q')" "crep cs' q' bs' ys" "cframe (fst s) bs fs cs' bs' fs'"
      "croom (fst s) (snd s) \<le> croom cs' q'"
    by blast
  then show "\<exists>s'. cq_get s = Ok (x, s') \<and> cq_rep s' xs \<and> cq_room s \<le> cq_room s'"
    using cq_repI [OF g(2,3)] r(4,5) by (auto simp: cq_get_def cq_room_def byte_mask)
next
  fix s assume r: "cq_rep s []"
  then have "cq_get s = Ok (-1, s)"
    by (auto simp: cq_rep_def cq_get_def getc_Nil)
  with r show "\<exists>s'. cq_get s = Ok (-1, s') \<and> cq_rep s' []" by blast
qed (auto simp: cq_rep_def)

section \<open>Properties\<close>

text \<open>A pool of four blocks as \<open>cinit\<close> leaves it, and the queue of no characters.\<close>

definition pool4 :: cpool where
  "pool4 = \<lparr>c_next = (\<lambda>_. 0)(1 := 0, 2 := 1, 3 := 2, 4 := 3), c_mem = (\<lambda>_. 0), cfreelist = 4, cfreecount = 112,
            cwaiting = False, cwakeups = 0\<rparr>"

definition noq :: clist where
  "noq = \<lparr>c_cc = 0, c_cf = 0, c_cl = 0\<rparr>"

lemma pool4_ok: "frep pool4 [4, 3, 2, 1]" "crep pool4 noq [] []"
  by (simp_all add: frep_def pool4_def noq_def)

text \<open>
  C5: A character list is a first-in first-out queue of bytes: for every sequence of \<open>putc\<close> and
  \<open>getc\<close> calls, no call fails in memory, and what was in the list followed by the accepted bytes
  equals the bytes obtained followed by what is in the list at the end.
\<close>

theorem clist_fifo:
  assumes "cq_rep s xs"
  shows "\<exists>out inp s' ys. qrun cq_put cq_get s ops = Ok (out, inp, s') \<and> cq_rep s' ys \<and> xs @ inp = out @ ys"
  using assms by (rule cq.fifo)

theorem clist_fifo_witness:
  "\<exists>out inp s' ys. qrun cq_put cq_get (pool4, noq) [Put 300, Put 7, Get] = Ok (out, inp, s') \<and> cq_rep s' ys
     \<and> inp = out @ ys"
proof -
  have "set [] \<inter> set [4, 3, 2, 1 :: nat] = {}" by simp
  then have "cq_rep (pool4, noq) []" unfolding cq_rep_def using pool4_ok by (metis fst_conv snd_conv list.map(1))
  from clist_fifo [OF this, of "[Put 300, Put 7, Get]"] show ?thesis by simp
qed

text \<open>
  C26: \<open>b_to_q\<close> appends as many characters as the last block and the free blocks have room for and
  answers how many are left over, and \<open>q_to_b\<close> removes and returns the first \<open>cc\<close> characters.
\<close>

theorem clist_transfer:
  assumes "crep cs q bs xs" "frep cs fs" "set bs \<inter> set fs = {}"
  shows "(\<exists>cs' q' bs' fs'. b_to_q cs ys q = Ok (int (length ys) - min (int (length ys)) (croom cs q), cs', q')
            \<and> crep cs' q' bs' (xs @ map int8 (take (nat (croom cs q)) ys)) \<and> frep cs' fs' \<and> set bs' \<inter> set fs' = {})
       \<and> (\<exists>cs' q' bs' fs'. q_to_b cs q cc = Ok (take (nat cc) xs, cs', q')
            \<and> crep cs' q' bs' (drop (nat cc) xs) \<and> frep cs' fs' \<and> set bs' \<inter> set fs' = {})"
proof
  have nonneg: "0 \<le> croom cs q" using assms(2) by (simp add: croom_def frep_def)
  then have "int (nat (min (int (length ys)) (croom cs q))) = min (int (length ys)) (croom cs q)"
    "take (nat (min (int (length ys)) (croom cs q))) ys = take (nat (croom cs q)) ys"
    by (auto simp: min_def)
  then show "\<exists>cs' q' bs' fs'. b_to_q cs ys q = Ok (int (length ys) - min (int (length ys)) (croom cs q), cs', q')
            \<and> crep cs' q' bs' (xs @ map int8 (take (nat (croom cs q)) ys)) \<and> frep cs' fs' \<and> set bs' \<inter> set fs' = {}"
    using b_to_q_spec [OF assms, of ys] unfolding cframe_def Let_def by metis
next
  show "\<exists>cs' q' bs' fs'. q_to_b cs q cc = Ok (take (nat cc) xs, cs', q')
            \<and> crep cs' q' bs' (drop (nat cc) xs) \<and> frep cs' fs' \<and> set bs' \<inter> set fs' = {}"
  proof (cases "cc \<le> 0 \<or> xs = []")
    case True
    then have "q_to_b cs q cc = Ok (take (nat cc) xs, cs, q)" "drop (nat cc) xs = xs"
      using assms(1) by (auto simp: q_to_b_def dest: crep_Nil)
    then show ?thesis using assms by auto
  next
    case False
    then have "q_to_b cs q cc = q_to_b_loop cs q (nat cc)" using assms(1) by (simp add: q_to_b_def crep_def)
    then show ?thesis using q_to_b_loop_spec [OF assms, of "nat cc"] False unfolding cframe_def by metis
  qed
qed

theorem clist_transfer_witness:
  "\<exists>cs' q' bs'. b_to_q pool4 [5, 6, 200] noq = Ok (0, cs', q') \<and> crep cs' q' bs' [5, 6, -56]"
proof -
  have "croom pool4 noq = 112" by (simp add: croom_def pool4_def noq_def)
  then show ?thesis
    using clist_transfer [OF pool4_ok(2,1), of "[5, 6, 200]" 0] by (auto simp: int8_def)
qed

text \<open>
  What an output routine does: \<open>ndqb\<close> counts at least one and at most all characters that lie
  next to each other from \<open>c_cf\<close> on, they are the first ones of the list (with a flag, those
  before the first one that has a bit of it), and \<open>ndflush\<close> of any count removes exactly that
  many and returns their blocks.
\<close>

theorem clist_output:
  assumes "crep cs q bs xs" "frep cs fs" "set bs \<inter> set fs = {}" "xs \<noteq> []"
  shows "(\<exists>k. 0 < k \<and> k \<le> length xs \<and> ndqb cs q 0 = Ok (int k) \<and> map (c_mem cs) [c_cf q..<c_cf q + k] = take k xs
            \<and> (\<forall>flag. flag \<noteq> 0 \<longrightarrow> ndqb cs q flag = Ok (int (length (takeWhile (\<lambda>x. x AND flag = 0) (take k xs))))))
       \<and> (\<exists>cs' q' bs' fs'. ndflush cs q cc = Ok (cs', q') \<and> crep cs' q' bs' (drop (nat cc) xs)
            \<and> frep cs' fs' \<and> set bs' \<inter> set fs' = {} \<and> set bs' \<union> set fs' = set bs \<union> set fs)"
  using ndqb_spec [OF assms(1,4)] ndflush_spec [OF assms(1-3), of cc] unfolding cframe_def by blast

definition abq :: "cpool \<times> clist" where
  "abq = (case b_to_q pool4 [5, 6, 7] noq of Ok (_, cs, q) \<Rightarrow> (cs, q) | _ \<Rightarrow> (pool4, noq))"

lemma abq_ok: "crep (fst abq) (snd abq) [4] [5, 6, 7]" "frep (fst abq) [3, 2, 1]"
proof -
  have a: "cspan (snd abq) [4] 0 3" "[5, 6, 7] = map (c_mem (fst abq)) (addrs [4] 0 3)" by code_simp+
  have b: "chain (fst abq) [4]" "c_cc (snd abq) = 3" by code_simp+
  show "crep (fst abq) (snd abq) [4] [5, 6, 7]" by (rule crepI [OF a _ _ b(1)]) (use b(2) in simp_all)
  have "chain (fst abq) [3, 2, 1]" "cfreelist (fst abq) = 3" "cfreecount (fst abq) = 84" by code_simp+
  then show "frep (fst abq) [3, 2, 1]" by (simp add: frep_def)
qed

theorem clist_output_witness:
  "\<exists>cs' q' bs'. ndflush (fst abq) (snd abq) 2 = Ok (cs', q') \<and> crep cs' q' bs' [7]"
  using clist_output [OF abq_ok, of 2] by auto

text \<open>
  C29: \<open>unputc\<close> undoes \<open>putc\<close>: it returns the character and the list holds what it held before.
\<close>

theorem putc_unputc:
  assumes "crep cs q bs xs" "frep cs fs" "set bs \<inter> set fs = {}" "0 < croom cs q"
  shows "\<exists>cs1 q1. putc cs c q = Ok (0, cs1, q1)
     \<and> (\<exists>cs2 q2 bs2 fs2. unputc cs1 q1 = Ok (int8 c, cs2, q2) \<and> crep cs2 q2 bs2 xs
           \<and> frep cs2 fs2 \<and> set bs2 \<union> set fs2 = set bs \<union> set fs)"
proof -
  obtain cs1 q1 bs1 fs1 where p: "putc cs c q = Ok (0, cs1, q1)" "crep cs1 q1 bs1 (xs @ [int8 c])"
      "cframe cs bs fs cs1 bs1 fs1"
    using putc_spec [OF assms(1-3), of c] assms(4) by auto
  obtain cs2 q2 bs2 fs2 where u: "unputc cs1 q1 = Ok (int8 c, cs2, q2)" "crep cs2 q2 bs2 xs" "cframe cs1 bs1 fs1 cs2 bs2 fs2"
    using unputc_snoc [OF p(2)] p(3) unfolding cframe_def by blast
  then show ?thesis using p cframe_trans [OF p(3) u(3)] unfolding cframe_def by blast
qed

theorem putc_unputc_witness:
  "\<exists>cs1 q1. putc (fst abq) 9 (snd abq) = Ok (0, cs1, q1)
     \<and> (\<exists>cs2 q2 bs2. unputc cs1 q1 = Ok (9, cs2, q2) \<and> crep cs2 q2 bs2 [5, 6, 7])"
proof -
  have "0 < croom (fst abq) (snd abq)" by code_simp
  from putc_unputc [OF abq_ok _ this, of 9] show ?thesis by (auto simp: int8_def)
qed

text \<open>
  \<open>catq\<close> always ends; when the second list has room for them, it moves all characters of the
  first list to its end, in order.
\<close>

theorem catq_moves:
  assumes "crep cs f bf xs" "crep cs t bt ys" "frep cs fs" "set bf \<inter> set fs = {}" "set bt \<inter> set fs = {}"
    "set bf \<inter> set bt = {}" "int (length xs) \<le> croom cs t"
  shows "\<exists>cs' f' t' bt'. catq cs f t = Ok (cs', f', t') \<and> crep cs' f' [] [] \<and> crep cs' t' bt' (ys @ map int8 xs)"
  using catq_spec [OF assms] by blast

theorem catq_moves_witness:
  "\<exists>cs' f' t' bt'. catq (fst abq) (snd abq) noq = Ok (cs', f', t') \<and> crep cs' f' [] [] \<and> crep cs' t' bt' [5, 6, 7]"
proof -
  have "crep (fst abq) noq [] []" by (simp add: noq_def)
  moreover have "3 \<le> croom (fst abq) noq" by code_simp
  ultimately show ?thesis
    using catq_moves [OF abq_ok(1) _ abq_ok(2), of noq "[]" "[]"] by (simp add: int8_def)
qed

text \<open>
  Without that room \<open>catq\<close> loses characters and keeps later ones: with no free block left,
  the character that does not fit is dropped, and the next one goes in when the block of the
  first list has come free.
\<close>

definition full_pool :: cpool where
  "full_pool = \<lparr>c_next = (\<lambda>_. 0), c_mem = (\<lambda>a. int a mod 32), cfreelist = 0, cfreecount = 0,
                cwaiting = False, cwakeups = 0\<rparr>"

theorem catq_loses:
  "\<exists>cs f t cs' f' t' bt. crep cs f [1] [4, 5] \<and> crep cs t [2] (map int [4..<32]) \<and> frep cs []
     \<and> catq cs f t = Ok (cs', f', t') \<and> f' = noq \<and> crep cs' t' bt (map int [4..<32] @ [5])"
proof -
  let ?f = "\<lparr>c_cc = 2, c_cf = 36, c_cl = 38\<rparr>" and ?t = "\<lparr>c_cc = 28, c_cf = 68, c_cl = 96\<rparr>"
  have f: "crep full_pool ?f [1] [4, 5]"
  proof (rule crepI [of _ _ 0 2])
    show "[4, 5] = map (c_mem full_pool) (addrs [1] 0 2)" by code_simp
  qed (simp_all add: cspan_def full_pool_def)
  have t: "crep full_pool ?t [2] (map int [4..<32])"
  proof (rule crepI [of _ _ 0 28])
    show "map int [4..<32] = map (c_mem full_pool) (addrs [2] 0 28)" by code_simp
  qed (simp_all add: cspan_def full_pool_def)
  have fr: "frep full_pool []" by (simp add: frep_def full_pool_def)
  have "is_Ok (catq full_pool ?f ?t)" by code_simp
  then obtain cs' f' t' where c: "catq full_pool ?f ?t = Ok (cs', f', t')" by (metis is_OkE prod_cases3)
  let ?p = "\<lambda>r. case r of Ok (cs', f', t') \<Rightarrow> f' = noq \<and> cspan t' [2, 1] 0 1 \<and> chain cs' [2, 1] \<and> c_cc t' = 29
      \<and> map int [4..<32] @ [5] = map (c_mem cs') (addrs [2, 1] 0 1) | _ \<Rightarrow> False"
  have "?p (catq full_pool ?f ?t)" by code_simp
  then have r: "f' = noq" "cspan t' [2, 1] 0 1" "chain cs' [2, 1]" "c_cc t' = 29"
      "map int [4..<32] @ [5] = map (c_mem cs') (addrs [2, 1] 0 1)"
    by (simp_all add: c)
  have "crep cs' t' [2, 1] (map int [4..<32] @ [5])"
    by (rule crepI [OF r(2,5) _ _ r(3)]) (use r(4) in simp_all)
  then show ?thesis using f t fr c r(1) by blast
qed

end
