(* ===== verification/Ipc.thy ===== *)
theory Ipc
  imports Rmap
begin

text \<open>
  Common part of the System V IPC facilities (\<open>sys/ipc_subr.c\<close>, \<open>h/ipc.h\<close>) and the credential
  tests they use (\<open>groupmember\<close> and \<open>suser\<close> of \<open>sys/kern_prot.c\<close>): access permissions, and the
  search for or creation of the entry of a key.
\<close>

unbundle bit_operations_syntax

section \<open>State\<close>

text \<open>
  \<open>struct ipc_perm\<close>; all fields but the key are \<open>ushort\<close>, numbers between 0 and 65535.  Of the
  user area the facilities use the effective ids (signed \<open>short\<close>), the groups, the error code,
  the result and the accounting flags.
\<close>

record ipc_perm =
  uid :: int
  gid :: int
  cuid :: int
  cgid :: int
  mode :: int
  seq :: int
  key :: int

record uarea =
  u_uid :: int
  u_gid :: int
  u_groups :: "int list"
  u_error :: int
  u_rval1 :: int
  u_acflag :: int

definition IPC_ALLOC :: int where "IPC_ALLOC = 0x8000"
definition IPC_CREAT :: int where "IPC_CREAT = 0x200"
definition IPC_EXCL :: int where "IPC_EXCL = 0x400"
definition IPC_NOWAIT :: int where "IPC_NOWAIT = 0x800"
definition IPC_PRIVATE :: int where "IPC_PRIVATE = 0"

definition EPERM :: int where "EPERM = 1"
definition ENOENT :: int where "ENOENT = 2"
definition EINTR :: int where "EINTR = 4"
definition E2BIG :: int where "E2BIG = 7"
definition EAGAIN :: int where "EAGAIN = 11"
definition EACCES :: int where "EACCES = 13"
definition EEXIST :: int where "EEXIST = 17"
definition EINVAL :: int where "EINVAL = 22"
definition EFBIG :: int where "EFBIG = 27"
definition ENOSPC :: int where "ENOSPC = 28"
definition ERANGE :: int where "ERANGE = 34"
definition ENOMSG :: int where "ENOMSG = 75"
definition EIDRM :: int where "EIDRM = 77"

definition NGROUPS :: nat where "NGROUPS = 8"
definition NOGROUP :: int where "NOGROUP = -1"
definition ASU :: int where "ASU = 2"

lemmas errno_defs = EPERM_def ENOENT_def EINTR_def E2BIG_def EAGAIN_def EACCES_def EEXIST_def
  EINVAL_def EFBIG_def ENOSPC_def ERANGE_def ENOMSG_def EIDRM_def

lemmas ipc_flag_defs = IPC_ALLOC_def IPC_CREAT_def IPC_EXCL_def IPC_NOWAIT_def IPC_PRIVATE_def

section \<open>Credentials\<close>

text \<open>The loop of \<open>groupmember\<close> over \<open>u_groups\<close>, up to the first free place.\<close>

fun in_groups :: "int list \<Rightarrow> int \<Rightarrow> bool" where
  "in_groups [] g = False"
| "in_groups (x # xs) g = (if x = NOGROUP then False else if x = g then True else in_groups xs g)"

definition groupmember :: "uarea \<Rightarrow> int \<Rightarrow> bool" where
  "groupmember u g = (if u_gid u = g then True else in_groups (take NGROUPS (u_groups u)) g)"

definition suser :: "uarea \<Rightarrow> bool \<times> uarea" where
  "suser u =
     (if u_uid u = 0 then (True, u\<lparr>u_acflag := u_acflag u OR ASU\<rparr>)
      else (False, u\<lparr>u_error := EPERM\<rparr>))"

section \<open>Access permissions\<close>

text \<open>
  \<open>ipcaccess\<close> returns whether it fails.  The ids are compared as \<open>int\<close>: the effective id is
  sign-extended from \<open>short\<close>, the ids of the entry are zero-extended from \<open>ushort\<close>.
\<close>

definition ipcaccess :: "uarea \<Rightarrow> ipc_perm \<Rightarrow> int \<Rightarrow> bool \<times> uarea" where
  "ipcaccess u p m =
     (if u_uid u = 0 then (False, u)
      else
        (let m1 = (if u_uid u \<noteq> uid p \<and> u_uid u \<noteq> cuid p then
                     (let m2 = drop_bit 3 m
                      in if \<not> groupmember u (gid p) \<and> \<not> groupmember u (cgid p) then drop_bit 3 m2 else m2)
                   else m)
         in if m1 AND mode p \<noteq> 0 then (False, u) else (True, u\<lparr>u_error := EACCES\<rparr>)))"

section \<open>Search and creation of entries\<close>

text \<open>
  The array of facility structures is the list of their permission structures, which are their
  first members.  \<open>ipc_free\<close> is the loop for \<open>IPC_PRIVATE\<close>; \<open>ipc_search\<close> is the loop for the other
  keys, with the first entry that is not allocated in \<open>a\<close>.
\<close>

definition ipc_allocated :: "ipc_perm \<Rightarrow> bool" where
  "ipc_allocated p \<longleftrightarrow> mode p AND IPC_ALLOC \<noteq> 0"

fun ipc_free :: "ipc_perm list \<Rightarrow> nat \<Rightarrow> nat option" where
  "ipc_free [] i = None"
| "ipc_free (p # ps) i = (if ipc_allocated p then ipc_free ps (Suc i) else Some i)"

fun ipc_search :: "ipc_perm list \<Rightarrow> int \<Rightarrow> nat \<Rightarrow> nat option \<Rightarrow> nat option \<times> nat option" where
  "ipc_search [] k i a = (None, a)"
| "ipc_search (p # ps) k i a =
     (if ipc_allocated p then
        (if key p = k then (Some i, a) else ipc_search ps k (Suc i) a)
      else ipc_search ps k (Suc i) (if a = None then Some i else a))"

text \<open>The code at \<open>init:\<close>.\<close>

definition ipc_init :: "uarea \<Rightarrow> int \<Rightarrow> int \<Rightarrow> ipc_perm \<Rightarrow> ipc_perm" where
  "ipc_init u k flag p =
     p\<lparr>mode := uint16 (IPC_ALLOC OR (flag AND 0x1FF)), key := k,
       cuid := uint16 (u_uid u), uid := uint16 (u_uid u),
       cgid := uint16 (u_gid u), gid := uint16 (u_gid u)\<rparr>"

text \<open>
  \<open>ipcget\<close> returns the user area, the array and, unless it fails, the index of the entry and the
  status (0 found, 1 created).
\<close>

definition ipcget :: "uarea \<Rightarrow> ipc_perm list \<Rightarrow> int \<Rightarrow> int \<Rightarrow> uarea \<times> ipc_perm list \<times> (nat \<times> int) option" where
  "ipcget u ps k flag =
     (let fail = (\<lambda>e. (u\<lparr>u_error := e\<rparr>, ps, None));
          init = (\<lambda>i. (u, ps[i := ipc_init u k flag (ps ! i)], Some (i, 1)))
      in if k = IPC_PRIVATE then
           (case ipc_free ps 0 of None \<Rightarrow> fail ENOSPC | Some i \<Rightarrow> init i)
         else
           (case ipc_search ps k 0 None of
              (Some i, _) \<Rightarrow>
                if flag AND (IPC_CREAT OR IPC_EXCL) = IPC_CREAT OR IPC_EXCL then fail EEXIST
                else if (flag AND 0x1FF) AND NOT (mode (ps ! i)) \<noteq> 0 then fail EACCES
                else (u, ps, Some (i, 0))
            | (None, a) \<Rightarrow>
                if flag AND IPC_CREAT = 0 then fail ENOENT
                else (case a of None \<Rightarrow> fail ENOSPC | Some i \<Rightarrow> init i)))"

section \<open>Lemmas\<close>

lemma suser_simps [simp]:
  "fst (suser u) \<longleftrightarrow> u_uid u = 0" "u_uid (snd (suser u)) = u_uid u" "u_gid (snd (suser u)) = u_gid u"
  "u_groups (snd (suser u)) = u_groups u"
  by (simp_all add: suser_def)

lemma ipcaccess_error: "fst (ipcaccess u p m) \<Longrightarrow> snd (ipcaccess u p m) = u\<lparr>u_error := EACCES\<rparr>"
  by (auto simp: ipcaccess_def Let_def split: if_splits)

lemma ipcaccess_ok: "\<not> fst (ipcaccess u p m) \<Longrightarrow> snd (ipcaccess u p m) = u"
  by (auto simp: ipcaccess_def Let_def split: if_splits)

lemma ipcaccess_cases [consumes 1, case_names granted denied]:
  assumes "ipcaccess u p m = (b, u')"
  obtains "\<not> b" "u' = u" | "b" "u' = u\<lparr>u_error := EACCES\<rparr>"
  using assms ipcaccess_error [of u p m] ipcaccess_ok [of u p m] by (cases b) auto

lemma ipc_free_None: "ipc_free ps i = None \<longleftrightarrow> (\<forall>p\<in>set ps. ipc_allocated p)"
  by (induction ps arbitrary: i) auto

lemma ipc_free_Some:
  "ipc_free ps i = Some j \<Longrightarrow> i \<le> j \<and> j < i + length ps \<and> \<not> ipc_allocated (ps ! (j - i))"
proof (induction ps arbitrary: i)
  case (Cons p ps)
  then show ?case
    by (cases "ipc_allocated p") (fastforce simp: nth_Cons' dest: Suc_le_lessD)+
qed simp

lemma ipc_search_found:
  "ipc_search ps k i a = (Some j, a') \<Longrightarrow>
     i \<le> j \<and> j < i + length ps \<and> ipc_allocated (ps ! (j - i)) \<and> key (ps ! (j - i)) = k"
proof (induction ps arbitrary: i a)
  case (Cons p ps)
  then show ?case
    by (fastforce simp: nth_Cons' split: if_splits dest: Suc_le_lessD)
qed simp

lemma ipc_search_none:
  "ipc_search ps k i a = (None, a') \<Longrightarrow> \<forall>p\<in>set ps. ipc_allocated p \<longrightarrow> key p \<noteq> k"
  by (induction ps arbitrary: i a) (auto split: if_splits)

lemma ipc_search_avail:
  assumes "ipc_search ps k i a = (None, a')"
  shows "a' = (if a = None then ipc_free ps i else a)"
  using assms
proof (induction ps arbitrary: i a)
  case (Cons p ps)
  then show ?case by (cases "ipc_allocated p") (fastforce split: if_splits)+
qed auto

lemma ipc_allocated_bit: "ipc_allocated p \<longleftrightarrow> bit (mode p) 15"
proof -
  have a: "IPC_ALLOC = 2 ^ 15" by (simp add: IPC_ALLOC_def)
  show ?thesis unfolding ipc_allocated_def a by (simp only: and_exp_eq_0_iff_not_bit not_not)
qed

lemma bit_uint16: "bit (uint16 x) n \<longleftrightarrow> n < 16 \<and> bit x n"
proof -
  have "uint16 x = take_bit 16 x" by (simp add: uint16_def take_bit_eq_mod)
  then show ?thesis by (simp add: bit_take_bit_iff)
qed

lemma bit_mask9: "bit (0x1FF :: int) n \<longleftrightarrow> n < 9"
proof -
  have a: "(0x1FF :: int) = mask 9" by (simp add: mask_eq_exp_minus_1)
  show ?thesis unfolding a by (simp only: bit_mask_iff) simp
qed

lemma bit_IPC_ALLOC: "bit IPC_ALLOC n \<longleftrightarrow> n = 15"
proof -
  have a: "IPC_ALLOC = 2 ^ 15" by (simp add: IPC_ALLOC_def)
  show ?thesis unfolding a by (auto simp only: bit_exp_iff) simp_all
qed

lemma bit_init_mode: "bit (mode (ipc_init u k flag p)) n \<longleftrightarrow> n = 15 \<or> n < 9 \<and> bit flag n"
  by (auto simp: ipc_init_def bit_uint16 bit_or_iff bit_and_iff bit_mask9 bit_IPC_ALLOC)

lemma ipc_init_allocated [simp]: "ipc_allocated (ipc_init u k flag p)"
  by (simp add: ipc_allocated_bit bit_init_mode)

lemma ipc_init_simps [simp]:
  "key (ipc_init u k flag p) = k" "seq (ipc_init u k flag p) = seq p"
  "uid (ipc_init u k flag p) = uint16 (u_uid u)" "cuid (ipc_init u k flag p) = uint16 (u_uid u)"
  by (simp_all add: ipc_init_def)

text \<open>What \<open>ipcget\<close> may do: fail without a change, find an entry, or fill a free one.\<close>

lemma ipcget_cases [consumes 1, case_names failed found created]:
  assumes "ipcget u ps k flag = (u', ps', r)"
  obtains (failed) e where "r = None" "ps' = ps" "u' = u\<lparr>u_error := e\<rparr>" "e \<in> {ENOSPC, ENOENT, EEXIST, EACCES}"
  | (found) i where "r = Some (i, 0)" "i < length ps" "ps' = ps" "u' = u" "ipc_allocated (ps ! i)"
      "key (ps ! i) = k" "k \<noteq> IPC_PRIVATE"
  | (created) i where "r = Some (i, 1)" "i < length ps" "u' = u" "\<not> ipc_allocated (ps ! i)"
      "ps' = ps[i := ipc_init u k flag (ps ! i)]"
      "k \<noteq> IPC_PRIVATE \<Longrightarrow> \<forall>p\<in>set ps. ipc_allocated p \<longrightarrow> key p \<noteq> k"
proof (cases "k = IPC_PRIVATE")
  case True
  then show ?thesis
  proof (cases "ipc_free ps 0")
    case None
    then show ?thesis using assms True by (intro failed [of ENOSPC]) (auto simp: ipcget_def)
  next
    case (Some i)
    then show ?thesis
      using assms True ipc_free_Some [OF Some] by (intro created [of i]) (auto simp: ipcget_def)
  qed
next
  case False
  obtain f a where fa: "ipc_search ps k 0 None = (f, a)" by fastforce
  show ?thesis
  proof (cases f)
    case (Some i)
    note i = ipc_search_found [OF fa [unfolded Some]]
    show ?thesis
      using assms False fa Some i
      by (cases rule: disjE [OF excluded_middle, of "r = None"])
         (auto simp: ipcget_def Let_def split: if_splits intro: failed found)
  next
    case None
    have a: "a = ipc_free ps 0" using ipc_search_avail [OF fa [unfolded None]] by simp
    note keys = ipc_search_none [OF fa [unfolded None]]
    show ?thesis
    proof (cases "flag AND IPC_CREAT = 0 \<or> a = None")
      case True
      then show ?thesis
        using assms False fa None by (auto simp: ipcget_def Let_def split: if_splits intro: failed)
    next
      case c: False
      then obtain i where i: "a = Some i" by auto
      then show ?thesis
        using assms False fa None c keys ipc_free_Some [of ps 0 i] a
        by (intro created [of i]) (auto simp: ipcget_def)
    qed
  qed
qed

section \<open>Properties\<close>

text \<open>
  The textbook rule: the super-user may do everything; everybody else is judged by exactly one
  of the three classes of permission bits, the owner's, the group's or the others'.
\<close>

definition may_access :: "uarea \<Rightarrow> ipc_perm \<Rightarrow> nat \<Rightarrow> bool" where
  "may_access u p b =
     (if u_uid u = 0 then True
      else if u_uid u = uid p \<or> u_uid u = cuid p then bit (mode p) (6 + b)
      else if groupmember u (gid p) \<or> groupmember u (cgid p) then bit (mode p) (3 + b)
      else bit (mode p) b)"

lemma and_exp: "(2 ^ n :: int) AND m \<noteq> 0 \<longleftrightarrow> bit m n"
  by (simp add: and.commute and_exp_eq_0_iff_not_bit)

text \<open>
  C34: For a request of read (0400) or write (0200) permission, \<open>ipcaccess\<close> decides by the owner,
  group and other classes as the textbook rule does, and it changes the user area only to set
  \<open>EACCES\<close> when it refuses.
\<close>

theorem ipcaccess_textbook:
  "ipcaccess u p 0x100 = (if may_access u p 2 then (False, u) else (True, u\<lparr>u_error := EACCES\<rparr>))
   \<and> ipcaccess u p 0x80 = (if may_access u p 1 then (False, u) else (True, u\<lparr>u_error := EACCES\<rparr>))"
  using and_exp [of 8 "mode p"] and_exp [of 5 "mode p"] and_exp [of 2 "mode p"]
    and_exp [of 7 "mode p"] and_exp [of 4 "mode p"] and_exp [of 1 "mode p"]
  by (auto simp: ipcaccess_def may_access_def Let_def drop_bit_eq_div)

definition keys_unique :: "ipc_perm list \<Rightarrow> bool" where
  "keys_unique ps \<longleftrightarrow>
     (\<forall>i<length ps. \<forall>j<length ps. ipc_allocated (ps ! i) \<longrightarrow> ipc_allocated (ps ! j) \<longrightarrow>
        key (ps ! i) = key (ps ! j) \<longrightarrow> key (ps ! i) \<noteq> IPC_PRIVATE \<longrightarrow> i = j)"

text \<open>
  C30: No two allocated entries ever have the same public key.  \<open>ipcget\<close> keeps that so, returns an
  allocated entry of the key that it was asked for, and changes nothing but the one free entry
  that it fills; when it fails it changes nothing but the error code.
\<close>

theorem ipcget_keys_unique:
  assumes "keys_unique ps" "ipcget u ps k flag = (u', ps', r)"
  shows "keys_unique ps' \<and>
    (case r of
       None \<Rightarrow> ps' = ps \<and> u_error u' \<in> {ENOSPC, ENOENT, EEXIST, EACCES}
     | Some (i, status) \<Rightarrow> i < length ps \<and> ipc_allocated (ps' ! i) \<and> key (ps' ! i) = k \<and> u' = u
         \<and> (if status = 0 then ps' = ps else \<not> ipc_allocated (ps ! i) \<and> (\<exists>p. ps' = ps[i := p])))"
  using assms(2)
proof (cases rule: ipcget_cases)
  case (created i)
  have "keys_unique ps'"
    using assms(1) created(2,4,6)
    unfolding keys_unique_def created(5)
    by (auto simp: nth_list_update) (metis nth_mem)+
  then show ?thesis using created by auto
qed (use assms(1) in auto)

definition demo_perms :: "ipc_perm list" where
  "demo_perms =
     [\<lparr>uid = 10, gid = 5, cuid = 10, cgid = 5, mode = 0x81A4, seq = 3, key = 77\<rparr>,
      \<lparr>uid = 0, gid = 0, cuid = 0, cgid = 0, mode = 0, seq = 1, key = 78\<rparr>,
      \<lparr>uid = 11, gid = 5, cuid = 11, cgid = 5, mode = 0x8180, seq = 0, key = 79\<rparr>]"

definition demo_user :: uarea where
  "demo_user = \<lparr>u_uid = 10, u_gid = 5, u_groups = [20, 30, -1, 0, 0, 0, 0, 0], u_error = 0,
     u_rval1 = 0, u_acflag = 0\<rparr>"

lemma demo_keys: "keys_unique demo_perms"
  by (simp add: keys_unique_def demo_perms_def ipc_allocated_def IPC_ALLOC_def IPC_PRIVATE_def
      numeral_eq_Suc less_Suc_eq all_conj_distrib)

theorem ipcget_keys_unique_witness:
  "\<exists>ps'. ipcget demo_user demo_perms 78 0x380 = (demo_user, ps', Some (1, 1)) \<and> keys_unique ps'
     \<and> ipc_allocated (ps' ! 1) \<and> key (ps' ! 1) = 78"
proof -
  have "(case ipcget demo_user demo_perms 78 0x380 of (u', ps', r) \<Rightarrow> r = Some (1, 1) \<and> u' = demo_user)"
    by code_simp
  then obtain ps' where r: "ipcget demo_user demo_perms 78 0x380 = (demo_user, ps', Some (1, 1))"
    by auto
  then show ?thesis using ipcget_keys_unique [OF demo_keys r] by auto
qed

text \<open>
  An effective user id above 32767 (a negative \<open>short\<close>, such as that of \<open>nobody\<close>) is stored
  as an unsigned number, which never compares equal to it again: the creator of the entry is
  not recognised as its owner, and an entry with access for its owner only is closed to it.
\<close>

theorem ipc_negative_uid_locked_out:
  assumes "ipcget u ps k flag = (u', ps', Some (i, 1))" "- 32768 \<le> u_uid u" "u_uid u < 0"
    "\<forall>n<6. \<not> bit flag n"
  shows "u_uid u \<noteq> uid (ps' ! i) \<and> u_uid u \<noteq> cuid (ps' ! i)
    \<and> fst (ipcaccess u (ps' ! i) 0x100) \<and> fst (ipcaccess u (ps' ! i) 0x80)"
  using assms(1)
proof (cases rule: ipcget_cases)
  case (created j)
  have m: "mode (ps' ! i) = mode (ipc_init u k flag (ps ! i))" and "i = j" and
    ids: "uid (ps' ! i) = uint16 (u_uid u)" "cuid (ps' ! i) = uint16 (u_uid u)"
    using created by auto
  have ne: "u_uid u \<noteq> uint16 (u_uid u)" using uint16_range(1) [of "u_uid u"] assms(3) by linarith
  have "\<not> may_access u (ps' ! i) 2" "\<not> may_access u (ps' ! i) 1"
    using assms(3,4) ne by (auto simp: may_access_def ids m bit_init_mode)
  then show ?thesis
    using ne ids ipcaccess_textbook [of u "ps' ! i"] by simp
qed auto

theorem ipc_negative_uid_locked_out_witness:
  "case ipcget (demo_user\<lparr>u_uid := -2\<rparr>) demo_perms 78 0x380 of
     (u', ps', r) \<Rightarrow> r = Some (1, 1) \<and> -2 \<noteq> uid (ps' ! 1) \<and> -2 \<noteq> cuid (ps' ! 1)
       \<and> fst (ipcaccess (demo_user\<lparr>u_uid := -2\<rparr>) (ps' ! 1) 0x100)"
proof -
  let ?u = "demo_user\<lparr>u_uid := -2\<rparr>"
  have "case ipcget ?u demo_perms 78 0x380 of (u', ps', r) \<Rightarrow> r = Some (1, 1)" by code_simp
  then obtain u' ps' where r: "ipcget ?u demo_perms 78 0x380 = (u', ps', Some (1, 1))" by auto
  have "\<forall>n<6. \<not> bit (0x380 :: int) n" by code_simp
  then show ?thesis using ipc_negative_uid_locked_out [OF r] by (simp add: r)
qed

end
