(* ===== verification/Sem.thy ===== *)
theory Sem
  imports Ipc Kmem
begin

text \<open>
  The System V semaphore facility (\<open>sys/ipc_sem.c\<close>, \<open>h/sem.h\<close>): semaphore sets, atomic groups of
  operations, processes that sleep until a group can be done, and the adjustments that undo a
  process's operations when it exits.
\<close>

section \<open>State\<close>

text \<open>
  \<open>struct sem\<close>, \<open>struct semid_ds\<close>, \<open>struct sembuf\<close>, \<open>struct undo\<close>, \<open>struct sem_undo\<close> and \<open>struct
  seminfo\<close>.  Pointers into the arrays \<open>sema\<close>, \<open>sem\<close> and the pool \<open>semu\<close> of undo structures are
  indices.  The array \<open>un_ent\<close> of an undo structure has \<open>semume + 1\<close> entries, of which the first
  \<open>un_cnt\<close> are active.
\<close>

record sem =
  semval :: int
  sempid :: int
  semncnt :: int
  semzcnt :: int

record semid_ds =
  sem_perm :: ipc_perm
  sem_base :: nat
  sem_nsems :: int
  sem_otime :: int
  sem_ctime :: int

record sembuf =
  sem_num :: int
  sem_op :: int
  sem_flg :: int

record undo =
  un_aoe :: int
  un_num :: int
  un_id :: int

record sem_undo =
  un_np :: "nat option"
  un_cnt :: nat
  un_ent :: "undo list"

record seminfo =
  semmapsz :: int
  semmni :: int
  semmns :: int
  semmnu :: int
  semmsl :: int
  semopm :: int
  semume :: int
  semvmx :: int
  semaem :: int

text \<open>
  The channels that processes sleep on are the addresses of the two counters of a semaphore;
  \<open>wakeups\<close> lists the channels that \<open>wakeup\<close> was called for.  What is copied out to user memory
  is recorded in \<open>copied\<close>.  \<open>sem_undo_tab\<close> is the table \<open>sem_undo\<close>, one pointer per process;
  \<open>u_procp\<close> is the index of the current process, \<open>p_pid\<close> its process id, \<open>sem_time\<close> the time of day.
\<close>

datatype schan = Ncnt nat | Zcnt nat

datatype uout = OutDs semid_ds | OutVals "int list"

record sem_state =
  seminfo :: seminfo
  sema :: "semid_ds list"
  sems :: "sem list"
  semmap :: rmap
  sem_undo_tab :: "nat option list"
  semu :: "sem_undo list"
  semunp :: "nat option"
  semfup :: "nat option"
  kheap :: kmem_info
  ua :: uarea
  u_procp :: nat
  p_pid :: int
  sem_time :: int
  wakeups :: "schan list"
  copied :: "uout list"

text \<open>
  What the system calls get from user memory: the results of \<open>copyin\<close> (an error code, or the
  data) and of \<open>copyout\<close> (an error code, 0 for success).
\<close>

record ucopy =
  cin_ops :: "int + sembuf list"
  cin_vals :: "int + int list"
  cin_ds :: "int + semid_ds"
  cout :: int

definition SEM_UNDO :: int where "SEM_UNDO = 0x1000"
definition GETNCNT :: int where "GETNCNT = 3"
definition GETPID :: int where "GETPID = 4"
definition GETVAL :: int where "GETVAL = 5"
definition GETALL :: int where "GETALL = 6"
definition GETZCNT :: int where "GETZCNT = 7"
definition SETVAL :: int where "SETVAL = 8"
definition SETALL :: int where "SETALL = 9"
definition IPC_RMID :: int where "IPC_RMID = 0"
definition IPC_SET :: int where "IPC_SET = 1"
definition IPC_STAT :: int where "IPC_STAT = 2"
definition SEM_A :: int where "SEM_A = 0x80"
definition SEM_R :: int where "SEM_R = 0x100"
definition SEMBUFSZ :: int where "SEMBUFSZ = 6"

definition set_error :: "sem_state \<Rightarrow> int \<Rightarrow> sem_state" where
  "set_error s e = s\<lparr>ua := (ua s)\<lparr>u_error := e\<rparr>\<rparr>"

definition set_rval :: "sem_state \<Rightarrow> int \<Rightarrow> sem_state" where
  "set_rval s v = s\<lparr>ua := (ua s)\<lparr>u_rval1 := v\<rparr>\<rparr>"

definition sem_wakeup :: "sem_state \<Rightarrow> schan \<Rightarrow> sem_state" where
  "sem_wakeup s c = s\<lparr>wakeups := wakeups s @ [c]\<rparr>"

definition upd_sem :: "sem_state \<Rightarrow> nat \<Rightarrow> (sem \<Rightarrow> sem) \<Rightarrow> sem_state outcome" where
  "upd_sem s k f = obind (aget (sems s) k) (\<lambda>x. Ok (s\<lparr>sems := (sems s)[k := f x]\<rparr>))"

text \<open>The two ways a counter of waiting processes is cleared: when it is not 0, with a \<open>wakeup\<close>.\<close>

definition wake_ncnt :: "sem_state \<Rightarrow> nat \<Rightarrow> sem_state outcome" where
  "wake_ncnt s k = obind (aget (sems s) k) (\<lambda>x.
     if semncnt x \<noteq> 0 then
       Ok (sem_wakeup (s\<lparr>sems := (sems s)[k := x\<lparr>semncnt := 0\<rparr>]\<rparr>) (Ncnt k))
     else Ok s)"

definition wake_zcnt :: "sem_state \<Rightarrow> nat \<Rightarrow> sem_state outcome" where
  "wake_zcnt s k = obind (aget (sems s) k) (\<lambda>x.
     if semzcnt x \<noteq> 0 then
       Ok (sem_wakeup (s\<lparr>sems := (sems s)[k := x\<lparr>semzcnt := 0\<rparr>]\<rparr>) (Zcnt k))
     else Ok s)"

section \<open>Adjust on exit entries\<close>

text \<open>\<open>semaoe\<close>: the undo structure of the current process, a free one if it has none.\<close>

definition undo_struct :: "sem_state \<Rightarrow> (nat option \<times> sem_state) outcome" where
  "undo_struct s =
     obind (aget (sem_undo_tab s) (u_procp s)) (\<lambda>p. case p of
         Some up \<Rightarrow> Ok (Some up, s)
       | None \<Rightarrow>
           (case semfup s of
              None \<Rightarrow> Ok (None, s)
            | Some up \<Rightarrow> obind (aget (semu s) up) (\<lambda>x.
                Ok (Some up, s\<lparr>semfup := un_np x, semu := (semu s)[up := x\<lparr>un_np := None\<rparr>],
                               sem_undo_tab := (sem_undo_tab s)[u_procp s := Some up]\<rparr>))))"

text \<open>
  The search loop over the active entries, the loop \<open>while (uup2-- > uup) *(uup2 + 1) = *uup2\<close>
  that opens a gap at \<open>i\<close>, and the loop that closes the gap at \<open>i\<close> up to the last entry.
\<close>

fun undo_find :: "undo list \<Rightarrow> int \<Rightarrow> int \<Rightarrow> nat \<Rightarrow> nat \<times> bool" where
  "undo_find [] sid num i = (i, False)"
| "undo_find (e # es) sid num i =
     (if un_id e < sid \<or> un_id e = sid \<and> un_num e < num then undo_find es sid num (Suc i)
      else (i, un_id e = sid \<and> un_num e = num))"

fun undo_open :: "undo list \<Rightarrow> nat \<Rightarrow> nat \<Rightarrow> undo list" where
  "undo_open es i 0 = es"
| "undo_open es i (Suc j) = (if Suc j > i then undo_open (es[Suc j := es ! j]) i j else es)"

function undo_close :: "undo list \<Rightarrow> nat \<Rightarrow> nat \<Rightarrow> undo list" where
  "undo_close es i hi = (if i < hi then undo_close (es[i := es ! Suc i]) (Suc i) hi else es)"
  by pat_completeness auto
termination by (relation "measure (\<lambda>(es, i, hi). hi - i)") auto

declare undo_close.simps [simp del]

text \<open>
  Removal of an undo structure from the chain of active ones (in \<open>semaoe\<close> and \<open>semexit\<close>): \<open>fuel\<close>
  bounds the walk along the chain by the number of structures.
\<close>

fun undo_unlink_loop :: "nat \<Rightarrow> sem_undo list \<Rightarrow> nat \<Rightarrow> nat option \<Rightarrow> nat option \<Rightarrow> sem_undo list outcome" where
  "undo_unlink_loop fuel us up np None = Ok us"
| "undo_unlink_loop 0 us up np (Some up2) = Fault"
| "undo_unlink_loop (Suc fuel) us up np (Some up2) =
     obind (aget us up2) (\<lambda>x.
       if un_np x = Some up then Ok (us[up2 := x\<lparr>un_np := np\<rparr>])
       else undo_unlink_loop fuel us up np (un_np x))"

definition undo_unlink :: "sem_state \<Rightarrow> nat \<Rightarrow> sem_state outcome" where
  "undo_unlink s up =
     obind (aget (semu s) up) (\<lambda>x.
       if semunp s = Some up then Ok (s\<lparr>semunp := un_np x\<rparr>)
       else obind (undo_unlink_loop (length (semu s)) (semu s) up (un_np x) (semunp s))
              (\<lambda>us. Ok (s\<lparr>semu := us\<rparr>)))"

definition undo_clear_np :: "sem_state \<Rightarrow> nat \<Rightarrow> sem_state" where
  "undo_clear_np s up = s\<lparr>semu := (semu s)[up := (semu s ! up)\<lparr>un_np := None\<rparr>]\<rparr>"

text \<open>\<open>semaoe\<close>: a new entry at its place in the order, and the adjustment of an existing one.\<close>

definition undo_insert :: "sem_state \<Rightarrow> nat \<Rightarrow> sem_undo \<Rightarrow> nat \<Rightarrow> int \<Rightarrow> int \<Rightarrow> int \<Rightarrow> bool \<times> sem_state" where
  "undo_insert s up x i val sid num =
     (if int (un_cnt x) \<ge> semume (seminfo s) then (True, set_error s EINVAL)
      else
        (let x1 = (if un_cnt x = 0 then x\<lparr>un_np := semunp s\<rparr> else x);
             s1 = (if un_cnt x = 0 then s\<lparr>semunp := Some up\<rparr> else s);
             es = (undo_open (un_ent x) i (un_cnt x))
                    [i := \<lparr>un_aoe = int16 (- val), un_num = num, un_id = sid\<rparr>]
         in (False, s1\<lparr>semu := (semu s)[up := x1\<lparr>un_cnt := Suc (un_cnt x), un_ent := es\<rparr>]\<rparr>)))"

definition undo_adjust :: "sem_state \<Rightarrow> nat \<Rightarrow> sem_undo \<Rightarrow> nat \<Rightarrow> int \<Rightarrow> (bool \<times> sem_state) outcome" where
  "undo_adjust s up x i val =
     (let e = un_ent x ! i;
          a = int16 (un_aoe e - val);
          put = (\<lambda>v. s\<lparr>semu := (semu s)[up := x\<lparr>un_ent := (un_ent x)[i := e\<lparr>un_aoe := v\<rparr>]\<rparr>]\<rparr>)
      in if a > semaem (seminfo s) \<or> a < - semaem (seminfo s)
         then Ok (True, set_error (put (int16 (a + val))) ERANGE)
         else if a = 0 then
           (let n = un_cnt x - 1;
                es = undo_close ((un_ent x)[i := e\<lparr>un_aoe := a\<rparr>]) i n;
                s1 = s\<lparr>semu := (semu s)[up := x\<lparr>un_cnt := n, un_ent := es\<rparr>]\<rparr>
            in if n = 0 then obind (undo_unlink s1 up) (\<lambda>s2. Ok (False, undo_clear_np s2 up))
               else Ok (False, s1))
         else Ok (False, put a))"

definition semaoe :: "sem_state \<Rightarrow> int \<Rightarrow> int \<Rightarrow> int \<Rightarrow> (bool \<times> sem_state) outcome" where
  "semaoe s val sid num =
     (if val = 0 then Ok (False, s)
      else if val > semaem (seminfo s) \<or> val < - semaem (seminfo s)
      then Ok (True, set_error s ERANGE)
      else obind (undo_struct s) (\<lambda>(p, s1). case p of
          None \<Rightarrow> Ok (True, set_error s1 ENOSPC)
        | Some up \<Rightarrow> obind (aget (semu s1) up) (\<lambda>x.
            case undo_find (take (un_cnt x) (un_ent x)) sid num 0 of
              (i, found) \<Rightarrow>
                if \<not> found then Ok (undo_insert s1 up x i val sid num)
                else undo_adjust s1 up x i val)))"

text \<open>\<open>semunrm\<close>: the entries of one structure, and the walk along the chain.\<close>

function undo_squeeze :: "undo list \<Rightarrow> nat \<Rightarrow> nat \<Rightarrow> int \<Rightarrow> int \<Rightarrow> int \<Rightarrow> undo list \<times> nat" where
  "undo_squeeze es uc i sid low high =
     (if i < uc then
        (let e = es ! i
         in if sid < un_id e then (es, uc)
            else if sid > un_id e \<or> low > un_num e then undo_squeeze es uc (Suc i) sid low high
            else if high < un_num e then (es, uc)
            else undo_squeeze (undo_close es i (uc - 1)) (uc - 1) i sid low high)
      else (es, uc))"
  by pat_completeness auto
termination by (relation "measure (\<lambda>(es, uc, i, r). uc - i)") auto

declare undo_squeeze.simps [simp del]

fun semunrm_loop :: "nat \<Rightarrow> sem_state \<Rightarrow> int \<Rightarrow> int \<Rightarrow> int \<Rightarrow> nat option \<Rightarrow> nat option \<Rightarrow> sem_state outcome" where
  "semunrm_loop fuel s sid low high pp None = Ok s"
| "semunrm_loop 0 s sid low high pp (Some p) = Fault"
| "semunrm_loop (Suc fuel) s sid low high pp (Some p) =
     obind (aget (semu s) p) (\<lambda>x.
       case undo_squeeze (un_ent x) (un_cnt x) 0 sid low high of
         (es, uc) \<Rightarrow>
           (let x1 = x\<lparr>un_cnt := uc, un_ent := es\<rparr>
            in if uc = 0 then
                 (let us = (semu s)[p := x1\<lparr>un_np := None\<rparr>]
                  in case pp of
                       None \<Rightarrow>
                         semunrm_loop fuel (s\<lparr>semu := us, semunp := un_np x\<rparr>) sid low high None (un_np x)
                     | Some q \<Rightarrow>
                         semunrm_loop fuel (s\<lparr>semu := us[q := (us ! q)\<lparr>un_np := un_np x\<rparr>]\<rparr>)
                           sid low high pp (un_np x))
               else semunrm_loop fuel (s\<lparr>semu := (semu s)[p := x1]\<rparr>) sid low high (Some p) (un_np x)))"

definition semunrm :: "sem_state \<Rightarrow> int \<Rightarrow> int \<Rightarrow> int \<Rightarrow> sem_state outcome" where
  "semunrm s sid low high =
     semunrm_loop (length (semu s)) s sid (uint16 low) (uint16 high) None (semunp s)"

section \<open>Semaphore sets\<close>

text \<open>\<open>semconv\<close>: the index in \<open>sema\<close> of the set with the given id.\<close>

definition semconv :: "sem_state \<Rightarrow> int \<Rightarrow> (nat option \<times> sem_state) outcome" where
  "semconv s sid =
     (if sid < 0 then Ok (None, set_error s EINVAL)
      else if semmni (seminfo s) = 0 then Fault
      else
        (let k = nat (sid smod semmni (seminfo s))
         in obind (aget (sema s) k) (\<lambda>sp.
              if \<not> ipc_allocated (sem_perm sp) \<or> sid sdiv semmni (seminfo s) \<noteq> seq (sem_perm sp)
              then Ok (None, set_error s EINVAL)
              else Ok (Some k, s))))"

text \<open>\<open>semget\<close>; \<open>put_perms\<close> writes the permission structures that \<open>ipcget\<close> returns back.\<close>

definition put_perms :: "semid_ds list \<Rightarrow> ipc_perm list \<Rightarrow> semid_ds list" where
  "put_perms ds ps = map2 (\<lambda>d p. d\<lparr>sem_perm := p\<rparr>) ds ps"

definition put_sema :: "sem_state \<Rightarrow> nat \<Rightarrow> semid_ds \<Rightarrow> sem_state" where
  "put_sema s i d = s\<lparr>sema := (sema s)[i := d]\<rparr>"

definition semget :: "sem_state \<Rightarrow> int \<Rightarrow> int \<Rightarrow> int \<Rightarrow> sem_state outcome" where
  "semget s k nsems semflg =
     (case ipcget (ua s) (map sem_perm (sema s)) k semflg of
        (u1, ps, r) \<Rightarrow>
          (let s1 = s\<lparr>ua := u1, sema := put_perms (sema s) ps\<rparr>
           in case r of
                None \<Rightarrow> Ok s1
              | Some (i, status) \<Rightarrow>
                  (let sp = sema s1 ! i;
                       sid = int32 (seq (sem_perm sp) * semmni (seminfo s) + int i);
                       fail = (\<lambda>e. Ok (set_error (put_sema s1 i
                                        (sp\<lparr>sem_perm := (sem_perm sp)\<lparr>mode := 0\<rparr>\<rparr>)) e))
                   in if status \<noteq> 0 then
                        (if nsems \<le> 0 \<or> nsems > semmsl (seminfo s) then fail EINVAL
                         else obind (rmalloc (swapconf (kheap s)) (semmap s) nsems) (\<lambda>(a, mp).
                           if a = 0 then fail ENOSPC
                           else Ok (set_rval (put_sema (s1\<lparr>semmap := mp\<rparr>) i
                                      (sp\<lparr>sem_base := nat (a - 1), sem_nsems := uint16 nsems,
                                          sem_ctime := sem_time s, sem_otime := 0\<rparr>)) sid)))
                      else if nsems \<noteq> 0 \<and> sem_nsems sp < nsems then Ok (set_error s1 EINVAL)
                      else Ok (set_rval s1 sid))))"

text \<open>\<open>seminit\<close>: the map of all semaphores, and the chain of free undo structures.\<close>

fun link_undo :: "sem_undo list \<Rightarrow> nat \<Rightarrow> nat \<Rightarrow> sem_undo list" where
  "link_undo us i 0 = us[i := (us ! i)\<lparr>un_np := None\<rparr>]"
| "link_undo us i (Suc n) = link_undo (us[i := (us ! i)\<lparr>un_np := Some (Suc i)\<rparr>]) (Suc i) n"

definition seminit :: "sem_state \<Rightarrow> sem_state outcome" where
  "seminit s =
     obind (rminit (semmap s) (semmns (seminfo s)) 1 ''semmap'' (semmapsz (seminfo s))) (\<lambda>mp.
       Ok (s\<lparr>semmap := mp, semu := link_undo (semu s) 0 (nat (semmnu (seminfo s) - 1)),
             semfup := Some 0\<rparr>))"

text \<open>
  \<open>semctl\<close>.  The space for the values of a set is a block of the kernel heap that the code holds
  for the time of the command: \<open>with_block\<close> allocates it, runs the command and frees it.
\<close>

definition with_block :: "sem_state \<Rightarrow> int \<Rightarrow> (sem_state \<Rightarrow> sem_state outcome) \<Rightarrow> sem_state outcome" where
  "with_block s n f =
     obind (kmem_alloc (kheap s) n) (\<lambda>(p, h).
       if p = 0 \<and> n \<noteq> 0 then Fault
       else obind (f (s\<lparr>kheap := h\<rparr>)) (\<lambda>s1.
              obind (kmem_free (kheap s1) p n) (\<lambda>h1. Ok (s1\<lparr>kheap := h1\<rparr>))))"

definition is_owner :: "sem_state \<Rightarrow> ipc_perm \<Rightarrow> bool \<times> sem_state" where
  "is_owner s p =
     (if u_uid (ua s) \<noteq> uid p \<and> u_uid (ua s) \<noteq> cuid p
      then (fst (suser (ua s)), s\<lparr>ua := snd (suser (ua s))\<rparr>) else (True, s))"

fun rmid_sems :: "sem_state \<Rightarrow> nat \<Rightarrow> nat \<Rightarrow> sem_state outcome" where
  "rmid_sems s k 0 = Ok s"
| "rmid_sems s k (Suc n) =
     obind (upd_sem s k (\<lambda>x. x\<lparr>semval := 0, sempid := 0\<rparr>)) (\<lambda>s1.
     obind (wake_ncnt s1 k) (\<lambda>s2. obind (wake_zcnt s2 k) (\<lambda>s3. rmid_sems s3 (Suc k) n)))"

definition semctl_rmid :: "sem_state \<Rightarrow> int \<Rightarrow> nat \<Rightarrow> semid_ds \<Rightarrow> sem_state outcome" where
  "semctl_rmid s sid i sp =
     (case is_owner s (sem_perm sp) of
        (False, s1) \<Rightarrow> Ok s1
      | (True, s1) \<Rightarrow>
          obind (semunrm s1 sid 0 (sem_nsems sp)) (\<lambda>s2.
          obind (rmid_sems s2 (sem_base sp) (nat (sem_nsems sp))) (\<lambda>s3.
          obind (rmfree (semmap s3) (sem_nsems sp) (int (sem_base sp) + 1)) (\<lambda>mp.
            Ok (put_sema (s3\<lparr>semmap := mp\<rparr>) i
                  (sp\<lparr>sem_perm := (sem_perm sp)
                       \<lparr>seq := (if int32 (sid + semmni (seminfo s3)) < 0 then 0
                                else uint16 (seq (sem_perm sp) + 1)),
                        mode := 0\<rparr>\<rparr>))))))"

definition semctl_set :: "sem_state \<Rightarrow> nat \<Rightarrow> semid_ds \<Rightarrow> ucopy \<Rightarrow> sem_state outcome" where
  "semctl_set s i sp c =
     (case is_owner s (sem_perm sp) of
        (False, s1) \<Rightarrow> Ok s1
      | (True, s1) \<Rightarrow>
          (case cin_ds c of
             Inl e \<Rightarrow> Ok (set_error s1 e)
           | Inr d \<Rightarrow>
               Ok (put_sema (set_error s1 0) i
                     (sp\<lparr>sem_perm := (sem_perm sp)\<lparr>uid := uid (sem_perm d), gid := gid (sem_perm d),
                          mode := uint16 (mode (sem_perm d) AND 0x1FF OR IPC_ALLOC)\<rparr>,
                         sem_ctime := sem_time s\<rparr>))))"

definition sem_access :: "sem_state \<Rightarrow> semid_ds \<Rightarrow> int \<Rightarrow> (sem_state \<Rightarrow> sem_state outcome) \<Rightarrow> sem_state outcome" where
  "sem_access s sp m f =
     (case ipcaccess (ua s) (sem_perm sp) m of
        (True, u1) \<Rightarrow> Ok (s\<lparr>ua := u1\<rparr>)
      | (False, u1) \<Rightarrow> f (s\<lparr>ua := u1\<rparr>))"

text \<open>The commands for one semaphore check the access and the number first.\<close>

definition sem_one :: "sem_state \<Rightarrow> semid_ds \<Rightarrow> int \<Rightarrow> int \<Rightarrow> (sem_state \<Rightarrow> nat \<Rightarrow> sem \<Rightarrow> sem_state outcome) \<Rightarrow> sem_state outcome" where
  "sem_one s sp m semnum f =
     sem_access s sp m (\<lambda>s1.
       if semnum \<ge> sem_nsems sp then Ok (set_error s1 EINVAL)
       else obind (aget (sems s1) (sem_base sp + nat semnum)) (f s1 (sem_base sp + nat semnum)))"

definition semctl_getall :: "sem_state \<Rightarrow> semid_ds \<Rightarrow> ucopy \<Rightarrow> sem_state outcome" where
  "semctl_getall s sp c =
     sem_access s sp SEM_R (\<lambda>s1. with_block s1 (sem_nsems sp * 2) (\<lambda>s2.
       if sem_base sp + nat (sem_nsems sp) > length (sems s2) then Fault
       else
         (let vals = map semval (take (nat (sem_nsems sp)) (drop (sem_base sp) (sems s2)))
          in Ok (set_error (if cout c = 0 then s2\<lparr>copied := copied s2 @ [OutVals vals]\<rparr> else s2)
                   (cout c)))))"

text \<open>A new value wakes the processes that wait for a greater one, or for 0.\<close>

definition set_semval :: "sem_state \<Rightarrow> nat \<Rightarrow> int \<Rightarrow> sem_state outcome" where
  "set_semval s k v =
     obind (upd_sem s k (\<lambda>x. x\<lparr>semval := uint16 v\<rparr>)) (\<lambda>s1.
       if uint16 v \<noteq> 0 then wake_ncnt s1 k else wake_zcnt s1 k)"

definition semctl_setval :: "sem_state \<Rightarrow> int \<Rightarrow> int \<Rightarrow> semid_ds \<Rightarrow> int \<Rightarrow> sem_state outcome" where
  "semctl_setval s sid semnum sp arg =
     sem_one s sp SEM_A semnum (\<lambda>s1 k x.
       if uint32 arg > semvmx (seminfo s1) then Ok (set_error s1 ERANGE)
       else obind (set_semval s1 k arg) (\<lambda>s2.
            obind (upd_sem s2 k (\<lambda>x. x\<lparr>sempid := int16 (p_pid s2)\<rparr>)) (\<lambda>s3.
            semunrm s3 sid semnum semnum)))"

fun setall_loop :: "sem_state \<Rightarrow> nat \<Rightarrow> int list \<Rightarrow> sem_state outcome" where
  "setall_loop s k [] = Ok s"
| "setall_loop s k (v # vs) =
     obind (set_semval s k v) (\<lambda>s1.
     obind (upd_sem s1 k (\<lambda>x. x\<lparr>sempid := int16 (p_pid s1)\<rparr>)) (\<lambda>s2. setall_loop s2 (Suc k) vs))"

definition semctl_setall :: "sem_state \<Rightarrow> int \<Rightarrow> semid_ds \<Rightarrow> ucopy \<Rightarrow> sem_state outcome" where
  "semctl_setall s sid sp c =
     sem_access s sp SEM_A (\<lambda>s1. with_block s1 (sem_nsems sp * 2) (\<lambda>s2.
       case cin_vals c of
         Inl e \<Rightarrow> Ok (set_error s2 e)
       | Inr vals \<Rightarrow>
           (if \<exists>v\<in>set vals. v > semvmx (seminfo s2) then Ok (set_error s2 ERANGE)
            else obind (semunrm (set_error s2 0) sid 0 (sem_nsems sp)) (\<lambda>s3.
                 setall_loop s3 (sem_base sp) vals))))"

definition semctl :: "sem_state \<Rightarrow> int \<Rightarrow> int \<Rightarrow> int \<Rightarrow> int \<Rightarrow> ucopy \<Rightarrow> sem_state outcome" where
  "semctl s sid semnum cmd arg c =
     obind (semconv s sid) (\<lambda>(r, s0). case r of
         None \<Rightarrow> Ok s0
       | Some i \<Rightarrow>
           (let sp = sema s0 ! i; s1 = set_rval s0 0
            in if cmd = IPC_RMID then semctl_rmid s1 sid i sp
               else if cmd = IPC_SET then semctl_set s1 i sp c
               else if cmd = IPC_STAT then
                 sem_access s1 sp SEM_R (\<lambda>s2.
                   Ok (set_error (if cout c = 0 then s2\<lparr>copied := copied s2 @ [OutDs sp]\<rparr> else s2)
                         (cout c)))
               else if cmd = GETNCNT then
                 sem_one s1 sp SEM_R semnum (\<lambda>s2 k x. Ok (set_rval s2 (semncnt x)))
               else if cmd = GETPID then
                 sem_one s1 sp SEM_R semnum (\<lambda>s2 k x. Ok (set_rval s2 (sempid x)))
               else if cmd = GETVAL then
                 sem_one s1 sp SEM_R semnum (\<lambda>s2 k x. Ok (set_rval s2 (semval x)))
               else if cmd = GETALL then semctl_getall s1 sp c
               else if cmd = GETZCNT then
                 sem_one s1 sp SEM_R semnum (\<lambda>s2 k x. Ok (set_rval s2 (semzcnt x)))
               else if cmd = SETVAL then semctl_setval s1 sid semnum sp arg
               else if cmd = SETALL then semctl_setall s1 sid sp c
               else Ok (set_error s1 EINVAL)))"

section \<open>Semaphore operations\<close>

text \<open>\<open>semundo\<close>: takes the first \<open>n\<close> operations back, the last one first.\<close>

fun semundo :: "sem_state \<Rightarrow> sembuf list \<Rightarrow> nat \<Rightarrow> int \<Rightarrow> nat \<Rightarrow> sem_state outcome" where
  "semundo s ops 0 sid base = Ok s"
| "semundo s ops (Suc n) sid base =
     (let p = ops ! n
      in if sem_op p = 0 then semundo s ops n sid base
         else obind (upd_sem s (base + nat (sem_num p))
                       (\<lambda>x. x\<lparr>semval := uint16 (semval x - sem_op p)\<rparr>)) (\<lambda>s1.
              if sem_flg p AND SEM_UNDO \<noteq> 0
              then obind (semaoe s1 (int16 (- sem_op p)) sid (sem_num p))
                     (\<lambda>(fail, s2). semundo s2 ops n sid base)
              else semundo s1 ops n sid base))"

text \<open>
  The loop over the operations.  It ends when all are done (\<open>Passed\<close>), with an error (\<open>Refused\<close>),
  or at the call of \<open>sleep\<close> on a channel (\<open>Blocked\<close>); unless it passes, what was done is undone.
\<close>

datatype pass = Passed | Refused | Blocked schan

definition semop_add :: "sem_state \<Rightarrow> sembuf list \<Rightarrow> nat \<Rightarrow> sembuf \<Rightarrow> int \<Rightarrow> nat \<Rightarrow> nat \<Rightarrow> sem \<Rightarrow> (pass \<times> sem_state) outcome" where
  "semop_add s ops i p sid base k x =
     obind (if sem_op p + semval x > semvmx (seminfo s) then Ok (True, s)
            else if sem_flg p AND SEM_UNDO \<noteq> 0 then semaoe s (sem_op p) sid (sem_num p)
            else Ok (False, s)) (\<lambda>(fail, s1).
       if fail then
         obind (semundo (if u_error (ua s1) = 0 then set_error s1 ERANGE else s1) ops i sid base)
           (\<lambda>s2. Ok (Refused, s2))
       else
         obind (upd_sem s1 k (\<lambda>x. x\<lparr>semval := uint16 (semval x + sem_op p)\<rparr>)) (\<lambda>s2.
         obind (wake_ncnt s2 k) (\<lambda>s3.
         obind (aget (sems s3) k) (\<lambda>y.
         obind (if semval y = 0 then wake_zcnt s3 k else Ok s3) (\<lambda>s4. Ok (Passed, s4))))))"

definition semop_sub :: "sem_state \<Rightarrow> sembuf list \<Rightarrow> nat \<Rightarrow> sembuf \<Rightarrow> int \<Rightarrow> nat \<Rightarrow> nat \<Rightarrow> sem \<Rightarrow> (pass \<times> sem_state) outcome" where
  "semop_sub s ops i p sid base k x =
     (if semval x \<ge> - sem_op p then
        obind (if sem_flg p AND SEM_UNDO \<noteq> 0 then semaoe s (sem_op p) sid (sem_num p)
               else Ok (False, s)) (\<lambda>(fail, s1).
          if fail then obind (semundo s1 ops i sid base) (\<lambda>s2. Ok (Refused, s2))
          else
            obind (upd_sem s1 k (\<lambda>x. x\<lparr>semval := uint16 (semval x + sem_op p)\<rparr>)) (\<lambda>s2.
            obind (aget (sems s2) k) (\<lambda>y.
            obind (if semval y = 0 then wake_zcnt s2 k else Ok s2) (\<lambda>s3. Ok (Passed, s3)))))
      else
        obind (semundo s ops i sid base) (\<lambda>s1.
          if sem_flg p AND IPC_NOWAIT \<noteq> 0 then Ok (Refused, set_error s1 EAGAIN)
          else obind (upd_sem s1 k (\<lambda>x. x\<lparr>semncnt := uint16 (semncnt x + 1)\<rparr>))
                 (\<lambda>s2. Ok (Blocked (Ncnt k), s2))))"

definition semop_zero :: "sem_state \<Rightarrow> sembuf list \<Rightarrow> nat \<Rightarrow> sembuf \<Rightarrow> int \<Rightarrow> nat \<Rightarrow> nat \<Rightarrow> sem \<Rightarrow> (pass \<times> sem_state) outcome" where
  "semop_zero s ops i p sid base k x =
     (if semval x \<noteq> 0 then
        obind (semundo s ops i sid base) (\<lambda>s1.
          if sem_flg p AND IPC_NOWAIT \<noteq> 0 then Ok (Refused, set_error s1 EAGAIN)
          else obind (upd_sem s1 k (\<lambda>x. x\<lparr>semzcnt := uint16 (semzcnt x + 1)\<rparr>))
                 (\<lambda>s2. Ok (Blocked (Zcnt k), s2)))
      else Ok (Passed, s))"

definition semop_one :: "sem_state \<Rightarrow> sembuf list \<Rightarrow> nat \<Rightarrow> sembuf \<Rightarrow> int \<Rightarrow> nat \<Rightarrow> (pass \<times> sem_state) outcome" where
  "semop_one s ops i p sid base =
     (let k = base + nat (sem_num p)
      in obind (aget (sems s) k) (\<lambda>x.
           if sem_op p > 0 then semop_add s ops i p sid base k x
           else if sem_op p < 0 then semop_sub s ops i p sid base k x
           else semop_zero s ops i p sid base k x))"

fun semop_ops :: "sem_state \<Rightarrow> sembuf list \<Rightarrow> nat \<Rightarrow> sembuf list \<Rightarrow> int \<Rightarrow> nat \<Rightarrow> (pass \<times> sem_state) outcome" where
  "semop_ops s ops i [] sid base = Ok (Passed, s)"
| "semop_ops s ops i (p # ps) sid base =
     obind (semop_one s ops i p sid base) (\<lambda>(r, s1).
       if r = Passed then semop_ops s1 ops (Suc i) ps sid base else Ok (r, s1))"

text \<open>The check of permissions and semaphore numbers; it returns whether it fails.\<close>

fun semop_verify :: "sem_state \<Rightarrow> semid_ds \<Rightarrow> sembuf list \<Rightarrow> bool \<times> sem_state" where
  "semop_verify s sp [] = (False, s)"
| "semop_verify s sp (p # ps) =
     (case ipcaccess (ua s) (sem_perm sp) (if sem_op p \<noteq> 0 then SEM_A else SEM_R) of
        (True, u1) \<Rightarrow> (True, s\<lparr>ua := u1\<rparr>)
      | (False, u1) \<Rightarrow>
          if uint32 (sem_num p) \<ge> sem_nsems sp then (True, set_error (s\<lparr>ua := u1\<rparr>) EFBIG)
          else semop_verify (s\<lparr>ua := u1\<rparr>) sp ps)"

fun semop_pids :: "sem_state \<Rightarrow> nat \<Rightarrow> sembuf list \<Rightarrow> sem_state outcome" where
  "semop_pids s base [] = Ok s"
| "semop_pids s base (p # ps) =
     obind (upd_sem s (base + nat (sem_num p)) (\<lambda>x. x\<lparr>sempid := int16 (p_pid s)\<rparr>))
       (\<lambda>s1. semop_pids s1 base ps)"

text \<open>
  A \<open>semop\<close> call that sleeps keeps its arguments, the copy of the operations in the block \<open>w_buf\<close>
  of the kernel heap, the set and the channel on its stack until it is resumed.
\<close>

record semop_wait =
  w_id :: int
  w_sp :: nat
  w_buf :: int
  w_ops :: "sembuf list"
  w_chan :: schan

datatype sysres = Return sem_state | Wait semop_wait sem_state

definition semop_free :: "sem_state \<Rightarrow> int \<Rightarrow> sembuf list \<Rightarrow> sysres outcome" where
  "semop_free s buf ops =
     obind (kmem_free (kheap s) buf (SEMBUFSZ * int (length ops))) (\<lambda>h. Ok (Return (s\<lparr>kheap := h\<rparr>)))"

text \<open>The part from the loop to the return of the call or the call of \<open>sleep\<close>.\<close>

definition semop_run :: "sem_state \<Rightarrow> int \<Rightarrow> nat \<Rightarrow> int \<Rightarrow> sembuf list \<Rightarrow> sysres outcome" where
  "semop_run s sid i buf ops =
     obind (aget (sema s) i) (\<lambda>sp.
     obind (semop_ops s ops 0 ops sid (sem_base sp)) (\<lambda>(r, s1). case r of
         Passed \<Rightarrow>
           obind (semop_pids s1 (sem_base sp) ops) (\<lambda>s2.
             semop_free (put_sema s2 i ((sema s2 ! i)\<lparr>sem_otime := sem_time s2\<rparr>)) buf ops)
       | Refused \<Rightarrow> semop_free s1 buf ops
       | Blocked c \<Rightarrow>
           Ok (Wait \<lparr>w_id = sid, w_sp = i, w_buf = buf, w_ops = ops, w_chan = c\<rparr> s1)))"

definition semop :: "sem_state \<Rightarrow> int \<Rightarrow> int \<Rightarrow> ucopy \<Rightarrow> sysres outcome" where
  "semop s sid nsops c =
     obind (semconv s sid) (\<lambda>(r, s0). case r of
         None \<Rightarrow> Ok (Return s0)
       | Some i \<Rightarrow>
           if nsops > semopm (seminfo s0) then Ok (Return (set_error s0 E2BIG))
           else obind (kmem_alloc (kheap s0) (nsops * SEMBUFSZ)) (\<lambda>(buf, h).
             if buf = 0 \<and> nsops \<noteq> 0 then Fault
             else
               (let s1 = s0\<lparr>kheap := h\<rparr>
                in case cin_ops c of
                     Inl e \<Rightarrow>
                       obind (kmem_free (kheap s1) buf (SEMBUFSZ * nsops)) (\<lambda>h1.
                         Ok (Return (set_error (s1\<lparr>kheap := h1\<rparr>) e)))
                   | Inr ops \<Rightarrow>
                       (case semop_verify (set_error s1 0) (sema s1 ! i) ops of
                          (True, s2) \<Rightarrow> semop_free s2 buf ops
                        | (False, s2) \<Rightarrow> semop_run s2 sid i buf ops))))"

text \<open>
  The return of \<open>sleep\<close>: interrupted by a signal, or woken up; then the set must still be there
  and the loop starts over.
\<close>

definition semop_intr :: "sem_state \<Rightarrow> schan \<Rightarrow> sem_state outcome" where
  "semop_intr s c =
     (case c of
        Ncnt k \<Rightarrow> obind (aget (sems s) k) (\<lambda>x.
          if semncnt x \<le> 1
          then Ok (sem_wakeup (s\<lparr>sems := (sems s)[k := x\<lparr>semncnt := 0\<rparr>]\<rparr>) (Ncnt k))
          else Ok (s\<lparr>sems := (sems s)[k := x\<lparr>semncnt := semncnt x - 1\<rparr>]\<rparr>))
      | Zcnt k \<Rightarrow> obind (aget (sems s) k) (\<lambda>x.
          if semzcnt x \<le> 1
          then Ok (sem_wakeup (s\<lparr>sems := (sems s)[k := x\<lparr>semzcnt := 0\<rparr>]\<rparr>) (Zcnt k))
          else Ok (s\<lparr>sems := (sems s)[k := x\<lparr>semzcnt := semzcnt x - 1\<rparr>]\<rparr>)))"

definition semop_resume :: "sem_state \<Rightarrow> semop_wait \<Rightarrow> bool \<Rightarrow> sysres outcome" where
  "semop_resume s w interrupted =
     (if interrupted then
        obind (semop_intr s (w_chan w)) (\<lambda>s1. semop_free (set_error s1 EINTR) (w_buf w) (w_ops w))
      else
        obind (semconv s (w_id w)) (\<lambda>(r, s1). case r of
            None \<Rightarrow> semop_free (set_error s1 EIDRM) (w_buf w) (w_ops w)
          | Some _ \<Rightarrow> semop_run s1 (w_id w) (w_sp w) (w_buf w) (w_ops w)))"

section \<open>Process exit and the system call\<close>

text \<open>\<open>semexit\<close>: the loop over the entries, the last one first.\<close>

fun semexit_loop :: "sem_state \<Rightarrow> undo list \<Rightarrow> nat \<Rightarrow> sem_state outcome" where
  "semexit_loop s es 0 = Ok s"
| "semexit_loop s es (Suc i) =
     (let e = es ! i
      in obind (semconv s (un_id e)) (\<lambda>(r, s1). case r of
             None \<Rightarrow> semexit_loop s1 es i
           | Some d \<Rightarrow>
               (let k = sem_base (sema s1 ! d) + nat (un_num e)
                in obind (aget (sems s1) k) (\<lambda>x.
                     let v = semval x + un_aoe e
                     in if v < 0 \<or> v > semvmx (seminfo s1) then semexit_loop s1 es i
                        else
                          obind (upd_sem s1 k (\<lambda>x. x\<lparr>semval := v\<rparr>)) (\<lambda>s2.
                          obind (if v = 0 then wake_zcnt s2 k else Ok s2) (\<lambda>s3.
                          obind (if un_aoe e > 0 then wake_ncnt s3 k else Ok s3) (\<lambda>s4.
                            semexit_loop s4 es i)))))))"

definition semexit :: "sem_state \<Rightarrow> sem_state outcome" where
  "semexit s =
     obind (aget (sem_undo_tab s) (u_procp s)) (\<lambda>r. case r of
         None \<Rightarrow> Ok s
       | Some up \<Rightarrow>
           obind (aget (semu s) up) (\<lambda>x.
           obind (if un_cnt x = 0 then Ok s
                  else obind (semexit_loop s (un_ent x) (un_cnt x)) (\<lambda>s1.
                         undo_unlink (s1\<lparr>semu := (semu s1)[up := (semu s1 ! up)\<lparr>un_cnt := 0\<rparr>]\<rparr>) up))
             (\<lambda>s2. Ok (s2\<lparr>sem_undo_tab := (sem_undo_tab s2)[u_procp s2 := None],
                           semu := (semu s2)[up := (semu s2 ! up)\<lparr>un_np := semfup s2\<rparr>],
                           semfup := Some up\<rparr>))))"

definition semsys :: "sem_state \<Rightarrow> int \<Rightarrow> int \<Rightarrow> int \<Rightarrow> int \<Rightarrow> int \<Rightarrow> ucopy \<Rightarrow> sysres outcome" where
  "semsys s sid a0 a1 a2 a3 c =
     (if uint32 sid > 2 then Ok (Return (set_error s EINVAL))
      else if sid = 0 then obind (semctl s a0 (uint32 a1) a2 a3 c) (\<lambda>s1. Ok (Return s1))
      else if sid = 1 then obind (semget s a0 a1 a2) (\<lambda>s1. Ok (Return s1))
      else semop s a0 (uint32 a2) c)"

end
