(* ===== verification/Sem_Undo.thy ===== *)
theory Sem_Undo
  imports Sem
begin

text \<open>
  The adjust-on-exit entries of the semaphore facility: what the operations leave alone, the
  invariant of the undo structures and their two chains, and \<open>semaoe\<close> as an update of a table of
  adjustments.
\<close>

section \<open>What the operations leave alone\<close>

definition undo_frame :: "sem_state \<Rightarrow> sem_state \<Rightarrow> bool" where
  "undo_frame s s' \<longleftrightarrow>
     s' = s\<lparr>ua := ua s', sem_undo_tab := sem_undo_tab s', semu := semu s', semunp := semunp s',
            semfup := semfup s'\<rparr>"

lemma undo_frame_refl [simp]: "undo_frame s s"
  by (simp add: undo_frame_def)

lemma undo_frame_fields:
  assumes "undo_frame s s'"
  shows "seminfo s' = seminfo s" "sema s' = sema s" "sems s' = sems s" "semmap s' = semmap s"
    "kheap s' = kheap s" "u_procp s' = u_procp s" "p_pid s' = p_pid s" "sem_time s' = sem_time s"
    "wakeups s' = wakeups s" "copied s' = copied s"
  by (subst assms [unfolded undo_frame_def], simp)+

lemma undo_frame_trans: "undo_frame s s1 \<Longrightarrow> undo_frame s1 s2 \<Longrightarrow> undo_frame s s2"
  unfolding undo_frame_def by (cases s; cases s1; cases s2) auto

lemma undo_frame_upd [simp]:
  "undo_frame s (set_error s e)" "undo_frame s (s\<lparr>semu := us\<rparr>)" "undo_frame s (s\<lparr>semunp := q\<rparr>)"
  "undo_frame s (s\<lparr>semu := us, semunp := q\<rparr>)" "undo_frame s (set_error (s\<lparr>semu := us\<rparr>) e)"
  "undo_frame s (s\<lparr>semfup := f, semu := us, sem_undo_tab := t\<rparr>)" "undo_frame s (s\<lparr>ua := x\<rparr>)"
  "undo_frame s (undo_clear_np s up)" "undo_frame s (s\<lparr>semunp := q, semu := us\<rparr>)"
  by (simp_all add: undo_frame_def set_error_def undo_clear_np_def)

lemma undo_unlink_frame: "undo_unlink s up = Ok s' \<Longrightarrow> undo_frame s s'"
  by (auto simp: undo_unlink_def split: if_splits)

lemma undo_struct_frame: "undo_struct s = Ok (p, s') \<Longrightarrow> undo_frame s s'"
  by (auto simp: undo_struct_def split: option.splits)

lemma undo_insert_frame: "undo_insert s up x i val sid num = (b, s') \<Longrightarrow> undo_frame s s'"
  by (auto simp: undo_insert_def Let_def split: if_splits)

lemma undo_adjust_frame: "undo_adjust s up x i val = Ok (b, s') \<Longrightarrow> undo_frame s s'"
  by (auto simp: undo_adjust_def Let_def split: if_splits
      intro: undo_frame_trans [OF undo_frame_upd(2) undo_frame_trans [OF undo_unlink_frame undo_frame_upd(8)]])

text \<open>The active entries of an undo structure.\<close>

definition active :: "sem_undo \<Rightarrow> undo list" where
  "active x = take (un_cnt x) (un_ent x)"

lemma semaoe_eq:
  assumes "val \<noteq> 0" "\<not> val > semaem (seminfo s)" "\<not> val < - semaem (seminfo s)"
    "undo_struct s = Ok (Some up, s1)" "aget (semu s1) up = Ok x"
    "undo_find (active x) sid num 0 = (i, found)"
  shows "semaoe s val sid num =
    (if \<not> found then Ok (undo_insert s1 up x i val sid num) else undo_adjust s1 up x i val)"
  using assms by (simp add: semaoe_def active_def)

lemma semaoe_frame:
  assumes "semaoe s val sid num = Ok (b, s')"
  shows "undo_frame s s'"
proof (cases "val = 0 \<or> val > semaem (seminfo s) \<or> val < - semaem (seminfo s)")
  case True
  then show ?thesis using assms by (auto simp: semaoe_def split: if_splits)
next
  case False
  then obtain p s1 where 1: "undo_struct s = Ok (p, s1)"
    using assms by (auto simp: semaoe_def)
  note f = undo_struct_frame [OF 1]
  show ?thesis
  proof (cases p)
    case None
    then show ?thesis using assms False 1 f by (auto simp: semaoe_def intro: undo_frame_trans)
  next
    case (Some up)
    then obtain x where x: "aget (semu s1) up = Ok x" using assms False 1 by (auto simp: semaoe_def)
    obtain i found where "undo_find (active x) sid num 0 = (i, found)" by fastforce
    from semaoe_eq [OF _ _ _ 1 [unfolded Some] x this] have
      "Ok (b, s') = (if \<not> found then Ok (undo_insert s1 up x i val sid num) else undo_adjust s1 up x i val)"
      using False assms by simp
    then show ?thesis
      using undo_frame_trans [OF f] undo_insert_frame undo_adjust_frame by (simp split: if_splits; metis)
  qed
qed

lemma semunrm_loop_frame: "semunrm_loop fuel s sid low high pp q = Ok s' \<Longrightarrow> undo_frame s s'"
proof (induction fuel s sid low high pp q rule: semunrm_loop.induct)
  case (3 fuel s sid low high pp p)
  obtain x where x: "aget (semu s) p = Ok x" using 3(4) by auto
  obtain es c where q: "undo_squeeze (un_ent x) (un_cnt x) 0 sid low high = (es, c)" by fastforce
  note IH = 3(1-3) [OF x q [symmetric] refl]
  show ?case
  proof (cases "c = 0")
    case True
    then show ?thesis
      using 3(4) x q IH(1,2) [OF True refl]
      by (cases pp) (auto simp: Let_def intro: undo_frame_trans [OF undo_frame_upd(2)] undo_frame_trans [OF undo_frame_upd(4)])
  next
    case False
    then show ?thesis
      using 3(4) x q IH(3) [OF False] by (auto simp: Let_def intro: undo_frame_trans [OF undo_frame_upd(2)])
  qed
qed auto

lemma semunrm_frame: "semunrm s sid low high = Ok s' \<Longrightarrow> undo_frame s s'"
  by (auto simp: semunrm_def dest: semunrm_loop_frame)

section \<open>The active entries of an undo structure\<close>

definition ukey :: "undo \<Rightarrow> int \<times> int" where
  "ukey e = (un_id e, un_num e)"

definition ult :: "int \<times> int \<Rightarrow> int \<times> int \<Rightarrow> bool" where
  "ult a b \<longleftrightarrow> fst a < fst b \<or> fst a = fst b \<and> snd a < snd b"

abbreviation usorted :: "undo list \<Rightarrow> bool" where
  "usorted \<equiv> sorted_wrt (\<lambda>e f. ult (ukey e) (ukey f))"

definition ent_aoe :: "undo list \<Rightarrow> int \<times> int \<Rightarrow> int" where
  "ent_aoe es k = (\<Sum>e\<leftarrow>es. if ukey e = k then un_aoe e else 0)"

lemma ult_irrefl [simp]: "\<not> ult a a" by (simp add: ult_def)
lemma ult_trans: "ult a b \<Longrightarrow> ult b c \<Longrightarrow> ult a c" by (auto simp: ult_def)
lemma ult_total: "\<not> ult a b \<Longrightarrow> a \<noteq> b \<Longrightarrow> ult b a" by (auto simp: ult_def prod_eq_iff)
lemma ult_asym: "ult a b \<Longrightarrow> \<not> ult b a" by (auto simp: ult_def)

lemma ent_aoe_simps [simp]:
  "ent_aoe [] k = 0"
  "ent_aoe (e # es) k = (if ukey e = k then un_aoe e else 0) + ent_aoe es k"
  "ent_aoe (es @ fs) k = ent_aoe es k + ent_aoe fs k"
  by (simp_all add: ent_aoe_def)

lemma ent_aoe_absent: "k \<notin> ukey ` set es \<Longrightarrow> ent_aoe es k = 0"
  by (induction es) auto

lemma usorted_keys_distinct: "usorted es \<Longrightarrow> distinct (map ukey es)"
  by (induction es) auto

lemma ent_aoe_present: "usorted es \<Longrightarrow> e \<in> set es \<Longrightarrow> ent_aoe es (ukey e) = un_aoe e"
proof (induction es)
  case (Cons f es)
  then have "\<forall>g\<in>set es. ukey f \<noteq> ukey g" by auto
  with Cons show ?case
    by (cases "e = f") (auto intro!: ent_aoe_absent)
qed simp

lemma undo_find_spec:
  assumes "undo_find es sid num j = (i, b)" "usorted es"
  shows "\<exists>A B. es = A @ B \<and> i = j + length A \<and> (\<forall>e\<in>set A. ult (ukey e) (sid, num))
    \<and> (if b then B \<noteq> [] \<and> ukey (hd B) = (sid, num) else \<forall>e\<in>set B. ult (sid, num) (ukey e))"
  using assms
proof (induction es arbitrary: j)
  case (Cons e es)
  show ?case
  proof (cases "un_id e < sid \<or> un_id e = sid \<and> un_num e < num")
    case True
    then have lt: "ult (ukey e) (sid, num)" by (auto simp: ult_def ukey_def)
    have "undo_find es sid num (Suc j) = (i, b)" using Cons.prems True by simp
    from Cons.IH [OF this] Cons.prems obtain A B where
      "es = A @ B" "i = Suc j + length A" "\<forall>e\<in>set A. ult (ukey e) (sid, num)"
      "if b then B \<noteq> [] \<and> ukey (hd B) = (sid, num) else \<forall>e\<in>set B. ult (sid, num) (ukey e)"
      by auto
    with lt show ?thesis by (intro exI [of _ "e # A"] exI [of _ B]) auto
  next
    case False
    then have b: "i = j" "b \<longleftrightarrow> ukey e = (sid, num)" using Cons.prems by (auto simp: ukey_def)
    have "\<not> ult (ukey e) (sid, num)" using False by (auto simp: ult_def ukey_def)
    then have "\<not> b \<Longrightarrow> ult (sid, num) (ukey e)" using ult_total b by blast
    moreover have "\<forall>f\<in>set es. ult (ukey e) (ukey f)" using Cons.prems by simp
    ultimately have "\<not> b \<Longrightarrow> \<forall>f\<in>set (e # es). ult (sid, num) (ukey f)"
      by (metis set_ConsD ult_trans)
    then have "if b then ukey e = (sid, num) else \<forall>f\<in>set (e # es). ult (sid, num) (ukey f)"
      using b(2) by simp
    with b(1) show ?thesis by (intro exI [of _ "[]"] exI [of _ "e # es"]) auto
  qed
qed auto

lemma undo_open_length [simp]: "length (undo_open es i n) = length es"
  by (induction es i n rule: undo_open.induct) auto

lemma undo_open_spec:
  "i \<le> n \<Longrightarrow> n < length es \<Longrightarrow>
     take (Suc n) ((undo_open es i n)[i := e]) = take i es @ e # drop i (take n es)"
proof (induction es i n rule: undo_open.induct)
  case (2 es i j)
  show ?case
  proof (cases "i = Suc j")
    case False
    then have ij: "i \<le> j" "j < length es" using 2 by auto
    let ?fs = "es[Suc j := es ! j]"
    have "take (Suc j) ((undo_open ?fs i j)[i := e]) = take i ?fs @ e # drop i (take j ?fs)"
      using 2 ij by simp
    also have "take i ?fs = take i es" using ij by (simp add: take_update_cancel)
    also have "take j ?fs = take j es" by (simp add: take_update_cancel)
    finally have t: "take (Suc j) ((undo_open ?fs i j)[i := e]) = take i es @ e # drop i (take j es)" .
    have keep: "k > n \<Longrightarrow> undo_open gs m n ! k = gs ! k" for gs :: "undo list" and m n k
      by (induction gs m n rule: undo_open.induct) (auto split: if_splits)
    have "((undo_open ?fs i j)[i := e]) ! Suc j = es ! j"
      using ij 2 by (simp add: keep)
    then have "take (Suc (Suc j)) ((undo_open ?fs i j)[i := e]) = take i es @ e # drop i (take j es) @ [es ! j]"
      using t 2(3) by (subst take_Suc_conv_app_nth) auto
    also have "drop i (take j es) @ [es ! j] = drop i (take (Suc j) es)"
      using ij by (simp add: take_Suc_conv_app_nth)
    finally show ?thesis using False ij 2 by simp
  next
    case True
    then show ?thesis using 2 by (simp add: take_Suc_conv_app_nth take_update_cancel)
  qed
qed (simp add: take_Suc_conv_app_nth)

lemma undo_close_length [simp]: "length (undo_close es i n) = length es"
  by (induction es i n rule: undo_close.induct) (subst undo_close.simps, simp)

lemma undo_close_spec:
  "i \<le> n \<Longrightarrow> n < length es \<Longrightarrow> take n (undo_close es i n) = take i es @ drop (Suc i) (take (Suc n) es)"
proof (induction es i n rule: undo_close.induct)
  case (1 es i n)
  show ?case
  proof (cases "i < n")
    case True
    let ?fs = "es[i := es ! Suc i]"
    have "take n (undo_close es i n) = take n (undo_close ?fs (Suc i) n)"
      by (subst undo_close.simps) (simp add: True)
    also have "\<dots> = take (Suc i) ?fs @ drop (Suc (Suc i)) (take (Suc n) ?fs)"
      using 1 True by simp
    also have "take (Suc i) ?fs = take i es @ [es ! Suc i]"
      using True 1(3) by (simp add: take_Suc_conv_app_nth take_update_cancel)
    also have "drop (Suc (Suc i)) (take (Suc n) ?fs) = drop (Suc (Suc i)) (take (Suc n) es)"
      by (simp add: take_update_swap drop_update_cancel)
    also have "(take i es @ [es ! Suc i]) @ drop (Suc (Suc i)) (take (Suc n) es) = take i es @ drop (Suc i) (take (Suc n) es)"
      using True 1(3) by (simp add: Cons_nth_drop_Suc [of "Suc i" "take (Suc n) es", symmetric])
    finally show ?thesis .
  next
    case False
    then show ?thesis using 1(2,3) by (subst undo_close.simps) simp
  qed
qed

section \<open>The undo structures of the processes\<close>

text \<open>\<open>np_path us h ps\<close>: the chain from \<open>h\<close> along \<open>un_np\<close> visits exactly \<open>ps\<close>.\<close>

fun np_path :: "sem_undo list \<Rightarrow> nat option \<Rightarrow> nat list \<Rightarrow> bool" where
  "np_path us None ps = (ps = [])"
| "np_path us (Some p) [] = False"
| "np_path us (Some p) (q # qs) = (p = q \<and> p < length us \<and> np_path us (un_np (us ! p)) qs)"

definition undo_ok :: "seminfo \<Rightarrow> sem_undo \<Rightarrow> bool" where
  "undo_ok si x \<longleftrightarrow> int (un_cnt x) \<le> semume si \<and> semume si < int (length (un_ent x)) \<and> usorted (active x)
     \<and> (\<forall>e\<in>set (active x). un_aoe e \<noteq> 0 \<and> - semaem si \<le> un_aoe e \<and> un_aoe e \<le> semaem si)"

text \<open>
  The invariant of the undo structures: \<open>C\<close> is the chain of the structures with active entries,
  \<open>F\<close> the free chain; no structure belongs to two processes.
\<close>

definition undo_tab_ok :: "nat option list \<Rightarrow> nat \<Rightarrow> nat set \<Rightarrow> bool" where
  "undo_tab_ok t n F \<longleftrightarrow>
     (\<forall>p<length t. \<forall>up. t ! p = Some up \<longrightarrow>
        up < n \<and> up \<notin> F \<and> (\<forall>q<length t. t ! q = Some up \<longrightarrow> q = p))"

definition undo_cnt_ok :: "sem_undo list \<Rightarrow> nat set \<Rightarrow> bool" where
  "undo_cnt_ok us C \<longleftrightarrow> (\<forall>i<length us. 0 < un_cnt (us ! i) \<longleftrightarrow> i \<in> C)"

definition undo_rep :: "sem_state \<Rightarrow> nat list \<Rightarrow> nat list \<Rightarrow> bool" where
  "undo_rep s C F \<longleftrightarrow>
     0 \<le> semaem (seminfo s) \<and> semaem (seminfo s) \<le> 16384 \<and> 0 \<le> semume (seminfo s)
     \<and> (\<forall>x\<in>set (semu s). undo_ok (seminfo s) x)
     \<and> np_path (semu s) (semunp s) C \<and> np_path (semu s) (semfup s) F \<and> distinct (C @ F)
     \<and> undo_cnt_ok (semu s) (set C) \<and> undo_tab_ok (sem_undo_tab s) (length (semu s)) (set F)"

definition aoe :: "sem_state \<Rightarrow> nat \<Rightarrow> int \<times> int \<Rightarrow> int" where
  "aoe s p k =
     (if p < length (sem_undo_tab s)
      then (case sem_undo_tab s ! p of None \<Rightarrow> 0 | Some up \<Rightarrow> ent_aoe (active (semu s ! up)) k)
      else 0)"

lemma np_path_less: "np_path us h ps \<Longrightarrow> p \<in> set ps \<Longrightarrow> p < length us"
  by (induction us h ps rule: np_path.induct) auto

lemma np_path_cong:
  "np_path us h ps \<Longrightarrow> length us \<le> length us' \<Longrightarrow> \<forall>p\<in>set ps. un_np (us' ! p) = un_np (us ! p)
   \<Longrightarrow> np_path us' h ps"
  by (induction us h ps rule: np_path.induct) auto

lemma np_path_notin: "np_path us h ps \<Longrightarrow> i \<notin> set ps \<Longrightarrow> np_path (us[i := x]) h ps"
  by (erule np_path_cong) (simp, metis nth_list_update_neq)

lemma np_path_same: "np_path us h ps \<Longrightarrow> un_np x = un_np (us ! i) \<Longrightarrow> np_path (us[i := x]) h ps"
  by (erule np_path_cong) (simp, metis nth_list_update_eq nth_list_update_neq list_update_beyond not_le)

lemma np_path_Cons: "np_path us h (q # qs) \<longleftrightarrow> h = Some q \<and> q < length us \<and> np_path us (un_np (us ! q)) qs"
  by (cases h) auto

lemma np_path_length: "np_path us h ps \<Longrightarrow> distinct ps \<Longrightarrow> length ps \<le> length us"
proof -
  assume "np_path us h ps" "distinct ps"
  then have "set ps \<subseteq> {..<length us}" using np_path_less by auto
  then have "card (set ps) \<le> card {..<length us}" by (intro card_mono) auto
  then show ?thesis using \<open>distinct ps\<close> by (simp add: distinct_card)
qed

lemma np_path_drop:
  "np_path us h (A @ up # B) \<Longrightarrow> np_path us (un_np (us ! up)) B"
  by (induction A arbitrary: h) (auto simp: np_path_Cons)

lemma undo_unlink_loop_spec:
  "np_path us h (A @ up # B) \<Longrightarrow> distinct (A @ up # B) \<Longrightarrow> A \<noteq> [] \<Longrightarrow> length A \<le> fuel \<Longrightarrow>
   undo_unlink_loop fuel us up np h = Ok (us[List.last A := (us ! List.last A)\<lparr>un_np := np\<rparr>])"
proof (induction A arbitrary: h fuel)
  case (Cons a A)
  then obtain f where f: "fuel = Suc f" "length A \<le> f" by (cases fuel) auto
  have h: "h = Some a" "a < length us" "np_path us (un_np (us ! a)) (A @ up # B)"
    using Cons.prems(1) by (auto simp: np_path_Cons)
  show ?case
  proof (cases "A = []")
    case True
    then show ?thesis using h f by (auto simp: np_path_Cons)
  next
    case False
    then obtain b A' where "A = b # A'" by (cases A) auto
    then have "un_np (us ! a) \<noteq> Some up" using h(3) Cons.prems(2) by (auto simp: np_path_Cons)
    then show ?thesis using Cons.IH [OF h(3)] Cons.prems f h False by simp
  qed
qed simp

lemma np_path_unlink:
  "np_path us h (A @ up # B) \<Longrightarrow> distinct (A @ up # B) \<Longrightarrow> A \<noteq> [] \<Longrightarrow>
   np_path (us[List.last A := (us ! List.last A)\<lparr>un_np := un_np (us ! up)\<rparr>]) h (A @ B)"
proof (induction A arbitrary: h)
  case (Cons a A)
  have h: "h = Some a" "a < length us" "np_path us (un_np (us ! a)) (A @ up # B)"
    using Cons.prems(1) by (auto simp: np_path_Cons)
  show ?case
  proof (cases "A = []")
    case True
    have "np_path us (un_np (us ! up)) B" using h True by (auto simp: np_path_Cons)
    then have "np_path (us[a := y]) (un_np (us ! up)) B" for y
      using Cons.prems(2) True by (intro np_path_notin) auto
    then show ?thesis using h True by (simp add: np_path_Cons)
  next
    case False
    then have "List.last A \<noteq> a" using Cons.prems(2) last_in_set by fastforce
    then show ?thesis using Cons.IH [OF h(3)] Cons.prems(2) h False by (simp add: np_path_Cons)
  qed
qed simp

definition same_entries :: "sem_undo list \<Rightarrow> sem_undo list \<Rightarrow> bool" where
  "same_entries us us' \<longleftrightarrow> length us' = length us
     \<and> (\<forall>i<length us. un_cnt (us' ! i) = un_cnt (us ! i) \<and> un_ent (us' ! i) = un_ent (us ! i))"

lemma undo_unlink_spec:
  assumes "np_path (semu s) (semunp s) (A @ up # B)" "distinct (A @ up # B)"
  obtains us h where "undo_unlink s up = Ok (s\<lparr>semu := us, semunp := h\<rparr>)" "np_path us h (A @ B)"
    "same_entries (semu s) us" "\<And>i. i \<notin> set A \<Longrightarrow> us ! i = semu s ! i"
proof (cases "A = []")
  case True
  then have "semunp s = Some up" "up < length (semu s)" "np_path (semu s) (un_np (semu s ! up)) B"
    using assms(1) by (auto simp: np_path_Cons)
  then show ?thesis
    by (intro that [where us = "semu s" and h = "un_np (semu s ! up)"]) (auto simp: undo_unlink_def same_entries_def True)
next
  case False
  have up: "up < length (semu s)" using np_path_less [OF assms(1)] by simp
  obtain a A' where "A = a # A'" using False by (cases A) auto
  then have "semunp s \<noteq> Some up" using assms by (auto simp: np_path_Cons)
  moreover have "length A \<le> length (semu s)"
    using np_path_length [OF assms] by simp
  ultimately have u: "undo_unlink s up =
      Ok (s\<lparr>semu := (semu s)[List.last A := (semu s ! List.last A)\<lparr>un_np := un_np (semu s ! up)\<rparr>]\<rparr>)"
    using undo_unlink_loop_spec [OF assms False] up by (simp add: undo_unlink_def)
  have l: "List.last A \<in> set A" using False by simp
  then have "List.last A < length (semu s)" using np_path_less [OF assms(1)] by simp
  then show ?thesis
    using u np_path_unlink [OF assms False] l
    by (intro that [where h = "semunp s"
          and us = "(semu s)[List.last A := (semu s ! List.last A)\<lparr>un_np := un_np (semu s ! up)\<rparr>]"])
       (auto simp: same_entries_def nth_list_update)
qed

lemma same_entries_active: "same_entries us us' \<Longrightarrow> i < length us \<Longrightarrow> active (us' ! i) = active (us ! i)"
  by (simp add: same_entries_def active_def)

lemma same_entries_ok:
  "same_entries us us' \<Longrightarrow> \<forall>x\<in>set us. undo_ok si x \<Longrightarrow> \<forall>x\<in>set us'. undo_ok si x"
proof
  fix x assume e: "same_entries us us'" and ok: "\<forall>x\<in>set us. undo_ok si x" and "x \<in> set us'"
  then obtain i where i: "i < length us" "x = us' ! i" by (auto simp: same_entries_def in_set_conv_nth)
  then have "undo_ok si (us ! i)" using ok by simp
  then show "undo_ok si x" using e i by (simp add: undo_ok_def active_def same_entries_def)
qed

lemma undo_repD:
  assumes "undo_rep s C F"
  shows "0 \<le> semaem (seminfo s)" "semaem (seminfo s) \<le> 16384" "0 \<le> semume (seminfo s)"
    "\<forall>x\<in>set (semu s). undo_ok (seminfo s) x"
    "np_path (semu s) (semunp s) C" "np_path (semu s) (semfup s) F" "distinct C" "distinct F"
    "set C \<inter> set F = {}" "undo_cnt_ok (semu s) (set C)"
    "undo_tab_ok (sem_undo_tab s) (length (semu s)) (set F)"
  using assms by (simp_all add: undo_rep_def)

lemma undo_rep_tab:
  assumes "undo_rep s C F" "p < length (sem_undo_tab s)" "sem_undo_tab s ! p = Some up"
  shows "up < length (semu s)" "up \<notin> set F"
    "q < length (sem_undo_tab s) \<Longrightarrow> sem_undo_tab s ! q = Some up \<longleftrightarrow> q = p"
  using undo_repD(11) [OF assms(1)] assms(2,3) unfolding undo_tab_ok_def by blast+

lemma undo_rep_put:
  assumes "undo_rep s C F" "up < length (semu s)" "undo_ok (seminfo s) x"
    "un_np x = un_np (semu s ! up)" "0 < un_cnt x \<longleftrightarrow> up \<in> set C"
  shows "undo_rep (s\<lparr>semu := (semu s)[up := x]\<rparr>) C F"
proof -
  have "\<forall>y\<in>set ((semu s)[up := x]). undo_ok (seminfo s) y"
    using undo_repD(4) [OF assms(1)] assms(3) set_update_subset_insert by fast
  moreover have "undo_cnt_ok ((semu s)[up := x]) (set C)"
    using undo_repD(10) [OF assms(1)] assms(2,5)
    unfolding undo_cnt_ok_def by (metis length_list_update nth_list_update_eq nth_list_update_neq)
  moreover have "np_path (semu s) h ps \<Longrightarrow> np_path ((semu s)[up := x]) h ps" for h ps
    using np_path_same assms(4) by blast
  ultimately show ?thesis
    using assms(1) by (simp add: undo_rep_def)
qed

lemma aoe_put:
  assumes "undo_rep s C F" "p0 < length (sem_undo_tab s)" "sem_undo_tab s ! p0 = Some up"
  shows "aoe (s\<lparr>semu := (semu s)[up := x]\<rparr>) p k = (if p = p0 then ent_aoe (active x) k else aoe s p k)"
proof -
  have "up < length (semu s)" using undo_rep_tab(1) [OF assms] .
  moreover have "q \<noteq> up" if "p \<noteq> p0" "p < length (sem_undo_tab s)" "sem_undo_tab s ! p = Some q" for q
    using undo_rep_tab(3) [OF assms that(2)] that by blast
  ultimately show ?thesis
    using assms(2,3)
    by (cases "p = p0"; cases "p < length (sem_undo_tab s)"; cases "sem_undo_tab s ! p") (auto simp: aoe_def)
qed

lemma aoe_active:
  "p < length (sem_undo_tab s) \<Longrightarrow> sem_undo_tab s ! p = Some up \<Longrightarrow> aoe s p k = ent_aoe (active (semu s ! up)) k"
  by (simp add: aoe_def)

section \<open>\<open>semaoe\<close> as an update of the table of adjustments\<close>

lemma undo_okD:
  assumes "undo_ok si x"
  shows "int (un_cnt x) \<le> semume si" "semume si < int (length (un_ent x))" "usorted (active x)"
    "\<forall>e\<in>set (active x). un_aoe e \<noteq> 0 \<and> - semaem si \<le> un_aoe e \<and> un_aoe e \<le> semaem si"
    "un_cnt x < length (un_ent x)" "length (active x) = un_cnt x"
  using assms by (auto simp: undo_ok_def active_def)

lemma active_open:
  assumes "active x = A @ B" "un_cnt x < length (un_ent x)"
  shows "active (x\<lparr>un_np := h, un_cnt := Suc (un_cnt x),
      un_ent := (undo_open (un_ent x) (length A) (un_cnt x))[length A := e]\<rparr>) = A @ e # B"
    "active (x\<lparr>un_cnt := Suc (un_cnt x),
      un_ent := (undo_open (un_ent x) (length A) (un_cnt x))[length A := e]\<rparr>) = A @ e # B"
proof -
  have l: "length A \<le> un_cnt x"
    using arg_cong [OF assms(1), of length] assms(2) by (simp add: active_def)
  have t: "take (length A) (un_ent x) = A"
    using arg_cong [OF assms(1), of "take (length A)"] l by (simp add: active_def)
  have d: "drop (length A) (take (un_cnt x) (un_ent x)) = B"
    using arg_cong [OF assms(1), of "drop (length A)"] by (simp add: active_def)
  show "active (x\<lparr>un_np := h, un_cnt := Suc (un_cnt x),
      un_ent := (undo_open (un_ent x) (length A) (un_cnt x))[length A := e]\<rparr>) = A @ e # B"
    "active (x\<lparr>un_cnt := Suc (un_cnt x),
      un_ent := (undo_open (un_ent x) (length A) (un_cnt x))[length A := e]\<rparr>) = A @ e # B"
    using undo_open_spec [OF l assms(2), of e] by (simp_all add: active_def t d)
qed

lemma active_put:
  assumes "active x = A @ b # B" "un_cnt x < length (un_ent x)"
  shows "active (x\<lparr>un_ent := (un_ent x)[length A := e]\<rparr>) = A @ e # B"
    "un_ent x ! length A = b" "length A < un_cnt x"
proof -
  show l: "length A < un_cnt x"
    using arg_cong [OF assms(1), of length] assms(2) by (simp add: active_def)
  show "un_ent x ! length A = b"
    using arg_cong [OF assms(1), of "\<lambda>es. es ! length A"] l by (simp add: active_def)
  show "active (x\<lparr>un_ent := (un_ent x)[length A := e]\<rparr>) = A @ e # B"
    using arg_cong [OF assms(1), of "\<lambda>es. es[length A := e]"] by (simp add: active_def take_update_swap)
qed

lemma active_close:
  assumes "active x = A @ b # B" "un_cnt x < length (un_ent x)"
  shows "active (x\<lparr>un_cnt := un_cnt x - 1,
      un_ent := undo_close ((un_ent x)[length A := e]) (length A) (un_cnt x - 1)\<rparr>) = A @ B"
proof -
  let ?es = "(un_ent x)[length A := e]"
  have l: "length A < un_cnt x" using active_put(3) [OF assms] .
  have t: "take (un_cnt x) ?es = A @ e # B"
    using active_put(1) [OF assms, of e] by (simp add: active_def)
  have "take (length A) ?es = A"
    using arg_cong [OF t, of "take (length A)"] l by (simp add: min_def)
  moreover have "drop (Suc (length A)) (take (Suc (un_cnt x - 1)) ?es) = B"
    using l t by simp
  ultimately show ?thesis
    using undo_close_spec [of "length A" "un_cnt x - 1" ?es] l assms(2) by (simp add: active_def)
qed

lemma ent_aoe_card:
  assumes "undo_ok si x"
  shows "card {m. ent_aoe (active x) m \<noteq> 0} = un_cnt x"
proof -
  have "{m. ent_aoe (active x) m \<noteq> 0} = ukey ` set (active x)"
    using ent_aoe_absent ent_aoe_present [OF undo_okD(3) [OF assms]] undo_okD(4) [OF assms] by fastforce
  also have "card \<dots> = length (active x)"
    using usorted_keys_distinct [OF undo_okD(3) [OF assms]] by (metis distinct_card image_set length_map)
  finally show ?thesis using undo_okD(6) [OF assms] by simp
qed

lemma usorted_insert:
  "usorted (A @ B) \<Longrightarrow> \<forall>f\<in>set A. ult (ukey f) (ukey e) \<Longrightarrow> \<forall>f\<in>set B. ult (ukey e) (ukey f)
   \<Longrightarrow> usorted (A @ e # B)"
  by (auto simp: sorted_wrt_append)

lemma usorted_replace: "usorted (A @ b # B) \<Longrightarrow> ukey e = ukey b \<Longrightarrow> usorted (A @ e # B)"
  by (auto simp: sorted_wrt_append)

lemma usorted_delete: "usorted (A @ b # B) \<Longrightarrow> usorted (A @ B)"
  by (auto simp: sorted_wrt_append)

lemma ent_aoe_replace:
  assumes "usorted (A @ b # B)" "ukey e = ukey b"
  shows "ent_aoe (A @ e # B) k = (if k = ukey b then un_aoe e else ent_aoe (A @ b # B) k)"
    "ent_aoe (A @ B) k = (if k = ukey b then 0 else ent_aoe (A @ b # B) k)"
proof -
  have "ent_aoe A (ukey b) = 0" "ent_aoe B (ukey b) = 0"
    using assms(1) by (auto simp: sorted_wrt_append intro!: ent_aoe_absent)
  then show "ent_aoe (A @ e # B) k = (if k = ukey b then un_aoe e else ent_aoe (A @ b # B) k)"
    "ent_aoe (A @ B) k = (if k = ukey b then 0 else ent_aoe (A @ b # B) k)"
    using assms(2) by auto
qed

lemma undo_tab_ok_take:
  assumes "undo_tab_ok t n F" "up \<in> F" "up < n" "up \<notin> F'" "F' \<subseteq> F"
  shows "undo_tab_ok (t[c := Some up]) n F'"
proof -
  have t: "v < n \<and> v \<notin> F \<and> (\<forall>q<length t. t ! q = Some v \<longrightarrow> q = p)" if "p < length t" "t ! p = Some v" for p v
    using assms(1) that unfolding undo_tab_ok_def by blast
  have "v < n \<and> v \<notin> F' \<and> (\<forall>q<length t. t[c := Some up] ! q = Some v \<longrightarrow> q = p)"
    if p: "p < length t" "t[c := Some up] ! p = Some v" for p v
  proof (cases "p = c")
    case True
    then have "v = up" using p by simp
    moreover have "q = c" if "q < length t" "t[c := Some up] ! q = Some up" for q
    proof (rule ccontr)
      assume "q \<noteq> c"
      then show False using t [of q up] that assms(2) by simp
    qed
    ultimately show ?thesis using assms(3,4) True by auto
  next
    case False
    then have "t ! p = Some v" using p by simp
    note v = t [OF p(1) this]
    then have "v \<noteq> up" using assms(2) by auto
    then have "t ! q = Some v" if "q < length t" "t[c := Some up] ! q = Some v" for q
      using that by (cases "q = c") auto
    note tq = this
    show ?thesis
    proof (intro conjI allI impI)
      show "v < n" using v by (rule conjunct1)
      show "v \<notin> F'" using conjunct1 [OF conjunct2 [OF v]] assms(5) by blast
      show "q = p" if "q < length t" "t[c := Some up] ! q = Some v" for q
        using conjunct2 [OF conjunct2 [OF v]] tq [OF that] that(1) by blast
    qed
  qed
  then show ?thesis unfolding undo_tab_ok_def length_list_update by blast
qed

lemma undo_struct_spec [consumes 2, case_names none some]:
  assumes "undo_rep s C F" "u_procp s < length (sem_undo_tab s)"
  obtains (none) "undo_struct s = Ok (None, s)" "sem_undo_tab s ! u_procp s = None" "semfup s = None"
  | (some) up s1 F1 where "undo_struct s = Ok (Some up, s1)" "undo_rep s1 C F1"
      "sem_undo_tab s1 ! u_procp s = Some up" "aoe s1 = aoe s" "ua s1 = ua s"
      "length (sem_undo_tab s1) = length (sem_undo_tab s)"
      "\<not> (sem_undo_tab s ! u_procp s = None \<and> semfup s = None)"
      "\<And>p. sem_undo_tab s ! p \<noteq> None \<Longrightarrow> sem_undo_tab s1 ! p = sem_undo_tab s ! p"
proof (cases "sem_undo_tab s ! u_procp s")
  case (Some up)
  then show ?thesis using assms by (intro some [of up s F]) (auto simp: undo_struct_def)
next
  case None
  show ?thesis
  proof (cases "semfup s")
    case n: None
    then show ?thesis using assms None by (intro none) (auto simp: undo_struct_def)
  next
    case f: (Some up)
    then obtain F1 where F: "F = up # F1" and up: "up < length (semu s)"
      using undo_repD(6) [OF assms(1)] by (cases F) auto
    define x where "x = semu s ! up"
    define s1 where "s1 = s\<lparr>semfup := un_np x, semu := (semu s)[up := x\<lparr>un_np := None\<rparr>],
                               sem_undo_tab := (sem_undo_tab s)[u_procp s := Some up]\<rparr>"
    have u: "undo_struct s = Ok (Some up, s1)"
      using None f up assms(2) by (simp add: undo_struct_def s1_def x_def)
    have nC: "up \<notin> set C" "up \<notin> set F1" using undo_repD(8,9) [OF assms(1)] F by auto
    have c0: "un_cnt x = 0"
      using undo_repD(10) [OF assms(1)] up nC by (auto simp: undo_cnt_ok_def x_def)
    have ok: "\<forall>y\<in>set (semu s1). undo_ok (seminfo s) y"
    proof
      fix y assume "y \<in> set (semu s1)"
      then consider "y \<in> set (semu s)" | "y = x\<lparr>un_np := None\<rparr>"
        using set_update_subset_insert by (fastforce simp: s1_def)
      then show "undo_ok (seminfo s) y"
        using undo_repD(4) [OF assms(1)] up by cases (auto simp: x_def undo_ok_def active_def)
    qed
    have paths: "np_path (semu s1) (semunp s) C" "np_path (semu s1) (un_np x) F1"
      using undo_repD(5,6) [OF assms(1)] nC F by (auto simp: s1_def np_path_Cons x_def intro: np_path_notin)
    have "undo_cnt_ok (semu s1) (set C)"
    proof -
      have "0 < un_cnt ((semu s)[up := x\<lparr>un_np := None\<rparr>] ! i) \<longleftrightarrow> i \<in> set C" if "i < length (semu s)" for i
        using undo_repD(10) [OF assms(1)] c0 nC that by (cases "i = up") (auto simp: undo_cnt_ok_def)
      then show ?thesis by (simp add: undo_cnt_ok_def s1_def)
    qed
    moreover have "undo_tab_ok (sem_undo_tab s1) (length (semu s1)) (set F1)"
      using undo_tab_ok_take [OF undo_repD(11) [OF assms(1)], of up "set F1"] up nC F by (auto simp: s1_def)
    ultimately have "undo_rep s1 C F1"
      using assms(1) ok paths F by (auto simp: undo_rep_def s1_def)
    moreover have "aoe s1 p k = aoe s p k" for p k
    proof (cases "p = u_procp s \<or> \<not> p < length (sem_undo_tab s)")
      case True
      then show ?thesis using None c0 assms(2) up by (auto simp: aoe_def s1_def active_def)
    next
      case False
      have "q \<noteq> up" if "sem_undo_tab s ! p = Some q" for q
        using undo_rep_tab(2) [OF assms(1) _ that] False F by auto
      then show ?thesis using False by (auto simp: aoe_def s1_def split: option.splits)
    qed
    ultimately show ?thesis
      using u assms(2) None f by (intro some [of up s1 F1]) (auto simp: s1_def nth_list_update fun_eq_iff)
  qed
qed

definition aoe_fits :: "sem_state \<Rightarrow> int \<Rightarrow> int \<times> int \<Rightarrow> bool" where
  "aoe_fits s val k \<longleftrightarrow> val = 0 \<or>
     \<bar>val\<bar> \<le> semaem (seminfo s)
     \<and> \<not> (sem_undo_tab s ! u_procp s = None \<and> semfup s = None)
     \<and> \<bar>aoe s (u_procp s) k - val\<bar> \<le> semaem (seminfo s)
     \<and> (aoe s (u_procp s) k = 0 \<longrightarrow> int (card {m. aoe s (u_procp s) m \<noteq> 0}) < semume (seminfo s))"

text \<open>The effect of a successful \<open>semaoe\<close>, and what it keeps in any case.\<close>

definition aoe_upd :: "(nat \<Rightarrow> int \<times> int \<Rightarrow> int) \<Rightarrow> nat \<Rightarrow> int \<times> int \<Rightarrow> int \<Rightarrow> nat \<Rightarrow> int \<times> int \<Rightarrow> int" where
  "aoe_upd f p k v q m = (if q = p \<and> m = k then f q m - v else f q m)"

definition undo_keep :: "sem_state \<Rightarrow> sem_state \<Rightarrow> bool" where
  "undo_keep s s' \<longleftrightarrow> undo_frame s s' \<and> (\<exists>C F. undo_rep s' C F)
     \<and> length (sem_undo_tab s') = length (sem_undo_tab s)
     \<and> (\<forall>p. sem_undo_tab s ! p \<noteq> None \<longrightarrow> sem_undo_tab s' ! p = sem_undo_tab s ! p)"

lemma undo_rep_error [simp]: "undo_rep (set_error s e) C F \<longleftrightarrow> undo_rep s C F"
  by (simp add: undo_rep_def set_error_def)

lemma aoe_error [simp]: "aoe (set_error s e) = aoe s"
  by (auto simp: aoe_def set_error_def fun_eq_iff split: option.splits)

lemma set_error_fields [simp]:
  "seminfo (set_error s e) = seminfo s" "sema (set_error s e) = sema s" "sems (set_error s e) = sems s"
  "semmap (set_error s e) = semmap s" "sem_undo_tab (set_error s e) = sem_undo_tab s"
  "semu (set_error s e) = semu s" "semunp (set_error s e) = semunp s" "semfup (set_error s e) = semfup s"
  "kheap (set_error s e) = kheap s" "u_procp (set_error s e) = u_procp s" "p_pid (set_error s e) = p_pid s"
  "sem_time (set_error s e) = sem_time s" "wakeups (set_error s e) = wakeups s"
  "copied (set_error s e) = copied s" "ua (set_error s e) = (ua s)\<lparr>u_error := e\<rparr>"
  by (simp_all add: set_error_def)

lemma int16_restore:
  assumes "\<bar>a\<bar> \<le> 16384" "\<bar>v\<bar> \<le> 16384"
  shows "int16 (int16 (a - v) + v) = a" "\<bar>int16 (a - v)\<bar> \<le> 16384 \<longleftrightarrow> \<bar>a - v\<bar> \<le> 16384"
    "\<bar>a - v\<bar> \<le> 16384 \<Longrightarrow> int16 (a - v) = a - v"
proof -
  show "\<bar>a - v\<bar> \<le> 16384 \<Longrightarrow> int16 (a - v) = a - v" by simp
  show "int16 (int16 (a - v) + v) = a"
  proof (cases "a - v = 32768")
    case True
    then have "a = 16384" "v = -16384" using assms by auto
    then show ?thesis by (simp add: int16_def)
  qed (use assms in auto)
  show "\<bar>int16 (a - v)\<bar> \<le> 16384 \<longleftrightarrow> \<bar>a - v\<bar> \<le> 16384"
  proof (cases "a - v = 32768")
    case True
    then show ?thesis by (simp add: int16_def)
  qed (use assms in auto)
qed

lemma undo_insert_spec:
  assumes rep: "undo_rep s C F" and tab: "u_procp s < length (sem_undo_tab s)"
    "sem_undo_tab s ! u_procp s = Some up"
    and x: "x = semu s ! up" "active x = A @ B" "\<forall>e\<in>set A. ult (ukey e) (sid, num)"
      "\<forall>e\<in>set B. ult (sid, num) (ukey e)"
    and val: "val \<noteq> 0" "\<bar>val\<bar> \<le> semaem (seminfo s)" and room: "int (un_cnt x) < semume (seminfo s)"
  shows "\<exists>s' C'. undo_insert s up x (length A) val sid num = (False, s') \<and> undo_rep s' C' F \<and> ua s' = ua s
    \<and> aoe s' = aoe_upd (aoe s) (u_procp s) (sid, num) val \<and> sem_undo_tab s' = sem_undo_tab s"
proof -
  have up: "up < length (semu s)" "up \<notin> set F" using undo_rep_tab [OF rep tab] by auto
  have ok: "undo_ok (seminfo s) x" using undo_repD(4) [OF rep] up x(1) by simp
  define e where "e = \<lparr>un_aoe = int16 (- val), un_num = num, un_id = sid\<rparr>"
  have v: "int16 (- val) = - val" using val(2) undo_repD(2) [OF rep] by simp
  define y where "y = (if un_cnt x = 0 then x\<lparr>un_np := semunp s\<rparr> else x)\<lparr>un_cnt := Suc (un_cnt x),
     un_ent := (undo_open (un_ent x) (length A) (un_cnt x))[length A := e]\<rparr>"
  define s' where "s' = (if un_cnt x = 0 then s\<lparr>semunp := Some up\<rparr> else s)\<lparr>semu := (semu s)[up := y]\<rparr>"
  have r: "undo_insert s up x (length A) val sid num = (False, s')"
    using room by (simp add: undo_insert_def s'_def y_def e_def Let_def)
  have act: "active y = A @ e # B"
  proof (cases "un_cnt x = 0")
    case True
    then have "y = x\<lparr>un_np := semunp s, un_cnt := Suc (un_cnt x),
        un_ent := (undo_open (un_ent x) (length A) (un_cnt x))[length A := e]\<rparr>"
      by (simp only: y_def refl if_True)
    then show ?thesis using active_open(1) [OF x(2) undo_okD(5) [OF ok]] by metis
  next
    case False
    then show ?thesis
      using active_open(2) [OF x(2) undo_okD(5) [OF ok], of e] by (simp only: y_def if_False)
  qed
  have key: "ukey e = (sid, num)" by (simp add: e_def ukey_def)
  have yok: "undo_ok (seminfo s) y"
    unfolding undo_ok_def act
  proof (intro conjI)
    show "usorted (A @ e # B)"
      using usorted_insert [of A B e] undo_okD(3) [OF ok] x(2-4) by (simp add: key)
    show "\<forall>f\<in>set (A @ e # B). un_aoe f \<noteq> 0 \<and> - semaem (seminfo s) \<le> un_aoe f \<and> un_aoe f \<le> semaem (seminfo s)"
      using undo_okD(4) [OF ok] x(2) val by (auto simp: e_def v)
  qed (use room undo_okD(2) [OF ok] in \<open>auto simp: y_def\<close>)
  have tl: "sem_undo_tab s' = sem_undo_tab s" "ua s' = ua s" "seminfo s' = seminfo s" "semfup s' = semfup s"
    by (simp_all add: s'_def)
  have rep': "\<exists>C'. undo_rep s' C' F"
  proof (cases "un_cnt x = 0")
    case True
    then have nC: "up \<notin> set C" using undo_repD(10) [OF rep] up x(1) by (auto simp: undo_cnt_ok_def)
    have "undo_rep (s\<lparr>semunp := Some up, semu := (semu s)[up := y]\<rparr>) (up # C) F"
    proof -
      have "np_path ((semu s)[up := y]) (Some up) (up # C)"
        using undo_repD(5) [OF rep] nC up True by (auto simp: y_def intro: np_path_notin)
      moreover have "np_path ((semu s)[up := y]) (semfup s) F"
        using undo_repD(6) [OF rep] up by (intro np_path_notin)
      moreover have "\<forall>z\<in>set ((semu s)[up := y]). undo_ok (seminfo s) z"
        using undo_repD(4) [OF rep] yok set_update_subset_insert by fast
      moreover have "undo_cnt_ok ((semu s)[up := y]) (set (up # C))"
        using undo_repD(10) [OF rep] up nC by (auto simp: undo_cnt_ok_def nth_list_update y_def)
      moreover have "distinct ((up # C) @ F)" using rep nC up(2) by (simp add: undo_rep_def)
      ultimately show ?thesis
        using rep up(1) unfolding undo_rep_def by simp
    qed
    then show ?thesis using True by (auto simp: s'_def)
  next
    case False
    then have "up \<in> set C" using undo_repD(10) [OF rep] up x(1) by (auto simp: undo_cnt_ok_def)
    then have "undo_rep (s\<lparr>semu := (semu s)[up := y]\<rparr>) C F"
      using False x(1) by (intro undo_rep_put [OF rep up(1) yok]) (auto simp: y_def)
    then show ?thesis using False by (auto simp: s'_def)
  qed
  have "aoe s' p m = aoe_upd (aoe s) (u_procp s) (sid, num) val p m" for p m
  proof -
    have "aoe s' p m = aoe (s\<lparr>semu := (semu s)[up := y]\<rparr>) p m" by (simp add: aoe_def s'_def split: option.splits)
    also have "\<dots> = (if p = u_procp s then ent_aoe (A @ e # B) m else aoe s p m)"
      using aoe_put [OF rep tab] by (simp add: act)
    also have "\<dots> = aoe_upd (aoe s) (u_procp s) (sid, num) val p m"
    proof -
      have "ent_aoe (A @ B) (sid, num) = 0"
        using ent_aoe_absent [of "(sid, num)" A] ent_aoe_absent [of "(sid, num)" B] x(3,4) by fastforce
      then show ?thesis
        using aoe_active [OF tab] x(1,2) v key by (auto simp: aoe_upd_def e_def)
    qed
    finally show ?thesis .
  qed
  then show ?thesis using r rep' tl by (auto simp: fun_eq_iff)
qed

lemma undo_adjust_spec:
  assumes rep: "undo_rep s C F" and tab: "u_procp s < length (sem_undo_tab s)"
    "sem_undo_tab s ! u_procp s = Some up"
    and x: "x = semu s ! up" "active x = A @ b # B" "ukey b = (sid, num)"
    and val: "val \<noteq> 0" "\<bar>val\<bar> \<le> semaem (seminfo s)"
  shows "\<exists>s' C'. undo_rep s' C' F \<and> sem_undo_tab s' = sem_undo_tab s \<and>
    (if \<bar>un_aoe b - val\<bar> \<le> semaem (seminfo s)
     then undo_adjust s up x (length A) val = Ok (False, s') \<and> ua s' = ua s
       \<and> aoe s' = aoe_upd (aoe s) (u_procp s) (sid, num) val
     else undo_adjust s up x (length A) val = Ok (True, s') \<and> ua s' = (ua s)\<lparr>u_error := ERANGE\<rparr>
       \<and> aoe s' = aoe s)"
proof -
  have up: "up < length (semu s)" "up \<notin> set F" using undo_rep_tab [OF rep tab] by auto
  have ok: "undo_ok (seminfo s) x" using undo_repD(4) [OF rep] up x(1) by simp
  note len = undo_okD(5) [OF ok]
  have b: "un_ent x ! length A = b" "length A < un_cnt x" using active_put [OF x(2) len] by auto
  have upC: "up \<in> set C"
    using undo_repD(10) [OF rep] up x(1) b(2) by (auto simp: undo_cnt_ok_def)
  have srt: "usorted (A @ b # B)" using undo_okD(3) [OF ok] x(2) by simp
  have bnd: "\<bar>un_aoe b\<bar> \<le> semaem (seminfo s)" "semaem (seminfo s) \<le> 16384"
    using undo_okD(4) [OF ok] x(2) undo_repD(2) [OF rep] by auto
  define a where "a = int16 (un_aoe b - val)"
  have bnd16: "\<bar>un_aoe b\<bar> \<le> 16384" "\<bar>val\<bar> \<le> 16384" using bnd val(2) by auto
  note arith = int16_restore [OF bnd16]
  have a: "\<bar>a\<bar> \<le> semaem (seminfo s) \<longleftrightarrow> \<bar>un_aoe b - val\<bar> \<le> semaem (seminfo s)"
    "\<bar>un_aoe b - val\<bar> \<le> semaem (seminfo s) \<Longrightarrow> a = un_aoe b - val" "int16 (a + val) = un_aoe b"
    using arith bnd(2) unfolding a_def by (smt (verit))+
  define put where "put = (\<lambda>v. s\<lparr>semu := (semu s)[up := x\<lparr>un_ent := (un_ent x)[length A := b\<lparr>un_aoe := v\<rparr>]\<rparr>]\<rparr>)"
  have pact: "active (x\<lparr>un_ent := (un_ent x)[length A := b\<lparr>un_aoe := v\<rparr>]\<rparr>) = A @ b\<lparr>un_aoe := v\<rparr> # B" for v
    using active_put(1) [OF x(2) len] .
  have prep: "undo_rep (put v) C F" "aoe (put v) p k = (if p = u_procp s \<and> k = (sid, num) then v else aoe s p k)"
    if v: "v \<noteq> 0" "\<bar>v\<bar> \<le> semaem (seminfo s)" for v p k
  proof -
    have "undo_ok (seminfo s) (x\<lparr>un_ent := (un_ent x)[length A := b\<lparr>un_aoe := v\<rparr>]\<rparr>)"
      using ok v usorted_replace [OF srt, of "b\<lparr>un_aoe := v\<rparr>"] x(2)
      by (auto simp: undo_ok_def pact ukey_def)
    then show "undo_rep (put v) C F"
      unfolding put_def using upC b(2) x(1) by (intro undo_rep_put [OF rep up(1)]) auto
    have "ent_aoe (A @ b\<lparr>un_aoe := v\<rparr> # B) k = (if k = (sid, num) then v else ent_aoe (active x) k)"
      using ent_aoe_replace(1) [OF srt, of "b\<lparr>un_aoe := v\<rparr>" k] x(2,3) by (simp add: ukey_def)
    then show "aoe (put v) p k = (if p = u_procp s \<and> k = (sid, num) then v else aoe s p k)"
      unfolding put_def using aoe_put [OF rep tab] aoe_active [OF tab, folded x(1)]
      by (simp only: pact) simp
  qed
  have cur: "aoe s (u_procp s) (sid, num) = un_aoe b"
    using aoe_active [OF tab] ent_aoe_present [OF srt, of b] x by simp
  have upd: "aoe s' = aoe_upd (aoe s) (u_procp s) (sid, num) val"
    if "\<And>p k. aoe s' p k = (if p = u_procp s \<and> k = (sid, num) then un_aoe b - val else aoe s p k)" for s'
    using that cur by (auto simp: fun_eq_iff aoe_upd_def)
  have unf: "undo_adjust s up x (length A) val =
      (if \<not> \<bar>a\<bar> \<le> semaem (seminfo s) then Ok (True, set_error (put (un_aoe b)) ERANGE)
       else if a = 0 then
         (let n = un_cnt x - 1;
              s1 = s\<lparr>semu := (semu s)[up := x\<lparr>un_cnt := n,
                un_ent := undo_close ((un_ent x)[length A := b\<lparr>un_aoe := a\<rparr>]) (length A) n\<rparr>]\<rparr>
          in if n = 0 then obind (undo_unlink s1 up) (\<lambda>s2. Ok (False, undo_clear_np s2 up))
             else Ok (False, s1))
       else Ok (False, put a))"
    unfolding undo_adjust_def Let_def b(1) a_def [symmetric] a(3) put_def by auto
  consider "\<not> \<bar>a\<bar> \<le> semaem (seminfo s)" | "\<bar>a\<bar> \<le> semaem (seminfo s)" "a \<noteq> 0" | "a = 0" by blast
  then show ?thesis
  proof cases
    case 1
    have b0: "un_aoe b \<noteq> 0" using undo_okD(4) [OF ok] x(2) by auto
    then have "aoe (put (un_aoe b)) = aoe s" using prep(2) [OF b0 bnd(1)] cur by (auto simp: fun_eq_iff)
    then show ?thesis
      using 1 a(1) prep(1) [OF b0 bnd(1)] unf
      by (intro exI [of _ "set_error (put (un_aoe b)) ERANGE"] exI [of _ C]) (simp add: put_def)
  next
    case 2
    then have av: "a = un_aoe b - val" "\<bar>un_aoe b - val\<bar> \<le> semaem (seminfo s)" using a by auto
    then have "aoe (put a) = aoe_upd (aoe s) (u_procp s) (sid, num) val" using prep(2) 2 by (intro upd) auto
    then show ?thesis
      using 2 av prep(1) [of a] unf by (intro exI [of _ "put a"] exI [of _ C]) (simp add: put_def)
  next
    case 3
    have fit: "\<bar>a\<bar> \<le> semaem (seminfo s)" using 3 undo_repD(1) [OF rep] by simp
    then have av: "0 = un_aoe b - val" "\<bar>un_aoe b - val\<bar> \<le> semaem (seminfo s)" using a 3 by auto
    define n where "n = un_cnt x - 1"
    define y where "y = x\<lparr>un_cnt := n, un_ent := undo_close ((un_ent x)[length A := b\<lparr>un_aoe := a\<rparr>]) (length A) n\<rparr>"
    have yact: "active y = A @ B"
      unfolding y_def n_def using active_close [OF x(2) len] .
    have "un_cnt y = un_cnt x - 1" "length (un_ent y) = length (un_ent x)" by (simp_all add: y_def n_def)
    then have yok: "undo_ok (seminfo s) y"
      unfolding undo_ok_def yact
      using usorted_delete [OF srt] undo_okD(1,2,4) [OF ok] x(2) by auto
    define s1 where "s1 = s\<lparr>semu := (semu s)[up := y]\<rparr>"
    have r: "undo_adjust s up x (length A) val =
      (if n = 0 then obind (undo_unlink s1 up) (\<lambda>s2. Ok (False, undo_clear_np s2 up)) else Ok (False, s1))"
      using unf fit 3 unfolding Let_def s1_def y_def n_def by (simp only: not_True_eq_False if_False if_True refl simp_thms)
    have "ent_aoe (A @ B) k = (if k = (sid, num) then 0 else ent_aoe (active x) k)" for k
      by (simp only: ent_aoe_replace(2) [OF srt refl] x(2,3))
    then have "aoe s1 p k = (if p = u_procp s \<and> k = (sid, num) then un_aoe b - val else aoe s p k)" for p k
      unfolding s1_def using aoe_put [OF rep tab, of y p k] aoe_active [OF tab, folded x(1)] yact av(1) [symmetric] by simp
    then have aoe1: "aoe s1 = aoe_upd (aoe s) (u_procp s) (sid, num) val" by (rule upd)
    show ?thesis
    proof (cases "n = 0")
      case False
      then have "undo_rep s1 C F"
        unfolding s1_def using upC x(1) by (intro undo_rep_put [OF rep up(1) yok]) (auto simp: y_def)
      then show ?thesis
        using r False av(2) aoe1 by (intro exI [of _ s1] exI [of _ C]) (simp add: s1_def)
    next
      case True
      obtain P Q where C: "C = P @ up # Q" using upC by (meson split_list)
      have dC: "distinct (P @ up # Q)" using undo_repD(7) [OF rep] C by simp
      have path1: "np_path (semu s1) (semunp s1) (P @ up # Q)"
        using undo_repD(5) [OF rep] x(1) by (auto simp: s1_def C y_def intro: np_path_same)
      from path1 dC obtain us h where u: "undo_unlink s1 up = Ok (s1\<lparr>semu := us, semunp := h\<rparr>)"
          "np_path us h (P @ Q)" "same_entries (semu s1) us" "\<And>i. i \<notin> set P \<Longrightarrow> us ! i = semu s1 ! i"
        by (rule undo_unlink_spec) blast
      define s2 where "s2 = undo_clear_np (s1\<lparr>semu := us, semunp := h\<rparr>) up"
      have lus: "length us = length (semu s)" using u(3) by (simp add: same_entries_def s1_def)
      have se: "same_entries (semu s1) (semu s2)"
        using u(3) up(1) lus
        by (auto simp: s2_def undo_clear_np_def same_entries_def s1_def nth_list_update)
      have path2: "np_path (semu s2) (semunp s2) (P @ Q)"
        using u(2) dC by (auto simp: s2_def undo_clear_np_def intro: np_path_notin)
      have pathF: "np_path (semu s2) (semfup s2) F"
      proof -
        have "un_np (semu s2 ! i) = un_np (semu s ! i)" if "i \<in> set F" for i
        proof -
          have "i \<notin> set P" "i \<noteq> up" using that C undo_repD(9) [OF rep] by auto
          then show ?thesis using u(4) [of i] by (simp add: s2_def undo_clear_np_def s1_def)
        qed
        then show ?thesis
          using np_path_cong [OF undo_repD(6) [OF rep]] lus by (simp add: s2_def undo_clear_np_def s1_def)
      qed
      have "\<forall>z\<in>set (semu s1). undo_ok (seminfo s) z"
        using undo_repD(4) [OF rep] yok set_update_subset_insert by (fastforce simp: s1_def)
      then have oks: "\<forall>z\<in>set (semu s2). undo_ok (seminfo s) z" by (rule same_entries_ok [OF se])
      have cnts: "undo_cnt_ok (semu s2) (set (P @ Q))"
        unfolding undo_cnt_ok_def
      proof (intro allI impI)
        fix i assume i: "i < length (semu s2)"
        have "un_cnt (semu s2 ! i) = un_cnt ((semu s)[up := y] ! i)" "i < length (semu s)"
          using se i by (auto simp: same_entries_def s1_def)
        then show "0 < un_cnt (semu s2 ! i) \<longleftrightarrow> i \<in> set (P @ Q)"
          using undo_repD(10) [OF rep] True dC C up(1)
          by (cases "i = up") (auto simp: undo_cnt_ok_def y_def)
      qed
      have rep2: "undo_rep s2 (P @ Q) F"
        unfolding undo_rep_def
        using rep oks path2 pathF cnts C lus
        by (auto simp: undo_rep_def s2_def undo_clear_np_def s1_def)
      have "aoe s2 = aoe s1"
      proof -
        have "active (semu s2 ! v) = active (semu s1 ! v)" if "p < length (sem_undo_tab s)" "sem_undo_tab s ! p = Some v" for p v
          using same_entries_active [OF se, of v] undo_rep_tab(1) [OF rep that] by (simp add: s1_def)
        then show ?thesis
          by (auto simp: aoe_def s2_def undo_clear_np_def s1_def fun_eq_iff split: option.splits)
      qed
      then show ?thesis
        using r True av(2) aoe1 rep2 u(1)
        by (intro exI [of _ s2] exI [of _ "P @ Q"]) (simp add: s2_def undo_clear_np_def s1_def)
    qed
  qed
qed

text \<open>
  \<open>semaoe\<close> succeeds exactly when the abstract condition \<open>aoe_fits\<close> holds, and then changes exactly
  one entry of the table of adjustments; otherwise it changes none.
\<close>

lemma semaoe_spec:
  assumes rep: "undo_rep s C F" and tab: "u_procp s < length (sem_undo_tab s)"
  shows "\<exists>s'. undo_keep s s' \<and>
    (if aoe_fits s val (sid, num)
     then semaoe s val sid num = Ok (False, s') \<and> ua s' = ua s
       \<and> aoe s' = aoe_upd (aoe s) (u_procp s) (sid, num) val
       \<and> (val \<noteq> 0 \<longrightarrow> sem_undo_tab s' ! u_procp s \<noteq> None)
     else (\<exists>e\<in>{ERANGE, ENOSPC, EINVAL}. semaoe s val sid num = Ok (True, s') \<and> ua s' = (ua s)\<lparr>u_error := e\<rparr>)
       \<and> aoe s' = aoe s)"
proof (cases "val = 0 \<or> val > semaem (seminfo s) \<or> val < - semaem (seminfo s)")
  case True
  show ?thesis
  proof (cases "val = 0")
    case z: True
    have "undo_keep s s" using rep by (auto simp: undo_keep_def)
    then show ?thesis
      using z by (intro exI [of _ s]) (auto simp: semaoe_def aoe_fits_def aoe_upd_def fun_eq_iff)
  next
    case False
    have "undo_keep s (set_error s ERANGE)" using rep by (auto simp: undo_keep_def)
    then show ?thesis
      using True False by (intro exI [of _ "set_error s ERANGE"]) (auto simp: semaoe_def aoe_fits_def)
  qed
next
  case False
  then have val: "val \<noteq> 0" "\<bar>val\<bar> \<le> semaem (seminfo s)" by auto
  from rep tab show ?thesis
  proof (cases rule: undo_struct_spec)
    case none
    have "undo_keep s (set_error s ENOSPC)" using rep by (auto simp: undo_keep_def)
    then show ?thesis
      using none False by (intro exI [of _ "set_error s ENOSPC"]) (auto simp: semaoe_def aoe_fits_def)
  next
    case (some up s1 F1)
    have fr: "undo_frame s s1" using undo_struct_frame [OF some(1)] .
    note ff = undo_frame_fields [OF fr]
    have tab1: "u_procp s1 < length (sem_undo_tab s1)" "sem_undo_tab s1 ! u_procp s1 = Some up"
      using some tab ff by auto
    have upl: "up < length (semu s1)" using undo_rep_tab(1) [OF some(2) tab1] .
    define x where "x = semu s1 ! up"
    have xg: "aget (semu s1) up = Ok x" using upl by (simp add: x_def)
    have ok: "undo_ok (seminfo s1) x" using undo_repD(4) [OF some(2)] upl by (simp add: x_def)
    obtain i found where f: "undo_find (active x) sid num 0 = (i, found)" by fastforce
    from undo_find_spec [OF f undo_okD(3) [OF ok]] obtain A B where AB: "active x = A @ B" "i = length A"
        "\<forall>e\<in>set A. ult (ukey e) (sid, num)"
        "if found then B \<noteq> [] \<and> ukey (hd B) = (sid, num) else \<forall>e\<in>set B. ult (sid, num) (ukey e)"
      by auto
    have eq: "semaoe s val sid num =
       (if \<not> found then Ok (undo_insert s1 up x i val sid num) else undo_adjust s1 up x i val)"
      using semaoe_eq [OF _ _ _ some(1) xg f] False by auto
    have cur: "aoe s (u_procp s) = ent_aoe (active x)"
      using aoe_active [OF tab1] some(4) ff(6) by (auto simp: x_def fun_eq_iff)
    have card: "card {m. aoe s (u_procp s) m \<noteq> 0} = un_cnt x"
      using ent_aoe_card [OF ok] cur by simp
    have keep: "undo_keep s s'" if "undo_frame s1 s'" "undo_rep s' C' F'" "sem_undo_tab s' = sem_undo_tab s1" for s' C' F'
      using that some undo_frame_trans [OF fr] by (auto simp: undo_keep_def)
    show ?thesis
    proof (cases found)
      case False
      then have Bgt: "\<forall>e\<in>set B. ult (sid, num) (ukey e)" using AB(4) by simp
      have cur0: "aoe s (u_procp s) (sid, num) = 0"
        unfolding cur AB(1) using AB(3) Bgt ent_aoe_absent [of "(sid, num)" A] ent_aoe_absent [of "(sid, num)" B] by fastforce
      show ?thesis
      proof (cases "int (un_cnt x) < semume (seminfo s1)")
        case True
        from undo_insert_spec [OF some(2) tab1 x_def AB(1,3) Bgt val(1) _ True] val(2) ff(1) obtain s' C' where
          s': "undo_insert s1 up x (length A) val sid num = (False, s')" "undo_rep s' C' F1" "ua s' = ua s1"
            "aoe s' = aoe_upd (aoe s1) (u_procp s1) (sid, num) val" "sem_undo_tab s' = sem_undo_tab s1"
          by auto
        then show ?thesis
          using eq False AB(2) keep [OF undo_insert_frame [OF s'(1)] s'(2,5)] some ff val cur0 card True tab1
          by (intro exI [of _ s']) (simp add: aoe_fits_def)
      next
        case full: False
        then have r: "undo_insert s1 up x (length A) val sid num = (True, set_error s1 EINVAL)"
          by (simp add: undo_insert_def)
        have "undo_keep s (set_error s1 EINVAL)" using keep [of "set_error s1 EINVAL" C F1] some(2) by simp
        then show ?thesis
          using eq False AB(2) r some ff val cur0 card full
          by (intro exI [of _ "set_error s1 EINVAL"]) (auto simp: aoe_fits_def)
      qed
    next
      case True
      then obtain b B' where B: "B = b # B'" "ukey b = (sid, num)" using AB(4) by (cases B) auto
      have curb: "aoe s (u_procp s) (sid, num) = un_aoe b"
        unfolding cur using ent_aoe_present [OF undo_okD(3) [OF ok], of b] AB(1) B by simp
      then have nz: "aoe s (u_procp s) (sid, num) \<noteq> 0" using undo_okD(4) [OF ok] AB(1) B by simp
      have v1: "\<bar>val\<bar> \<le> semaem (seminfo s1)" using val(2) ff(1) by simp
      from undo_adjust_spec [OF some(2) tab1 x_def AB(1) [unfolded B(1)] B(2) val(1) v1] obtain s' C' where
        s': "undo_rep s' C' F1" "sem_undo_tab s' = sem_undo_tab s1"
          "if \<bar>un_aoe b - val\<bar> \<le> semaem (seminfo s1)
           then undo_adjust s1 up x (length A) val = Ok (False, s') \<and> ua s' = ua s1
             \<and> aoe s' = aoe_upd (aoe s1) (u_procp s1) (sid, num) val
           else undo_adjust s1 up x (length A) val = Ok (True, s') \<and> ua s' = (ua s1)\<lparr>u_error := ERANGE\<rparr>
             \<and> aoe s' = aoe s1"
        by blast
      show ?thesis
      proof (cases "\<bar>un_aoe b - val\<bar> \<le> semaem (seminfo s1)")
        case fit: True
        with s'(3) have r: "undo_adjust s1 up x (length A) val = Ok (False, s')" by simp
        then show ?thesis
          using eq True AB(2) keep [OF undo_adjust_frame [OF r] s'(1,2)] some ff val curb nz s'(2,3) fit tab1
          by (intro exI [of _ s']) (simp add: aoe_fits_def)
      next
        case unfit: False
        with s'(3) have r: "undo_adjust s1 up x (length A) val = Ok (True, s')" by simp
        then show ?thesis
          using eq True AB(2) keep [OF undo_adjust_frame [OF r] s'(1,2)] some ff val curb nz s'(3) unfit
          by (intro exI [of _ s']) (simp add: aoe_fits_def)
      qed
    qed
  qed
qed

end
