(* ===== verification/Sem_Ops.thy ===== *)
theory Sem_Ops
  imports Sem_Undo
begin

text \<open>
  Groups of semaphore operations: the loop of \<open>semop\<close> does all operations or none, \<open>semundo\<close>
  restores the state exactly, and the call as a whole, with its buffer from the kernel heap.
\<close>

section \<open>Groups of operations\<close>

text \<open>
  The effect of a list of operations on semaphore \<open>k\<close> and on the adjustment of semaphore number
  \<open>num\<close> of the set.
\<close>

fun opsum :: "nat \<Rightarrow> sembuf list \<Rightarrow> nat \<Rightarrow> int" where
  "opsum base [] k = 0"
| "opsum base (p # ps) k = (if base + nat (sem_num p) = k then sem_op p else 0) + opsum base ps k"

fun undosum :: "sembuf list \<Rightarrow> int \<Rightarrow> int" where
  "undosum [] num = 0"
| "undosum (p # ps) num =
     (if sem_flg p AND SEM_UNDO \<noteq> 0 \<and> sem_num p = num then sem_op p else 0) + undosum ps num"

lemma opsum_append [simp]: "opsum base (ps @ qs) k = opsum base ps k + opsum base qs k"
  by (induction ps) auto

lemma undosum_append [simp]: "undosum (ps @ qs) num = undosum ps num + undosum qs num"
  by (induction ps) auto

definition op_frame :: "sem_state \<Rightarrow> sem_state \<Rightarrow> bool" where
  "op_frame s s' \<longleftrightarrow>
     s' = s\<lparr>sems := sems s', ua := ua s', sem_undo_tab := sem_undo_tab s', semu := semu s',
            semunp := semunp s', semfup := semfup s', wakeups := wakeups s'\<rparr>
     \<and> length (sems s') = length (sems s)
     \<and> (\<forall>k<length (sems s). sempid (sems s' ! k) = sempid (sems s ! k))"

lemma op_frame_refl [simp]: "op_frame s s"
  by (simp add: op_frame_def)

lemma op_frame_trans:
  assumes "op_frame s s1" "op_frame s1 s2" shows "op_frame s s2"
proof -
  have "s1 = s\<lparr>sems := sems s1, ua := ua s1, sem_undo_tab := sem_undo_tab s1, semu := semu s1,
            semunp := semunp s1, semfup := semfup s1, wakeups := wakeups s1\<rparr>"
       "s2 = s1\<lparr>sems := sems s2, ua := ua s2, sem_undo_tab := sem_undo_tab s2, semu := semu s2,
            semunp := semunp s2, semfup := semfup s2, wakeups := wakeups s2\<rparr>"
    using assms by (auto simp: op_frame_def)
  then have "s2 = s\<lparr>sems := sems s2, ua := ua s2, sem_undo_tab := sem_undo_tab s2, semu := semu s2,
            semunp := semunp s2, semfup := semfup s2, wakeups := wakeups s2\<rparr>"
    by (cases s; cases s1; cases s2) simp
  then show ?thesis using assms by (simp add: op_frame_def)
qed

lemma op_frame_undo: "undo_frame s s' \<Longrightarrow> op_frame s s'"
proof -
  assume "undo_frame s s'"
  then have "s' = s\<lparr>ua := ua s', sem_undo_tab := sem_undo_tab s', semu := semu s', semunp := semunp s',
            semfup := semfup s'\<rparr>" by (simp add: undo_frame_def)
  then show ?thesis unfolding op_frame_def by (cases s; cases s') simp
qed

lemma op_frame_fields:
  assumes "op_frame s s'"
  shows "seminfo s' = seminfo s" "sema s' = sema s" "semmap s' = semmap s" "kheap s' = kheap s"
    "u_procp s' = u_procp s" "p_pid s' = p_pid s" "sem_time s' = sem_time s" "copied s' = copied s"
    "length (sems s') = length (sems s)"
proof -
  show "length (sems s') = length (sems s)" using assms unfolding op_frame_def by blast
qed (subst conjunct1 [OF assms [unfolded op_frame_def]], simp)+

text \<open>Steps on the semaphores that leave the undo structures alone.\<close>

definition sem_step :: "sem_state \<Rightarrow> sem_state \<Rightarrow> (nat \<Rightarrow> int) \<Rightarrow> bool" where
  "sem_step s s' d \<longleftrightarrow>
     s' = s\<lparr>sems := sems s', wakeups := wakeups s'\<rparr> \<and> length (sems s') = length (sems s)
     \<and> (\<forall>k<length (sems s). sempid (sems s' ! k) = sempid (sems s ! k)
          \<and> semval (sems s' ! k) = semval (sems s ! k) + d k)"

lemma sem_step_fields:
  assumes "sem_step s s' d"
  shows "ua s' = ua s" "sem_undo_tab s' = sem_undo_tab s" "semu s' = semu s" "semunp s' = semunp s"
    "semfup s' = semfup s" "seminfo s' = seminfo s" "u_procp s' = u_procp s" "length (sems s') = length (sems s)"
proof -
  show "length (sems s') = length (sems s)" using assms unfolding sem_step_def by blast
qed (subst conjunct1 [OF assms [unfolded sem_step_def]], simp)+

lemma sem_step_frame: "sem_step s s' d \<Longrightarrow> op_frame s s'"
proof -
  assume a: "sem_step s s' d"
  then have "s' = s\<lparr>sems := sems s', wakeups := wakeups s'\<rparr>" by (simp add: sem_step_def)
  with a show ?thesis unfolding op_frame_def sem_step_def by (cases s; cases s') simp
qed

lemma sem_step_undo:
  assumes "sem_step s s' d"
  shows "aoe s' = aoe s" "undo_rep s' C F \<longleftrightarrow> undo_rep s C F"
  using sem_step_fields [OF assms] by (auto simp: aoe_def undo_rep_def fun_eq_iff split: option.splits)

lemma wake_ncnt_step: "k < length (sems s) \<Longrightarrow> \<exists>s'. wake_ncnt s k = Ok s' \<and> sem_step s s' (\<lambda>_. 0)"
  by (auto simp: wake_ncnt_def sem_step_def sem_wakeup_def nth_list_update)

lemma wake_zcnt_step: "k < length (sems s) \<Longrightarrow> \<exists>s'. wake_zcnt s k = Ok s' \<and> sem_step s s' (\<lambda>_. 0)"
  by (auto simp: wake_zcnt_def sem_step_def sem_wakeup_def nth_list_update)

lemma upd_sem_step:
  assumes "k < length (sems s)" "sempid (f (sems s ! k)) = sempid (sems s ! k)"
    "semval (f (sems s ! k)) = semval (sems s ! k) + d"
  shows "\<exists>s'. upd_sem s k f = Ok s' \<and> sem_step s s' (\<lambda>j. if j = k then d else 0)"
  using assms by (auto simp: upd_sem_def sem_step_def nth_list_update)

lemma sem_step_trans: "sem_step s s1 d \<Longrightarrow> sem_step s1 s2 e \<Longrightarrow> sem_step s s2 (\<lambda>k. d k + e k)"
proof -
  assume a: "sem_step s s1 d" "sem_step s1 s2 e"
  then have "s1 = s\<lparr>sems := sems s1, wakeups := wakeups s1\<rparr>" "s2 = s1\<lparr>sems := sems s2, wakeups := wakeups s2\<rparr>"
    by (simp_all add: sem_step_def)
  then have "s2 = s\<lparr>sems := sems s2, wakeups := wakeups s2\<rparr>" by (cases s; cases s1; cases s2) simp
  with a show ?thesis by (simp add: sem_step_def)
qed

text \<open>
  \<open>moved s sid d v s'\<close>: from \<open>s\<close> to \<open>s'\<close> the semaphore values grew by \<open>d\<close>, the adjustments of the
  current process for the set \<open>sid\<close> went down by \<open>v\<close>, and nothing else happened (the counters of
  waiting processes and the error code apart).
\<close>

definition moved :: "sem_state \<Rightarrow> int \<Rightarrow> (nat \<Rightarrow> int) \<Rightarrow> (int \<Rightarrow> int) \<Rightarrow> sem_state \<Rightarrow> bool" where
  "moved s sid d v s' \<longleftrightarrow>
     op_frame s s' \<and> (\<exists>C F. undo_rep s' C F) \<and> length (sem_undo_tab s') = length (sem_undo_tab s)
     \<and> (\<forall>p. sem_undo_tab s ! p \<noteq> None \<longrightarrow> sem_undo_tab s' ! p = sem_undo_tab s ! p)
     \<and> (\<forall>k<length (sems s). semval (sems s' ! k) = semval (sems s ! k) + d k)
     \<and> (\<forall>p m. aoe s' p m = aoe s p m - (if p = u_procp s \<and> fst m = sid then v (snd m) else 0))"

lemma moved_refl: "undo_rep s C F \<Longrightarrow> moved s sid (\<lambda>_. 0) (\<lambda>_. 0) s"
  by (auto simp: moved_def)

lemma moved_trans:
  assumes "moved s sid d v s1" "moved s1 sid e w s2"
  shows "moved s sid (\<lambda>k. d k + e k) (\<lambda>n. v n + w n) s2"
proof -
  have f: "op_frame s s1" "op_frame s1 s2" using assms by (auto simp: moved_def)
  note ff = op_frame_fields [OF f(1)]
  have "semval (sems s2 ! k) = semval (sems s ! k) + (d k + e k)" if "k < length (sems s)" for k
    using assms that ff(9) by (simp add: moved_def)
  moreover have "aoe s2 p m = aoe s p m - (if p = u_procp s \<and> fst m = sid then v (snd m) + w (snd m) else 0)" for p m
    using assms ff(5) unfolding moved_def by (cases m) simp
  moreover have "length (sem_undo_tab s2) = length (sem_undo_tab s)"
    "\<And>p. sem_undo_tab s ! p \<noteq> None \<Longrightarrow> sem_undo_tab s2 ! p = sem_undo_tab s ! p"
    "\<exists>C F. undo_rep s2 C F"
    using assms by (auto simp: moved_def)
  ultimately show ?thesis
    unfolding moved_def using op_frame_trans [OF f] by blast
qed

lemma moved_sem_step: "sem_step s s' d \<Longrightarrow> undo_rep s C F \<Longrightarrow> moved s sid d (\<lambda>_. 0) s'"
proof -
  assume a: "sem_step s s' d" and rep: "undo_rep s C F"
  have "\<forall>k<length (sems s). semval (sems s' ! k) = semval (sems s ! k) + d k"
    using a unfolding sem_step_def by blast
  then show ?thesis
    using rep sem_step_frame [OF a] sem_step_undo [OF a] sem_step_fields(2) [OF a] by (auto simp: moved_def)
qed

lemma moved_undo:
  assumes "undo_keep s s'" "aoe s' = aoe_upd (aoe s) (u_procp s) (sid, num) val"
  shows "moved s sid (\<lambda>_. 0) (\<lambda>n. if n = num then val else 0) s'"
proof -
  have f: "undo_frame s s'" using assms(1) by (simp add: undo_keep_def)
  show ?thesis
    using assms op_frame_undo [OF f] undo_frame_fields(3) [OF f]
    by (auto simp: moved_def undo_keep_def aoe_upd_def prod_eq_iff)
qed

lemma moved_undo_fail:
  assumes "undo_keep s s'" "aoe s' = aoe s"
  shows "moved s sid (\<lambda>_. 0) (\<lambda>_. 0) s'"
proof -
  have f: "undo_frame s s'" using assms(1) by (simp add: undo_keep_def)
  show ?thesis
    using assms op_frame_undo [OF f] undo_frame_fields(3) [OF f] by (auto simp: moved_def undo_keep_def)
qed

lemma moved_error: "undo_rep s C F \<Longrightarrow> moved s sid (\<lambda>_. 0) (\<lambda>_. 0) (set_error s e)"
  by (rule moved_undo_fail) (auto simp: undo_keep_def)

text \<open>
  \<open>after s0 sid base ops s\<close>: in \<open>s\<close> the operations \<open>ops\<close> have been done, and nothing else, since \<open>s0\<close>.
\<close>

definition undo_small :: "sem_state \<Rightarrow> sembuf list \<Rightarrow> bool" where
  "undo_small s ops \<longleftrightarrow>
     (\<forall>p\<in>set ops. sem_flg p AND SEM_UNDO \<noteq> 0 \<longrightarrow> sem_op p \<noteq> 0 \<longrightarrow>
        \<bar>sem_op p\<bar> \<le> semaem (seminfo s) \<and> sem_undo_tab s ! u_procp s \<noteq> None)"

definition after :: "sem_state \<Rightarrow> int \<Rightarrow> nat \<Rightarrow> sembuf list \<Rightarrow> sem_state \<Rightarrow> bool" where
  "after s0 sid base ops s \<longleftrightarrow> moved s0 sid (opsum base ops) (undosum ops) s \<and> undo_small s ops"

definition vals_ok :: "sem_state \<Rightarrow> bool" where
  "vals_ok s \<longleftrightarrow> semvmx (seminfo s) \<le> 32767 \<and>
     (\<forall>x\<in>set (sems s). 0 \<le> semval x \<and> semval x \<le> semvmx (seminfo s))"

definition ops_ok :: "sem_state \<Rightarrow> nat \<Rightarrow> sembuf list \<Rightarrow> bool" where
  "ops_ok s base ops \<longleftrightarrow> u_procp s < length (sem_undo_tab s) \<and>
     (\<forall>p\<in>set ops. 0 \<le> sem_num p \<and> base + nat (sem_num p) < length (sems s)
        \<and> - 32768 \<le> sem_op p \<and> sem_op p \<le> 32767)"

lemma aoe_bound: "undo_rep s C F \<Longrightarrow> \<bar>aoe s p k\<bar> \<le> semaem (seminfo s)"
proof -
  assume rep: "undo_rep s C F"
  show ?thesis
  proof (cases "p < length (sem_undo_tab s) \<and> sem_undo_tab s ! p \<noteq> None")
    case True
    then obtain up where up: "sem_undo_tab s ! p = Some up" "p < length (sem_undo_tab s)" by auto
    have ok: "undo_ok (seminfo s) (semu s ! up)"
      using undo_repD(4) [OF rep] undo_rep_tab(1) [OF rep up(2,1)] by simp
    have "\<bar>ent_aoe (active (semu s ! up)) k\<bar> \<le> semaem (seminfo s)"
    proof (cases "k \<in> ukey ` set (active (semu s ! up))")
      case True
      then show ?thesis
        using ent_aoe_present [OF undo_okD(3) [OF ok]] undo_okD(4) [OF ok] by auto
    next
      case False
      then show ?thesis using undo_repD(1) [OF rep] by (simp add: ent_aoe_absent)
    qed
    then show ?thesis using up by (simp add: aoe_def)
  next
    case False
    then show ?thesis using undo_repD(1) [OF rep] by (auto simp: aoe_def)
  qed
qed

lemma aoe_card:
  assumes "undo_rep s C F"
  shows "finite {m. aoe s p m \<noteq> 0}" "int (card {m. aoe s p m \<noteq> 0}) \<le> semume (seminfo s)"
proof -
  have "finite {m. aoe s p m \<noteq> 0} \<and> int (card {m. aoe s p m \<noteq> 0}) \<le> semume (seminfo s)"
  proof (cases "p < length (sem_undo_tab s) \<and> sem_undo_tab s ! p \<noteq> None")
    case True
    then obtain up where up: "sem_undo_tab s ! p = Some up" "p < length (sem_undo_tab s)" by auto
    have ok: "undo_ok (seminfo s) (semu s ! up)"
      using undo_repD(4) [OF assms] undo_rep_tab(1) [OF assms up(2,1)] by simp
    have "{m. ent_aoe (active (semu s ! up)) m \<noteq> 0} \<subseteq> ukey ` set (active (semu s ! up))"
      using ent_aoe_absent by fastforce
    then have "finite {m. ent_aoe (active (semu s ! up)) m \<noteq> 0}" by (rule finite_subset) simp
    then show ?thesis
      using ent_aoe_card [OF ok] undo_okD(1) [OF ok] up by (simp add: aoe_def)
  next
    case False
    then have "aoe s p m = 0" for m by (auto simp: aoe_def)
    then show ?thesis using undo_repD(3) [OF assms] by simp
  qed
  then show "finite {m. aoe s p m \<noteq> 0}" "int (card {m. aoe s p m \<noteq> 0}) \<le> semume (seminfo s)" by auto
qed

lemma undo_small_moved: "undo_small s ops \<Longrightarrow> moved s sid d v s' \<Longrightarrow> undo_small s' ops"
  using op_frame_fields(1,5) [of s s'] by (auto simp: undo_small_def moved_def)

lemma afterI:
  assumes "after s0 sid base ops s" "moved s sid d v s'"
    "\<And>k. opsum base ops' k = opsum base ops k + d k" "\<And>n. undosum ops' n = undosum ops n + v n"
    "undo_small s' ops'"
  shows "after s0 sid base ops' s'"
proof -
  have "opsum base ops' = (\<lambda>k. opsum base ops k + d k)" "undosum ops' = (\<lambda>n. undosum ops n + v n)"
    using assms(3,4) by auto
  then show ?thesis
    using moved_trans [of s0 sid "opsum base ops" "undosum ops" s d v s'] assms by (simp add: after_def)
qed

lemma after_rep: "after s0 sid base ops s \<Longrightarrow> \<exists>C F. undo_rep s C F"
  by (simp add: after_def moved_def)

lemma after_fields:
  assumes "after s0 sid base ops s"
  shows "seminfo s = seminfo s0" "sema s = sema s0" "u_procp s = u_procp s0"
    "length (sems s) = length (sems s0)" "length (sem_undo_tab s) = length (sem_undo_tab s0)"
    "kheap s = kheap s0" "p_pid s = p_pid s0"
proof -
  have f: "op_frame s0 s" using assms by (simp add: after_def moved_def)
  show "seminfo s = seminfo s0" "sema s = sema s0" "u_procp s = u_procp s0"
    "length (sems s) = length (sems s0)" "kheap s = kheap s0" "p_pid s = p_pid s0"
    using op_frame_fields [OF f] by simp_all
  show "length (sem_undo_tab s) = length (sem_undo_tab s0)" using assms by (simp add: after_def moved_def)
qed

lemma after_vals: "after s0 sid base ops s \<Longrightarrow> k < length (sems s0) \<Longrightarrow>
    semval (sems s ! k) = semval (sems s0 ! k) + opsum base ops k"
  by (simp add: after_def moved_def)

lemma after_aoe: "after s0 sid base ops s \<Longrightarrow>
    aoe s p m = aoe s0 p m - (if p = u_procp s0 \<and> fst m = sid then undosum ops (snd m) else 0)"
  by (cases m) (simp add: after_def moved_def)

lemma ops_ok_after: "ops_ok s0 base ps \<Longrightarrow> after s0 sid base ops s \<Longrightarrow> ops_ok s base ps"
  using after_fields [of s0 sid base ops s] by (auto simp: ops_ok_def)

text \<open>A state was reached with the first \<open>j\<close> operations done and all values in range.\<close>

definition reached :: "sem_state \<Rightarrow> int \<Rightarrow> nat \<Rightarrow> sembuf list \<Rightarrow> bool" where
  "reached s0 sid base ops \<longleftrightarrow> (\<exists>s. after s0 sid base ops s \<and> vals_ok s)"

lemma reached_fits:
  assumes "reached s0 sid base ops" "after s0 sid base (ops @ [p]) s"
    "sem_op p \<noteq> 0" "sem_flg p AND SEM_UNDO \<noteq> 0" "- 32768 \<le> sem_op p"
  shows "aoe_fits s (int16 (- sem_op p)) (sid, sem_num p)" "int16 (- sem_op p) = - sem_op p"
proof -
  obtain t where t: "after s0 sid base ops t" "vals_ok t" using assms(1) by (auto simp: reached_def)
  obtain C F where rep: "undo_rep t C F" using after_rep [OF t(1)] by blast
  obtain C' F' where rep': "undo_rep s C' F'" using after_rep [OF assms(2)] by blast
  have ff: "seminfo s = seminfo t" "u_procp s = u_procp t" "u_procp t = u_procp s0"
    using after_fields [OF t(1)] after_fields [OF assms(2)] by auto
  have small: "\<bar>sem_op p\<bar> \<le> semaem (seminfo s)" "sem_undo_tab s ! u_procp s \<noteq> None"
    using assms(2-4) by (auto simp: after_def undo_small_def)
  then show i: "int16 (- sem_op p) = - sem_op p" using undo_repD(2) [OF rep'] by simp
  let ?k = "(sid, sem_num p)" and ?q = "u_procp s"
  have rel: "aoe s ?q m = aoe t ?q m - (if m = ?k then sem_op p else 0)" for m
    using after_aoe [OF t(1)] after_aoe [OF assms(2)] assms(4) ff by (auto simp: prod_eq_iff)
  have bnd: "\<bar>aoe s ?q ?k - - sem_op p\<bar> \<le> semaem (seminfo s)"
    using aoe_bound [OF rep, of ?q ?k] rel [of ?k] ff by simp
  have "int (card {m. aoe s ?q m \<noteq> 0}) < semume (seminfo s)" if z: "aoe s ?q ?k = 0"
  proof -
    have "insert ?k {m. aoe s ?q m \<noteq> 0} = {m. aoe t ?q m \<noteq> 0}"
      using rel z assms(3) by (auto split: if_splits)
    moreover have "?k \<notin> {m. aoe s ?q m \<noteq> 0}" using z by simp
    ultimately have "card {m. aoe t ?q m \<noteq> 0} = Suc (card {m. aoe s ?q m \<noteq> 0})"
      using card_insert_disjoint [OF aoe_card(1) [OF rep']] by metis
    then show ?thesis using aoe_card(2) [OF rep, of ?q] ff by simp
  qed
  then show "aoe_fits s (int16 (- sem_op p)) ?k"
    unfolding aoe_fits_def i using small bnd by auto
qed

lemma semundo_spec:
  "n \<le> length ops \<Longrightarrow> after s0 sid base (take n ops) s \<Longrightarrow> \<forall>j<n. reached s0 sid base (take j ops) \<Longrightarrow>
   ops_ok s0 base ops \<Longrightarrow> \<exists>s'. semundo s ops n sid base = Ok s' \<and> after s0 sid base [] s' \<and> ua s' = ua s"
proof (induction n arbitrary: s)
  case (Suc n)
  let ?p = "ops ! n"
  let ?k = "base + nat (sem_num ?p)"
  have tk: "take (Suc n) ops = take n ops @ [?p]" using Suc.prems(1) by (simp add: take_Suc_conv_app_nth)
  have aft: "after s0 sid base (take n ops @ [?p]) s" using Suc.prems(2) by (simp add: tk)
  have r: "reached s0 sid base (take n ops)" using Suc.prems(3) by simp
  have mem: "?p \<in> set ops" using Suc.prems(1) by simp
  then have p: "?k < length (sems s0)" "- 32768 \<le> sem_op ?p" "sem_op ?p \<le> 32767"
    "u_procp s0 < length (sem_undo_tab s0)"
    using Suc.prems(4) by (auto simp: ops_ok_def)
  note ff = after_fields [OF aft]
  obtain C F where rep: "undo_rep s C F" using after_rep [OF aft] by blast
  have small: "undo_small s (take n ops)" using aft by (auto simp: after_def undo_small_def)
  have IH: "\<exists>s'. semundo t ops n sid base = Ok s' \<and> after s0 sid base [] s' \<and> ua s' = ua t"
    if "after s0 sid base (take n ops) t" for t
    using Suc.IH [OF _ that] Suc.prems(1,3,4) by auto
  show ?case
  proof (cases "sem_op ?p = 0")
    case True
    have "after s0 sid base (take n ops) s"
      using True small by (intro afterI [OF aft moved_refl [OF rep]]) (auto simp: afterI)
    from IH [OF this] show ?thesis using True by (simp add: Let_def)
  next
    case False
    obtain t where t: "after s0 sid base (take n ops) t" "vals_ok t" using r by (auto simp: reached_def)
    have tv: "0 \<le> semval (sems t ! ?k)" "semval (sems t ! ?k) \<le> 32767"
      using t(2) after_fields(4) [OF t(1)] p(1) by (auto simp: vals_ok_def dest!: bspec [OF _ nth_mem])
    have "semval (sems s ! ?k) - sem_op ?p = semval (sems t ! ?k)"
      using after_vals [OF t(1) p(1)] after_vals [OF aft p(1)] by simp
    then have u: "uint16 (semval (sems s ! ?k) - sem_op ?p) = semval (sems s ! ?k) + - sem_op ?p"
      using tv by simp
    obtain s1 where s1: "upd_sem s ?k (\<lambda>x. x\<lparr>semval := uint16 (semval x - sem_op ?p)\<rparr>) = Ok s1"
        "sem_step s s1 (\<lambda>j. if j = ?k then - sem_op ?p else 0)"
      using upd_sem_step [of ?k s "\<lambda>x. x\<lparr>semval := uint16 (semval x - sem_op ?p)\<rparr>" "- sem_op ?p"]
        p(1) ff(4) u by auto
    note m1 = moved_sem_step [OF s1(2) rep]
    note sf = sem_step_fields [OF s1(2)]
    show ?thesis
    proof (cases "sem_flg ?p AND SEM_UNDO \<noteq> 0")
      case no: False
      have "after s0 sid base (take n ops) s1"
        using no undo_small_moved [OF small m1] by (intro afterI [OF aft m1]) auto
      from IH [OF this] show ?thesis using False no s1(1) sf(1) by (simp add: Let_def)
    next
      case undo: True
      have fits: "aoe_fits s1 (int16 (- sem_op ?p)) (sid, sem_num ?p)" "int16 (- sem_op ?p) = - sem_op ?p"
        using reached_fits [OF r aft False undo p(2)] sf sem_step_undo(1) [OF s1(2)]
        by (simp_all add: aoe_fits_def)
      have rep1: "undo_rep s1 C F" using rep sem_step_undo(2) [OF s1(2)] by simp
      have "u_procp s1 < length (sem_undo_tab s1)" using sf ff p(4) by simp
      from semaoe_spec [OF rep1 this, of "int16 (- sem_op ?p)" sid "sem_num ?p"] fits obtain s2 where
        s2: "undo_keep s1 s2" "semaoe s1 (int16 (- sem_op ?p)) sid (sem_num ?p) = Ok (False, s2)" "ua s2 = ua s1"
          "aoe s2 = aoe_upd (aoe s1) (u_procp s1) (sid, sem_num ?p) (- sem_op ?p)"
        by auto
      note m2 = moved_undo [OF s2(1,4)]
      have "after s0 sid base (take n ops) s2"
        using undo undo_small_moved [OF undo_small_moved [OF small m1] m2]
        by (intro afterI [OF aft moved_trans [OF m1 m2]]) auto
      from IH [OF this] show ?thesis using False undo s1(1) s2(2,3) sf(1) by (simp add: Let_def)
    qed
  qed
qed simp

definition pass_ok :: "sem_state \<Rightarrow> int \<Rightarrow> nat \<Rightarrow> sembuf list \<Rightarrow> pass \<Rightarrow> sem_state \<Rightarrow> bool" where
  "pass_ok s0 sid base ops r s' \<longleftrightarrow>
     (case r of
        Passed \<Rightarrow> after s0 sid base ops s' \<and> vals_ok s' \<and> ua s' = ua s0
      | Refused \<Rightarrow> after s0 sid base [] s' \<and> u_error (ua s') \<noteq> 0
      | Blocked c \<Rightarrow> after s0 sid base [] s')"

lemma vals_okI:
  assumes "vals_ok s" "moved s sid d v s'"
    "\<And>k. k < length (sems s) \<Longrightarrow> 0 \<le> semval (sems s ! k) + d k \<and> semval (sems s ! k) + d k \<le> semvmx (seminfo s)"
  shows "vals_ok s'"
proof -
  have f: "op_frame s s'" using assms(2) by (simp add: moved_def)
  note ff = op_frame_fields [OF f]
  have "0 \<le> semval x \<and> semval x \<le> semvmx (seminfo s)" if "x \<in> set (sems s')" for x
    using that assms(2,3) ff(9) by (auto simp: in_set_conv_nth moved_def)
  then show ?thesis using assms(1) ff(1) by (simp add: vals_ok_def)
qed

lemma vals_ok_nth: "vals_ok s \<Longrightarrow> k < length (sems s) \<Longrightarrow>
   0 \<le> semval (sems s ! k) \<and> semval (sems s ! k) \<le> semvmx (seminfo s) \<and> semval (sems s ! k) \<le> 32767"
  by (fastforce simp: vals_ok_def dest!: bspec [OF _ nth_mem])

text \<open>The invariant of the loop over the operations, at operation \<open>i\<close>.\<close>

definition loop_ok :: "sem_state \<Rightarrow> int \<Rightarrow> nat \<Rightarrow> sembuf list \<Rightarrow> nat \<Rightarrow> sem_state \<Rightarrow> bool" where
  "loop_ok s0 sid base ops i s \<longleftrightarrow> after s0 sid base (take i ops) s \<and> vals_ok s \<and> ua s = ua s0 \<and> i \<le> length ops
     \<and> (\<forall>j<i. reached s0 sid base (take j ops)) \<and> ops_ok s0 base ops"

lemma loop_ok_aft: "loop_ok s0 sid base ops i s \<Longrightarrow> after s0 sid base (take i ops) s"
  by (simp add: loop_ok_def)

text \<open>Giving up at operation \<open>i\<close> undoes everything.\<close>

lemma loop_undo:
  assumes "loop_ok s0 sid base ops i s" "moved s sid (\<lambda>_. 0) (\<lambda>_. 0) s1"
  shows "\<exists>s2. semundo s1 ops i sid base = Ok s2 \<and> after s0 sid base [] s2 \<and> ua s2 = ua s1"
proof -
  have "after s0 sid base (take i ops) s1"
    using assms undo_small_moved [OF _ assms(2)]
    by (intro afterI [OF _ assms(2)]) (auto simp: loop_ok_def after_def)
  then show ?thesis using semundo_spec [of i ops] assms(1) by (auto simp: loop_ok_def)
qed

lemma after_nil_step:
  assumes "after s0 sid base [] s" "sem_step s s1 (\<lambda>_. 0)"
  shows "after s0 sid base [] s1"
proof -
  obtain C F where rep: "undo_rep s C F" using after_rep [OF assms(1)] by blast
  show ?thesis
    by (rule afterI [OF assms(1) moved_sem_step [OF assms(2) rep]]) (auto simp: undo_small_def)
qed

text \<open>Going to sleep at operation \<open>i\<close>, or failing at once.\<close>

lemma loop_block:
  assumes l: "loop_ok s0 sid base ops i s" and k: "k < length (sems s)"
    and f: "\<And>x. sempid (f x) = sempid x \<and> semval (f x) = semval x"
  shows "\<exists>r s'. obind (semundo s ops i sid base) (\<lambda>s1.
          if w then Ok (Refused, set_error s1 EAGAIN)
          else obind (upd_sem s1 k f) (\<lambda>s2. Ok (Blocked c, s2))) = Ok (r, s') \<and> r \<noteq> Passed
        \<and> pass_ok s0 sid base ops r s'"
proof -
  obtain C F where rep: "undo_rep s C F" using after_rep [OF loop_ok_aft [OF l]] by blast
  obtain s1 where s1: "semundo s ops i sid base = Ok s1" "after s0 sid base [] s1"
    using loop_undo [OF l moved_refl [OF rep]] by blast
  obtain C' F' where rep1: "undo_rep s1 C' F'" using after_rep [OF s1(2)] by blast
  show ?thesis
  proof (cases w)
    case True
    have "after s0 sid base [] (set_error s1 EAGAIN)"
      by (rule afterI [OF s1(2) moved_error [OF rep1]]) (auto simp: undo_small_def)
    then show ?thesis using s1(1) True by (simp add: pass_ok_def EAGAIN_def)
  next
    case False
    have "k < length (sems s1)"
      using k after_fields(4) [OF s1(2)] l after_fields(4) [of s0 sid base "take i ops" s] by (simp add: loop_ok_def)
    then obtain s2 where s2: "upd_sem s1 k f = Ok s2" "sem_step s1 s2 (\<lambda>j. if j = k then 0 else 0)"
      using upd_sem_step [of k s1 f 0] f by auto
    have "after s0 sid base [] s2" using after_nil_step [OF s1(2)] s2(2) by simp
    then show ?thesis using s1(1) s2(1) False by (simp add: pass_ok_def)
  qed
qed

text \<open>Doing operation \<open>i\<close>: a step that adds its value to its semaphore and records it for undoing.\<close>

lemma loop_next:
  assumes l: "loop_ok s0 sid base ops i s" and i: "i < length ops"
    and m: "moved s sid (\<lambda>_. 0) (\<lambda>n. if sem_flg (ops ! i) AND SEM_UNDO \<noteq> 0 \<and> n = sem_num (ops ! i) then sem_op (ops ! i) else 0) s1"
    and u: "ua s1 = ua s"
    and st: "sem_step s1 s2 (\<lambda>k. if k = base + nat (sem_num (ops ! i)) then sem_op (ops ! i) else 0)"
    and rng: "0 \<le> semval (sems s ! (base + nat (sem_num (ops ! i)))) + sem_op (ops ! i)"
      "semval (sems s ! (base + nat (sem_num (ops ! i)))) + sem_op (ops ! i) \<le> semvmx (seminfo s)"
    and small: "sem_flg (ops ! i) AND SEM_UNDO \<noteq> 0 \<Longrightarrow> sem_op (ops ! i) \<noteq> 0 \<Longrightarrow>
      \<bar>sem_op (ops ! i)\<bar> \<le> semaem (seminfo s) \<and> sem_undo_tab s1 ! u_procp s \<noteq> None"
  shows "loop_ok s0 sid base ops (Suc i) s2"
proof -
  obtain C F where rep1: "undo_rep s1 C F" using m by (auto simp: moved_def)
  note m12 = moved_trans [OF m moved_sem_step [OF st rep1]]
  have aft: "after s0 sid base (take i ops) s" using l by (simp add: loop_ok_def)
  have tk: "take (Suc i) ops = take i ops @ [ops ! i]" using i by (simp add: take_Suc_conv_app_nth)
  have usm: "undo_small s2 (take i ops)"
    using undo_small_moved [OF _ m12] aft by (simp add: after_def)
  have f1: "op_frame s s1" "op_frame s1 s2" using m sem_step_frame [OF st] by (auto simp: moved_def)
  have "undo_small s2 (take i ops @ [ops ! i])"
    using usm small sem_step_fields(2) [OF st] op_frame_fields(1,5) [OF f1(1)] op_frame_fields(1,5) [OF f1(2)]
    by (auto simp: undo_small_def)
  then have "after s0 sid base (take (Suc i) ops) s2"
    by (intro afterI [OF aft m12]) (auto simp: tk)
  moreover have "vals_ok s2"
  proof (rule vals_okI [OF _ m12])
    show v: "vals_ok s" using l by (simp add: loop_ok_def)
    show "0 \<le> semval (sems s ! k) + (0 + (if k = base + nat (sem_num (ops ! i)) then sem_op (ops ! i) else 0)) \<and>
      semval (sems s ! k) + (0 + (if k = base + nat (sem_num (ops ! i)) then sem_op (ops ! i) else 0)) \<le> semvmx (seminfo s)"
      if "k < length (sems s)" for k
      using vals_ok_nth [OF v that] rng by auto
  qed
  moreover have "reached s0 sid base (take i ops)" using l by (auto simp: reached_def loop_ok_def)
  ultimately show ?thesis
    using l i u sem_step_fields(1) [OF st] by (auto simp: loop_ok_def less_Suc_eq)
qed

lemma loop_wake:
  assumes "sem_step s1 s2 d" "k < length (sems s1)"
  shows "\<exists>s3. obind (aget (sems s2) k) (\<lambda>y. obind (if semval y = 0 then wake_zcnt s2 k else Ok s2)
     (\<lambda>s4. Ok (Passed, s4))) = Ok (Passed, s3) \<and> sem_step s1 s3 d"
proof -
  have k: "k < length (sems s2)" using assms sem_step_fields(8) [OF assms(1)] by simp
  obtain s3 where s3: "wake_zcnt s2 k = Ok s3" "sem_step s2 s3 (\<lambda>_. 0)" using wake_zcnt_step [OF k] by blast
  have "sem_step s1 s3 d" using sem_step_trans [OF assms(1) s3(2)] by simp
  then show ?thesis using s3(1) assms(1) k by (cases "semval (sems s2 ! k) = 0") auto
qed

text \<open>What the call of \<open>semaoe\<close> for operation \<open>i\<close> may do.\<close>

lemma loop_aoe:
  assumes l: "loop_ok s0 sid base ops i s" and i: "i < length ops"
  shows "\<exists>b s1. (if sem_flg (ops ! i) AND SEM_UNDO \<noteq> 0 then semaoe s (sem_op (ops ! i)) sid (sem_num (ops ! i))
                 else Ok (False, s)) = Ok (b, s1)
    \<and> (if b then moved s sid (\<lambda>_. 0) (\<lambda>_. 0) s1 \<and> u_error (ua s1) \<noteq> 0
       else moved s sid (\<lambda>_. 0) (\<lambda>n. if sem_flg (ops ! i) AND SEM_UNDO \<noteq> 0 \<and> n = sem_num (ops ! i) then sem_op (ops ! i) else 0) s1
         \<and> sems s1 = sems s \<and> ua s1 = ua s \<and> (sem_flg (ops ! i) AND SEM_UNDO \<noteq> 0 \<longrightarrow> sem_op (ops ! i) \<noteq> 0 \<longrightarrow>
            \<bar>sem_op (ops ! i)\<bar> \<le> semaem (seminfo s) \<and> sem_undo_tab s1 ! u_procp s \<noteq> None))"
proof -
  obtain C F where rep: "undo_rep s C F" using after_rep [OF loop_ok_aft [OF l]] by blast
  have tab: "u_procp s < length (sem_undo_tab s)"
    using l after_fields [OF loop_ok_aft [OF l]] by (auto simp: loop_ok_def ops_ok_def)
  show ?thesis
  proof (cases "sem_flg (ops ! i) AND SEM_UNDO \<noteq> 0")
    case True
    show ?thesis
    proof (cases "aoe_fits s (sem_op (ops ! i)) (sid, sem_num (ops ! i))")
      case fits: True
      with semaoe_spec [OF rep tab, of "sem_op (ops ! i)" sid "sem_num (ops ! i)"] obtain s1 where
        s1: "undo_keep s s1" "semaoe s (sem_op (ops ! i)) sid (sem_num (ops ! i)) = Ok (False, s1)" "ua s1 = ua s"
          "aoe s1 = aoe_upd (aoe s) (u_procp s) (sid, sem_num (ops ! i)) (sem_op (ops ! i))"
          "sem_op (ops ! i) \<noteq> 0 \<longrightarrow> sem_undo_tab s1 ! u_procp s \<noteq> None"
        by auto
      then show ?thesis
        using True fits moved_undo [OF s1(1,4)] undo_frame_fields(3) [of s s1]
        by (auto simp: aoe_fits_def undo_keep_def)
    next
      case False
      with semaoe_spec [OF rep tab, of "sem_op (ops ! i)" sid "sem_num (ops ! i)"] obtain s1 e where
        s1: "undo_keep s s1" "semaoe s (sem_op (ops ! i)) sid (sem_num (ops ! i)) = Ok (True, s1)"
          "aoe s1 = aoe s" "ua s1 = (ua s)\<lparr>u_error := e\<rparr>" "e \<in> {ERANGE, ENOSPC, EINVAL}"
        by auto
      then have "u_error (ua s1) \<noteq> 0" by (auto simp: errno_defs)
      then show ?thesis using True s1(2) moved_undo_fail [OF s1(1,3)] by auto
    qed
  next
    case False
    then show ?thesis using moved_refl [OF rep, of sid] by auto
  qed
qed

lemma loop_add:
  assumes l: "loop_ok s0 sid base ops i s" and i: "i < length ops" and pos: "sem_op (ops ! i) > 0"
    and k: "k = base + nat (sem_num (ops ! i))" "k < length (sems s)"
  shows "\<exists>r s'. semop_add s ops i (ops ! i) sid base k (sems s ! k) = Ok (r, s')
    \<and> (if r = Passed then loop_ok s0 sid base ops (Suc i) s' else pass_ok s0 sid base ops r s')"
proof -
  let ?p = "ops ! i"
  obtain C F where rep: "undo_rep s C F" using after_rep [OF loop_ok_aft [OF l]] by blast
  have giveup: "\<exists>r s'. obind (semundo (if u_error (ua s1) = 0 then set_error s1 ERANGE else s1) ops i sid base)
        (\<lambda>s2. Ok (Refused, s2)) = Ok (r, s')
      \<and> (if r = Passed then loop_ok s0 sid base ops (Suc i) s' else pass_ok s0 sid base ops r s')"
    if m: "moved s sid (\<lambda>_. 0) (\<lambda>_. 0) s1" for s1
  proof -
    let ?t = "if u_error (ua s1) = 0 then set_error s1 ERANGE else s1"
    obtain C F where rep1: "undo_rep s1 C F" using m by (auto simp: moved_def)
    have "moved s sid (\<lambda>_. 0) (\<lambda>_. 0) ?t"
      using m moved_trans [OF m moved_error [OF rep1]] by simp
    from loop_undo [OF l this] obtain s2 where
      "semundo ?t ops i sid base = Ok s2" "after s0 sid base [] s2" "ua s2 = ua ?t" by blast
    then show ?thesis by (auto simp: pass_ok_def ERANGE_def)
  qed
  show ?thesis
  proof (cases "sem_op ?p + semval (sems s ! k) > semvmx (seminfo s)")
    case True
    then show ?thesis using giveup [OF moved_refl [OF rep]] by (simp add: semop_add_def)
  next
    case fits: False
    from loop_aoe [OF l i] obtain b s1 where b:
      "(if sem_flg ?p AND SEM_UNDO \<noteq> 0 then semaoe s (sem_op ?p) sid (sem_num ?p) else Ok (False, s)) = Ok (b, s1)"
      "if b then moved s sid (\<lambda>_. 0) (\<lambda>_. 0) s1 \<and> u_error (ua s1) \<noteq> 0
       else moved s sid (\<lambda>_. 0) (\<lambda>n. if sem_flg ?p AND SEM_UNDO \<noteq> 0 \<and> n = sem_num ?p then sem_op ?p else 0) s1
         \<and> sems s1 = sems s \<and> ua s1 = ua s \<and> (sem_flg ?p AND SEM_UNDO \<noteq> 0 \<longrightarrow> sem_op ?p \<noteq> 0 \<longrightarrow>
            \<bar>sem_op ?p\<bar> \<le> semaem (seminfo s) \<and> sem_undo_tab s1 ! u_procp s \<noteq> None)"
      by blast
    have unf: "semop_add s ops i ?p sid base k (sems s ! k) =
      (if b then obind (semundo (if u_error (ua s1) = 0 then set_error s1 ERANGE else s1) ops i sid base)
         (\<lambda>s2. Ok (Refused, s2))
       else obind (upd_sem s1 k (\<lambda>x. x\<lparr>semval := uint16 (semval x + sem_op ?p)\<rparr>)) (\<lambda>s2.
         obind (wake_ncnt s2 k) (\<lambda>s3.
         obind (aget (sems s3) k) (\<lambda>y.
         obind (if semval y = 0 then wake_zcnt s3 k else Ok s3) (\<lambda>s4. Ok (Passed, s4))))))"
      unfolding semop_add_def using fits b(1) by simp
    show ?thesis
    proof (cases b)
      case True
      then show ?thesis using b(2) giveup [of s1] unf by simp
    next
      case False
      then have m: "moved s sid (\<lambda>_. 0) (\<lambda>n. if sem_flg ?p AND SEM_UNDO \<noteq> 0 \<and> n = sem_num ?p then sem_op ?p else 0) s1"
        and same: "sems s1 = sems s" and same_ua: "ua s1 = ua s" and small: "sem_flg ?p AND SEM_UNDO \<noteq> 0 \<longrightarrow> sem_op ?p \<noteq> 0 \<longrightarrow>
            \<bar>sem_op ?p\<bar> \<le> semaem (seminfo s) \<and> sem_undo_tab s1 ! u_procp s \<noteq> None"
        using b(2) by auto
      have v: "0 \<le> semval (sems s ! k)" "semvmx (seminfo s) \<le> 32767"
        using l vals_ok_nth [OF _ k(2)] by (auto simp: loop_ok_def vals_ok_def)
      have u: "uint16 (semval (sems s ! k) + sem_op ?p) = semval (sems s ! k) + sem_op ?p"
        using fits v pos by simp
      obtain s2 where s2: "upd_sem s1 k (\<lambda>x. x\<lparr>semval := uint16 (semval x + sem_op ?p)\<rparr>) = Ok s2"
          "sem_step s1 s2 (\<lambda>j. if j = k then sem_op ?p else 0)"
        using upd_sem_step [of k s1 "\<lambda>x. x\<lparr>semval := uint16 (semval x + sem_op ?p)\<rparr>" "sem_op ?p"] u k(2) same by auto
      have k2: "k < length (sems s2)" using sem_step_fields(8) [OF s2(2)] same k(2) by simp
      obtain s3 where s3: "wake_ncnt s2 k = Ok s3" "sem_step s2 s3 (\<lambda>_. 0)" using wake_ncnt_step [OF k2] by blast
      have s13: "sem_step s1 s3 (\<lambda>j. if j = k then sem_op ?p else 0)"
        using sem_step_trans [OF s2(2) s3(2)] by simp
      from loop_wake [OF s13, of k] same k(2) obtain s4 where s4:
        "obind (aget (sems s3) k) (\<lambda>y. obind (if semval y = 0 then wake_zcnt s3 k else Ok s3) (\<lambda>s4. Ok (Passed, s4))) = Ok (Passed, s4)"
        "sem_step s1 s4 (\<lambda>j. if j = k then sem_op ?p else 0)"
        by auto
      have "loop_ok s0 sid base ops (Suc i) s4"
        using loop_next [OF l i m same_ua s4(2) [unfolded k(1)]] fits v pos small by (simp add: k(1))
      then show ?thesis using unf False s2(1) s3(1) s4(1) by simp
    qed
  qed
qed

lemma loop_sub:
  assumes l: "loop_ok s0 sid base ops i s" and i: "i < length ops" and neg: "sem_op (ops ! i) < 0"
    and k: "k = base + nat (sem_num (ops ! i))" "k < length (sems s)"
  shows "\<exists>r s'. semop_sub s ops i (ops ! i) sid base k (sems s ! k) = Ok (r, s')
    \<and> (if r = Passed then loop_ok s0 sid base ops (Suc i) s' else pass_ok s0 sid base ops r s')"
proof -
  let ?p = "ops ! i"
  show ?thesis
  proof (cases "semval (sems s ! k) \<ge> - sem_op ?p")
    case False
    from loop_block [OF l k(2), of "\<lambda>x. x\<lparr>semncnt := uint16 (semncnt x + 1)\<rparr>"
        "sem_flg ?p AND IPC_NOWAIT \<noteq> 0" "Ncnt k"] obtain r s' where
      r: "obind (semundo s ops i sid base) (\<lambda>s1.
          if sem_flg ?p AND IPC_NOWAIT \<noteq> 0 then Ok (Refused, set_error s1 EAGAIN)
          else obind (upd_sem s1 k (\<lambda>x. x\<lparr>semncnt := uint16 (semncnt x + 1)\<rparr>))
                 (\<lambda>s2. Ok (Blocked (Ncnt k), s2))) = Ok (r, s')" "r \<noteq> Passed" "pass_ok s0 sid base ops r s'"
      by auto
    have "semop_sub s ops i ?p sid base k (sems s ! k) = Ok (r, s')"
      unfolding semop_sub_def using False r(1) by (simp only: if_False)
    then show ?thesis using r(2,3) by auto
  next
    case fits: True
    from loop_aoe [OF l i] obtain b s1 where b:
      "(if sem_flg ?p AND SEM_UNDO \<noteq> 0 then semaoe s (sem_op ?p) sid (sem_num ?p) else Ok (False, s)) = Ok (b, s1)"
      "if b then moved s sid (\<lambda>_. 0) (\<lambda>_. 0) s1 \<and> u_error (ua s1) \<noteq> 0
       else moved s sid (\<lambda>_. 0) (\<lambda>n. if sem_flg ?p AND SEM_UNDO \<noteq> 0 \<and> n = sem_num ?p then sem_op ?p else 0) s1
         \<and> sems s1 = sems s \<and> ua s1 = ua s \<and> (sem_flg ?p AND SEM_UNDO \<noteq> 0 \<longrightarrow> sem_op ?p \<noteq> 0 \<longrightarrow>
            \<bar>sem_op ?p\<bar> \<le> semaem (seminfo s) \<and> sem_undo_tab s1 ! u_procp s \<noteq> None)"
      by blast
    have unf: "semop_sub s ops i ?p sid base k (sems s ! k) =
      (if b then obind (semundo s1 ops i sid base) (\<lambda>s2. Ok (Refused, s2))
       else obind (upd_sem s1 k (\<lambda>x. x\<lparr>semval := uint16 (semval x + sem_op ?p)\<rparr>)) (\<lambda>s2.
         obind (aget (sems s2) k) (\<lambda>y.
         obind (if semval y = 0 then wake_zcnt s2 k else Ok s2) (\<lambda>s3. Ok (Passed, s3)))))"
      unfolding semop_sub_def using fits b(1) by simp
    show ?thesis
    proof (cases b)
      case True
      then show ?thesis
        using b(2) loop_undo [OF l, of s1] unf by (fastforce simp: pass_ok_def)
    next
      case False
      then have m: "moved s sid (\<lambda>_. 0) (\<lambda>n. if sem_flg ?p AND SEM_UNDO \<noteq> 0 \<and> n = sem_num ?p then sem_op ?p else 0) s1"
        and same: "sems s1 = sems s" and same_ua: "ua s1 = ua s" and small: "sem_flg ?p AND SEM_UNDO \<noteq> 0 \<longrightarrow> sem_op ?p \<noteq> 0 \<longrightarrow>
            \<bar>sem_op ?p\<bar> \<le> semaem (seminfo s) \<and> sem_undo_tab s1 ! u_procp s \<noteq> None"
        using b(2) by auto
      have v: "semval (sems s ! k) \<le> 32767" "semval (sems s ! k) \<le> semvmx (seminfo s)"
        using l vals_ok_nth [OF _ k(2)] by (auto simp: loop_ok_def)
      have u: "uint16 (semval (sems s ! k) + sem_op ?p) = semval (sems s ! k) + sem_op ?p"
        using fits v neg by simp
      obtain s2 where s2: "upd_sem s1 k (\<lambda>x. x\<lparr>semval := uint16 (semval x + sem_op ?p)\<rparr>) = Ok s2"
          "sem_step s1 s2 (\<lambda>j. if j = k then sem_op ?p else 0)"
        using upd_sem_step [of k s1 "\<lambda>x. x\<lparr>semval := uint16 (semval x + sem_op ?p)\<rparr>" "sem_op ?p"] u k(2) same by auto
      from loop_wake [OF s2(2), of k] same k(2) obtain s4 where s4:
        "obind (aget (sems s2) k) (\<lambda>y. obind (if semval y = 0 then wake_zcnt s2 k else Ok s2) (\<lambda>s4. Ok (Passed, s4))) = Ok (Passed, s4)"
        "sem_step s1 s4 (\<lambda>j. if j = k then sem_op ?p else 0)"
        by auto
      have "loop_ok s0 sid base ops (Suc i) s4"
        using loop_next [OF l i m same_ua s4(2) [unfolded k(1)]] fits v neg small by (simp add: k(1))
      then show ?thesis using unf False s2(1) s4(1) by simp
    qed
  qed
qed

lemma loop_zero:
  assumes l: "loop_ok s0 sid base ops i s" and i: "i < length ops" and z: "sem_op (ops ! i) = 0"
    and k: "k < length (sems s)"
  shows "\<exists>r s'. semop_zero s ops i (ops ! i) sid base k (sems s ! k) = Ok (r, s')
    \<and> (if r = Passed then loop_ok s0 sid base ops (Suc i) s' else pass_ok s0 sid base ops r s')"
proof (cases "semval (sems s ! k) = 0")
  case False
  from loop_block [OF l k, of "\<lambda>x. x\<lparr>semzcnt := uint16 (semzcnt x + 1)\<rparr>"
      "sem_flg (ops ! i) AND IPC_NOWAIT \<noteq> 0" "Zcnt k"] obtain r s' where
    r: "obind (semundo s ops i sid base) (\<lambda>s1.
        if sem_flg (ops ! i) AND IPC_NOWAIT \<noteq> 0 then Ok (Refused, set_error s1 EAGAIN)
        else obind (upd_sem s1 k (\<lambda>x. x\<lparr>semzcnt := uint16 (semzcnt x + 1)\<rparr>))
               (\<lambda>s2. Ok (Blocked (Zcnt k), s2))) = Ok (r, s')" "r \<noteq> Passed" "pass_ok s0 sid base ops r s'"
    by auto
  have "semop_zero s ops i (ops ! i) sid base k (sems s ! k) = Ok (r, s')"
    unfolding semop_zero_def using False r(1) by (simp only: not_False_eq_True if_True)
  then show ?thesis using r(2,3) by auto
next
  case True
  obtain C F where rep: "undo_rep s C F" using after_rep [OF loop_ok_aft [OF l]] by blast
  have tk: "take (Suc i) ops = take i ops @ [ops ! i]" using i by (simp add: take_Suc_conv_app_nth)
  have "undo_small s (take (Suc i) ops)"
    using loop_ok_aft [OF l] z by (auto simp: after_def undo_small_def tk)
  then have "after s0 sid base (take (Suc i) ops) s"
    using z by (intro afterI [OF loop_ok_aft [OF l] moved_refl [OF rep]]) (auto simp: tk)
  moreover have "reached s0 sid base (take i ops)" using l by (auto simp: reached_def loop_ok_def)
  ultimately have "loop_ok s0 sid base ops (Suc i) s"
    using l i by (auto simp: loop_ok_def less_Suc_eq)
  then show ?thesis using True by (simp add: semop_zero_def)
qed

lemma semop_one_spec:
  assumes l: "loop_ok s0 sid base ops i s" and i: "i < length ops"
  shows "\<exists>r s'. semop_one s ops i (ops ! i) sid base = Ok (r, s')
    \<and> (if r = Passed then loop_ok s0 sid base ops (Suc i) s' else pass_ok s0 sid base ops r s')"
proof -
  have k: "base + nat (sem_num (ops ! i)) < length (sems s)"
    using l i after_fields(4) [OF loop_ok_aft [OF l]] by (auto simp: loop_ok_def ops_ok_def)
  consider "sem_op (ops ! i) > 0" | "sem_op (ops ! i) < 0" | "sem_op (ops ! i) = 0" by linarith
  then show ?thesis
  proof cases
    case 1
    then show ?thesis using loop_add [OF l i _ refl k] k by (simp add: semop_one_def Let_def)
  next
    case 2
    then show ?thesis using loop_sub [OF l i _ refl k] k by (simp add: semop_one_def Let_def)
  next
    case 3
    then show ?thesis using loop_zero [OF l i _ k] k by (simp add: semop_one_def Let_def)
  qed
qed

text \<open>All operations are done, or none is.\<close>

lemma semop_ops_loop:
  "ps = drop i ops \<Longrightarrow> loop_ok s0 sid base ops i s \<Longrightarrow>
   \<exists>r s'. semop_ops s ops i ps sid base = Ok (r, s') \<and> pass_ok s0 sid base ops r s'"
proof (induction ps arbitrary: i s)
  case Nil
  then have "i = length ops" by (auto simp: loop_ok_def)
  then show ?case using Nil by (auto simp: loop_ok_def pass_ok_def)
next
  case (Cons p ps)
  then have i: "i < length ops" "p = ops ! i" "ps = drop (Suc i) ops"
    by (metis drop_eq_Nil list.discI not_le, metis nth_via_drop, metis drop_Suc list.sel(3) tl_drop)
  obtain r s1 where r: "semop_one s ops i p sid base = Ok (r, s1)"
      "if r = Passed then loop_ok s0 sid base ops (Suc i) s1 else pass_ok s0 sid base ops r s1"
    using semop_one_spec [OF Cons.prems(2) i(1)] i(2) by blast
  show ?case
  proof (cases "r = Passed")
    case True
    then show ?thesis using Cons.IH [OF i(3), of s1] r by simp
  next
    case False
    then show ?thesis using r by simp
  qed
qed

lemma semop_ops_spec:
  assumes "undo_rep s C F" "vals_ok s" "ops_ok s base ops"
  shows "\<exists>r s'. semop_ops s ops 0 ops sid base = Ok (r, s') \<and> pass_ok s sid base ops r s'"
proof (rule semop_ops_loop)
  have "moved s sid (opsum base []) (undosum []) s"
    using moved_refl [OF assms(1), of sid] by (simp add: fun_eq_iff moved_def)
  then have "after s sid base [] s" by (simp add: after_def undo_small_def)
  then show "loop_ok s sid base ops 0 s" using assms(2,3) by (simp add: loop_ok_def)
qed simp

section \<open>The state between system calls\<close>

text \<open>
  The part of the semaphore pool that a set uses, as a block of the resource map, which counts
  from 1; and the invariant: the sets in use are inside of the pool, apart from each other and
  from the free space of the map.
\<close>

definition set_blk :: "semid_ds \<Rightarrow> int set" where
  "set_blk d = blk (int (sem_base d) + 1) (sem_nsems d)"

definition in_use :: "sem_state \<Rightarrow> nat \<Rightarrow> bool" where
  "in_use s i \<longleftrightarrow> i < length (sema s) \<and> ipc_allocated (sem_perm (sema s ! i))"

definition sets_apart :: "sem_state \<Rightarrow> bool" where
  "sets_apart s \<longleftrightarrow>
     (\<forall>i. in_use s i \<longrightarrow> 0 < sem_nsems (sema s ! i) \<and> sem_nsems (sema s ! i) \<le> semmsl (seminfo s)
        \<and> set_blk (sema s ! i) \<subseteq> {1..int (length (sems s))} \<and> set_blk (sema s ! i) \<inter> rm_space (semmap s) = {}
        \<and> (\<forall>j. in_use s j \<longrightarrow> j \<noteq> i \<longrightarrow> set_blk (sema s ! i) \<inter> set_blk (sema s ! j) = {}))"

definition sets_ok :: "sem_state \<Rightarrow> bool" where
  "sets_ok s \<longleftrightarrow>
     0 < semmni (seminfo s) \<and> semmni (seminfo s) \<le> 32767 \<and> int (length (sema s)) = semmni (seminfo s)
     \<and> int (length (sems s)) < INT_MAX
     \<and> (\<forall>d\<in>set (sema s). 0 \<le> seq (sem_perm d) \<and> seq (sem_perm d) \<le> 65535)
     \<and> rm_inv (semmap s) \<and> 3 \<le> length (m_ent (semmap s)) \<and> \<not> is_swapmap (semmap s)
     \<and> rm_space (semmap s) \<subseteq> {1..int (length (sems s))}
     \<and> semmsl (seminfo s) \<le> 4000
     \<and> sets_apart s"

definition sem_inv :: "sem_state \<Rightarrow> bool" where
  "sem_inv s \<longleftrightarrow> (\<exists>C F. undo_rep s C F) \<and> vals_ok s \<and> sets_ok s \<and> km_inv (kheap s)
     \<and> u_procp s < length (sem_undo_tab s) \<and> 0 \<le> semopm (seminfo s) \<and> semopm (seminfo s) \<le> 1000
     \<and> 0 \<le> semvmx (seminfo s)"

lemma semconv_Some:
  assumes "semconv s sid = Ok (Some i, s')"
  shows "s' = s" "in_use s i" "0 \<le> sid" "i = nat (sid smod semmni (seminfo s))"
    "sid sdiv semmni (seminfo s) = seq (sem_perm (sema s ! i))"
  using assms by (auto simp: semconv_def Let_def in_use_def aget_eq_Ok split: if_splits)

lemma semconv_None: "semconv s sid = Ok (None, s') \<Longrightarrow> s' = set_error s EINVAL"
  by (auto simp: semconv_def Let_def split: if_splits)

lemma sets_ok_use:
  assumes "sets_ok s" "in_use s i"
  shows "0 < sem_nsems (sema s ! i)" "sem_nsems (sema s ! i) \<le> semmsl (seminfo s)" "sem_nsems (sema s ! i) \<le> 4000"
    "int (sem_base (sema s ! i)) + sem_nsems (sema s ! i) \<le> int (length (sems s))"
proof -
  have *: "0 < sem_nsems (sema s ! i) \<and> sem_nsems (sema s ! i) \<le> semmsl (seminfo s)
      \<and> semmsl (seminfo s) \<le> 4000 \<and> set_blk (sema s ! i) \<subseteq> {1..int (length (sems s))}"
    using assms unfolding sets_ok_def sets_apart_def by blast
  then show "0 < sem_nsems (sema s ! i)" "sem_nsems (sema s ! i) \<le> semmsl (seminfo s)"
    "sem_nsems (sema s ! i) \<le> 4000" by auto
  have "int (sem_base (sema s ! i)) + sem_nsems (sema s ! i) \<in> set_blk (sema s ! i)"
    using * by (simp add: set_blk_def)
  then show "int (sem_base (sema s ! i)) + sem_nsems (sema s ! i) \<le> int (length (sems s))" using * by auto
qed

text \<open>The buffer of a system call: a block of the kernel heap, or nothing when it is empty.\<close>

definition holds_buf :: "kmem_info \<Rightarrow> int \<Rightarrow> int \<Rightarrow> bool" where
  "holds_buf h buf n \<longleftrightarrow> 0 \<le> n \<and> blk buf n \<subseteq> arena (usrpt h) \<and> blk buf n \<inter> owned h = {}"

lemma page_safe_small: "0 < n \<Longrightarrow> n \<le> 8189 \<Longrightarrow> page_safe n"
  by (simp add: page_safe_def INT_MAX_def)

lemma usrpt_alloc: "kmem_alloc s n = Ok (a, s') \<Longrightarrow> km_inv s \<Longrightarrow> page_safe n \<Longrightarrow> usrpt s' = usrpt s"
  using kms.alloc_inv [of s "usrpt s" n a s'] by simp

lemma buf_alloc:
  assumes "km_inv h" "0 \<le> n" "n \<le> 8189"
  shows "starved (kmem_alloc h n) \<or> (\<exists>a h'. kmem_alloc h n = Ok (a, h') \<and> km_inv h' \<and> holds_buf h' a n
     \<and> (n \<noteq> 0 \<longrightarrow> 0 < a) \<and> owned h' = owned h - blk a n \<and> blk a n \<subseteq> owned h)"
proof (cases "n = 0")
  case True
  then show ?thesis using assms(1) by (simp add: kmem_alloc_def holds_buf_def)
next
  case False
  then have ps: "page_safe n" using page_safe_small assms(2,3) by simp
  have spec: "starved (kmem_alloc h n)
    \<or> (\<exists>a s'. kmem_alloc h n = Ok (a, s') \<and> 0 < a \<and> km_inv s' \<and> blk a n \<subseteq> owned h \<and> owned s' = owned h - blk a n)"
    using kmem_alloc_spec [OF assms(1) ps] alloc_ok_owned [OF assms(1)] by (fastforce simp: alloc_ok_def)
  have "holds_buf s' a n" if "kmem_alloc h n = Ok (a, s')" "blk a n \<subseteq> owned h" "owned s' = owned h - blk a n" for a s'
    using that km_inv_arena [OF assms(1)] usrpt_alloc [OF that(1) assms(1) ps] assms(2) by (auto simp: holds_buf_def)
  then show ?thesis using spec by blast
qed

lemma buf_free:
  assumes "km_inv h" "holds_buf h a n"
  shows "starved (kmem_free h a n) \<or> (\<exists>h'. kmem_free h a n = Ok h' \<and> km_inv h' \<and> owned h' = owned h \<union> blk a n)"
proof (cases "n = 0")
  case True
  then show ?thesis using assms(1) by (simp add: kmem_free_def)
next
  case False
  then have n: "0 < n" using assms(2) by (simp add: holds_buf_def)
  have room: "\<forall>x. own h x + inb a n x \<le> arena_cnt h x" and wf: "km_wf h"
    using free_room [OF assms(1)] assms by (auto simp: km_inv_def holds_buf_def)
  from wf n room show ?thesis
  proof (cases rule: kmem_free_spec)
    case (freed s')
    then show ?thesis
      using free_owned [OF room freed(2,3)] kmem_free_frame [OF freed(1)] by blast
  qed simp
qed

section \<open>A call of \<open>semop\<close> as a whole\<close>

definition shorts :: "sembuf list \<Rightarrow> bool" where
  "shorts ops \<longleftrightarrow> (\<forall>p\<in>set ops. - 32768 \<le> sem_num p \<and> sem_num p \<le> 32767
     \<and> - 32768 \<le> sem_op p \<and> sem_op p \<le> 32767)"

lemma uint32_short: "- 32768 \<le> x \<Longrightarrow> x \<le> 32767 \<Longrightarrow> uint32 x < n \<Longrightarrow> n \<le> 65535 \<Longrightarrow> 0 \<le> x \<and> x < n"
  by (cases "0 \<le> x") (auto simp: uint32_def, smt (verit) mod_add_self2 mod_pos_pos_trivial)

lemma semop_verify_spec:
  "semop_verify s sp ps = (b, s') \<Longrightarrow> s' = s\<lparr>ua := ua s'\<rparr> \<and>
    (if b then u_error (ua s') \<noteq> 0
     else ua s' = ua s \<and> (\<forall>p\<in>set ps. uint32 (sem_num p) < sem_nsems sp))"
proof (induction s sp ps rule: semop_verify.induct)
  case (2 s sp p ps)
  obtain e u1 where a: "ipcaccess (ua s) (sem_perm sp) (if sem_op p \<noteq> 0 then SEM_A else SEM_R) = (e, u1)"
    by fastforce
  show ?case
  proof (cases e)
    case True
    then have "u1 = (ua s)\<lparr>u_error := EACCES\<rparr>" using a by (cases rule: ipcaccess_cases [OF a]) auto
    then show ?thesis using 2 a True by (auto simp: EACCES_def)
  next
    case False
    then have e: "e = False" by simp
    from False have u1: "u1 = ua s" using a by (cases rule: ipcaccess_cases [OF a]) auto
    show ?thesis
    proof (cases "uint32 (sem_num p) \<ge> sem_nsems sp")
      case True
      then show ?thesis using 2(2) a False u1 by (auto simp: set_error_def EFBIG_def)
    next
      case ok: False
      then have "semop_verify (s\<lparr>ua := u1\<rparr>) sp ps = (b, s')" using 2(2) a False by simp
      from 2(1) [OF a [symmetric] e ok this] ok u1 show ?thesis by (auto split: if_splits)
    qed
  qed
qed simp

lemma semop_pids_spec:
  "\<forall>p\<in>set ps. base + nat (sem_num p) < length (sems s) \<Longrightarrow>
   \<exists>s'. semop_pids s base ps = Ok s' \<and> s' = s\<lparr>sems := sems s'\<rparr> \<and> length (sems s') = length (sems s)
     \<and> (\<forall>k<length (sems s). semval (sems s' ! k) = semval (sems s ! k) \<and> semncnt (sems s' ! k) = semncnt (sems s ! k)
         \<and> semzcnt (sems s' ! k) = semzcnt (sems s ! k))"
proof (induction ps arbitrary: s)
  case (Cons p ps)
  let ?k = "base + nat (sem_num p)"
  let ?s1 = "s\<lparr>sems := (sems s)[?k := (sems s ! ?k)\<lparr>sempid := int16 (p_pid s)\<rparr>]\<rparr>"
  have u: "upd_sem s ?k (\<lambda>x. x\<lparr>sempid := int16 (p_pid s)\<rparr>) = Ok ?s1"
    using Cons.prems by (simp add: upd_sem_def)
  obtain s' where s': "semop_pids ?s1 base ps = Ok s'" "s' = ?s1\<lparr>sems := sems s'\<rparr>" "length (sems s') = length (sems s)"
    "\<forall>k<length (sems s). semval (sems s' ! k) = semval (sems ?s1 ! k) \<and> semncnt (sems s' ! k) = semncnt (sems ?s1 ! k)
         \<and> semzcnt (sems s' ! k) = semzcnt (sems ?s1 ! k)"
    using Cons.IH [of ?s1] Cons.prems by auto
  have "s' = s\<lparr>sems := sems s'\<rparr>" using s'(2) by (cases s; cases s') simp
  moreover have "\<forall>k<length (sems s). semval (sems s' ! k) = semval (sems s ! k) \<and> semncnt (sems s' ! k) = semncnt (sems s ! k)
         \<and> semzcnt (sems s' ! k) = semzcnt (sems s ! k)"
  proof (intro allI impI)
    fix k assume "k < length (sems s)"
    with s'(4) show "semval (sems s' ! k) = semval (sems s ! k) \<and> semncnt (sems s' ! k) = semncnt (sems s ! k)
         \<and> semzcnt (sems s' ! k) = semzcnt (sems s ! k)"
      by (cases "k = ?k") auto
  qed
  ultimately show ?case using u s'(1,3) by auto
qed simp

text \<open>What a call has done to the semaphores and the adjustments when it returns.\<close>

definition all_done :: "sem_state \<Rightarrow> int \<Rightarrow> nat \<Rightarrow> sembuf list \<Rightarrow> sem_state \<Rightarrow> bool" where
  "all_done s sid base ops s' \<longleftrightarrow>
     (\<forall>k<length (sems s). semval (sems s' ! k) = semval (sems s ! k) + opsum base ops k)
     \<and> (\<forall>p num. aoe s' p (sid, num) = aoe s p (sid, num) - (if p = u_procp s then undosum ops num else 0))
     \<and> (\<forall>p i num. i \<noteq> sid \<longrightarrow> aoe s' p (i, num) = aoe s p (i, num))"

definition none_done :: "sem_state \<Rightarrow> sem_state \<Rightarrow> bool" where
  "none_done s s' \<longleftrightarrow> (\<forall>k<length (sems s). semval (sems s' ! k) = semval (sems s ! k)) \<and> aoe s' = aoe s"

text \<open>The parts of the state that no \<open>semop\<close> changes.\<close>

definition sys_frame :: "sem_state \<Rightarrow> sem_state \<Rightarrow> bool" where
  "sys_frame s s' \<longleftrightarrow> seminfo s' = seminfo s \<and> semmap s' = semmap s \<and> u_procp s' = u_procp s
     \<and> p_pid s' = p_pid s \<and> length (sems s') = length (sems s)
     \<and> length (sem_undo_tab s') = length (sem_undo_tab s) \<and> length (sema s') = length (sema s)
     \<and> (\<forall>j<length (sema s). sem_perm (sema s' ! j) = sem_perm (sema s ! j)
          \<and> sem_base (sema s' ! j) = sem_base (sema s ! j) \<and> sem_nsems (sema s' ! j) = sem_nsems (sema s ! j))"

lemma sys_frame_conv:
  assumes "sys_frame s s'" "semconv s i = Ok (Some d, s)"
  shows "semconv s' i = Ok (Some d, s')"
  using assms by (auto simp: sys_frame_def semconv_def Let_def aget_eq_Ok split: if_splits)

lemma after_all_done: "after s sid base ops s' \<Longrightarrow> all_done s sid base ops s'"
  by (simp add: all_done_def after_def moved_def)

lemma after_none_done: "after s sid base [] s' \<Longrightarrow> none_done s s'"
  by (auto simp: none_done_def after_def moved_def fun_eq_iff)

text \<open>Changes of the other parts of the state.\<close>

lemma sets_ok_cong:
  assumes "sets_ok s" "seminfo s' = seminfo s" "semmap s' = semmap s" "length (sems s') = length (sems s)"
    "length (sema s') = length (sema s)"
    "\<forall>i<length (sema s). sem_perm (sema s' ! i) = sem_perm (sema s ! i) \<and> sem_base (sema s' ! i) = sem_base (sema s ! i)
       \<and> sem_nsems (sema s' ! i) = sem_nsems (sema s ! i)"
  shows "sets_ok s'"
proof -
  have use: "in_use s' i \<longleftrightarrow> in_use s i" for i using assms(5,6) by (auto simp: in_use_def)
  have blk: "in_use s i \<Longrightarrow> set_blk (sema s' ! i) = set_blk (sema s ! i) \<and> sem_nsems (sema s' ! i) = sem_nsems (sema s ! i)" for i
    using assms(6) by (auto simp: set_blk_def in_use_def)
  have seqs: "\<forall>d\<in>set (sema s'). 0 \<le> seq (sem_perm d) \<and> seq (sem_perm d) \<le> 65535"
    using assms(1,5,6) by (simp add: sets_ok_def all_set_conv_all_nth)
  have "sets_apart s'"
    using assms(1) blk unfolding sets_ok_def sets_apart_def assms(2-4) use by simp
  then show ?thesis
    using assms(1) seqs by (simp add: sets_ok_def assms(2-5))
qed

lemma vals_ok_cong:
  assumes "vals_ok s" "seminfo s' = seminfo s" "length (sems s') = length (sems s)"
    "\<forall>k<length (sems s). semval (sems s' ! k) = semval (sems s ! k)"
  shows "vals_ok s'"
  using assms by (simp add: vals_ok_def all_set_conv_all_nth)

lemma undo_rep_cong:
  "undo_rep s C F \<Longrightarrow> seminfo s' = seminfo s \<Longrightarrow> semu s' = semu s \<Longrightarrow> semunp s' = semunp s
   \<Longrightarrow> semfup s' = semfup s \<Longrightarrow> sem_undo_tab s' = sem_undo_tab s \<Longrightarrow> undo_rep s' C F"
  by (simp add: undo_rep_def)

lemma aoe_cong: "semu s' = semu s \<Longrightarrow> sem_undo_tab s' = sem_undo_tab s \<Longrightarrow> aoe s' = aoe s"
  by (auto simp: aoe_def fun_eq_iff split: option.splits)

lemma after_sys_frame: "after s sid base ops s' \<Longrightarrow> sys_frame s s'"
proof -
  assume a: "after s sid base ops s'"
  then have f: "op_frame s s'" by (simp add: after_def moved_def)
  show ?thesis using op_frame_fields [OF f] after_fields(5) [OF a] by (simp add: sys_frame_def)
qed

lemma after_inv:
  assumes "sem_inv s" "after s sid base ops s'" "vals_ok s'"
  shows "sem_inv s'"
proof -
  have f: "op_frame s s'" using assms(2) by (simp add: after_def moved_def)
  note ff = op_frame_fields [OF f]
  have "sets_ok s" using assms(1) by (simp add: sem_inv_def)
  then have "sets_ok s'" by (rule sets_ok_cong) (simp_all add: ff)
  then show ?thesis
    using assms(1,3) after_rep [OF assms(2)] unfolding sem_inv_def ff after_fields(5) [OF assms(2)] by blast
qed

lemma pass_inv:
  assumes "sem_inv s" "pass_ok s sid base ops r s'"
  shows "sem_inv s'"
proof (cases "r = Passed")
  case True
  then have "after s sid base ops s'" "vals_ok s'" using assms(2) by (simp_all add: pass_ok_def)
  then show ?thesis by (rule after_inv [OF assms(1)])
next
  case False
  then have a: "after s sid base [] s'" using assms(2) by (auto simp: pass_ok_def split: pass.splits)
  have "vals_ok s" using assms(1) by (simp add: sem_inv_def)
  then have "vals_ok s'"
    by (rule vals_ok_cong) (simp_all add: after_vals [OF a] after_fields [OF a])
  with assms(1) a show ?thesis by (rule after_inv)
qed

text \<open>
  The outcome of the loop and what follows it: the call returns with everything done or nothing,
  and its buffer freed, or it sleeps with nothing done.
\<close>

definition call_ok :: "sem_state \<Rightarrow> int \<Rightarrow> nat \<Rightarrow> sembuf list \<Rightarrow> int set \<Rightarrow> sysres \<Rightarrow> bool" where
  "call_ok s sid base ops X res \<longleftrightarrow>
     (case res of
        Return s' \<Rightarrow> sem_inv s' \<and> sys_frame s s' \<and> owned (kheap s') = X
          \<and> (if u_error (ua s') = 0 then all_done s sid base ops s' else none_done s s')
      | Wait w s' \<Rightarrow> sem_inv s' \<and> sys_frame s s' \<and> none_done s s' \<and> w_id w = sid \<and> w_ops w = ops
          \<and> holds_buf (kheap s') (w_buf w) (SEMBUFSZ * int (length ops))
          \<and> owned (kheap s') = X - blk (w_buf w) (SEMBUFSZ * int (length ops)))"

lemma sem_inv_error [simp]: "sem_inv (set_error s e) \<longleftrightarrow> sem_inv s"
proof -
  have "sets_ok (set_error s e) \<longleftrightarrow> sets_ok s"
    by (simp add: sets_ok_def sets_apart_def in_use_def)
  then show ?thesis by (simp add: sem_inv_def vals_ok_def)
qed

lemma sem_inv_heap: "sem_inv s \<Longrightarrow> km_inv h \<Longrightarrow> sem_inv (s\<lparr>kheap := h\<rparr>)"
proof -
  assume a: "sem_inv s" "km_inv h"
  have "sets_ok s" using a by (simp add: sem_inv_def)
  then have "sets_ok (s\<lparr>kheap := h\<rparr>)" by (rule sets_ok_cong) simp_all
  moreover have "undo_rep s C F \<Longrightarrow> undo_rep (s\<lparr>kheap := h\<rparr>) C F" for C F
    by (erule undo_rep_cong) simp_all
  ultimately show ?thesis using a by (auto simp: sem_inv_def vals_ok_def)
qed

lemma sem_inv_ua: "sem_inv s \<Longrightarrow> sem_inv (s\<lparr>ua := u\<rparr>)"
proof -
  assume a: "sem_inv s"
  have "sets_ok s" using a by (simp add: sem_inv_def)
  then have "sets_ok (s\<lparr>ua := u\<rparr>)" by (rule sets_ok_cong) simp_all
  moreover have "undo_rep s C F \<Longrightarrow> undo_rep (s\<lparr>ua := u\<rparr>) C F" for C F
    by (erule undo_rep_cong) simp_all
  ultimately show ?thesis using a by (auto simp: sem_inv_def vals_ok_def)
qed

lemma semop_free_spec:
  assumes "sem_inv s" "holds_buf (kheap s) buf (SEMBUFSZ * int (length ops))"
  shows "starved (semop_free s buf ops) \<or> (\<exists>s'. semop_free s buf ops = Ok (Return s') \<and> sem_inv s'
    \<and> s' = s\<lparr>kheap := kheap s'\<rparr> \<and> owned (kheap s') = owned (kheap s) \<union> blk buf (SEMBUFSZ * int (length ops)))"
proof -
  have km: "km_inv (kheap s)" using assms(1) by (simp add: sem_inv_def)
  from buf_free [OF km assms(2)] show ?thesis
  proof
    assume "\<exists>h'. kmem_free (kheap s) buf (SEMBUFSZ * int (length ops)) = Ok h' \<and> km_inv h'
      \<and> owned h' = owned (kheap s) \<union> blk buf (SEMBUFSZ * int (length ops))"
    then obtain h' where h': "kmem_free (kheap s) buf (SEMBUFSZ * int (length ops)) = Ok h'" "km_inv h'"
      "owned h' = owned (kheap s) \<union> blk buf (SEMBUFSZ * int (length ops))" by blast
    then have "semop_free s buf ops = Ok (Return (s\<lparr>kheap := h'\<rparr>))" by (simp add: semop_free_def)
    then show ?thesis using sem_inv_heap [OF assms(1) h'(2)] h'(3) by simp
  qed (simp add: semop_free_def)
qed

lemma all_done_cong:
  "all_done s sid base ops s1 \<Longrightarrow> \<forall>k<length (sems s). semval (sems s2 ! k) = semval (sems s1 ! k) \<Longrightarrow>
   aoe s2 = aoe s1 \<Longrightarrow> all_done s sid base ops s2"
  by (simp add: all_done_def)

lemma semop_run_spec:
  assumes inv: "sem_inv s" and use: "in_use s i"
    and ops: "\<forall>p\<in>set ops. 0 \<le> sem_num p \<and> sem_num p < sem_nsems (sema s ! i)" "shorts ops"
    and buf: "holds_buf (kheap s) buf (SEMBUFSZ * int (length ops))" and err: "u_error (ua s) = 0"
  shows "starved (semop_run s sid i buf ops) \<or>
    (\<exists>res. semop_run s sid i buf ops = Ok res
       \<and> call_ok s sid (sem_base (sema s ! i)) ops (owned (kheap s) \<union> blk buf (SEMBUFSZ * int (length ops))) res
       \<and> (\<forall>w s'. res = Wait w s' \<longrightarrow> w_sp w = i \<and> w_buf w = buf))"
proof -
  let ?sp = "sema s ! i" and ?X = "owned (kheap s) \<union> blk buf (SEMBUFSZ * int (length ops))"
  let ?base = "sem_base ?sp"
  have il: "i < length (sema s)" using use by (simp add: in_use_def)
  have sets: "sets_ok s" using inv by (simp add: sem_inv_def)
  have rng: "?base + nat (sem_num p) < length (sems s)" if "p \<in> set ops" for p
    using bspec [OF ops(1) that] sets_ok_use(4) [OF sets use] by linarith
  obtain C F where rep: "undo_rep s C F" using inv by (auto simp: sem_inv_def)
  have ok: "ops_ok s ?base ops"
    using inv ops rng by (auto simp: ops_ok_def shorts_def sem_inv_def)
  have "vals_ok s" using inv by (simp add: sem_inv_def)
  from semop_ops_spec [OF rep this ok, of sid] obtain r s1 where r: "semop_ops s ops 0 ops sid ?base = Ok (r, s1)"
      "pass_ok s sid ?base ops r s1"
    by blast
  have inv1: "sem_inv s1" using pass_inv [OF inv r(2)] .
  obtain ops' where aft: "after s sid ?base ops' s1" using r(2) by (auto simp: pass_ok_def split: pass.splits)
  note ff = after_fields [OF aft]
  have sf1: "sys_frame s s1" using after_sys_frame [OF aft] .
  have buf1: "holds_buf (kheap s1) buf (SEMBUFSZ * int (length ops))" using buf ff(6) by simp
  have unf: "semop_run s sid i buf ops = (case r of
         Passed \<Rightarrow>
           obind (semop_pids s1 ?base ops) (\<lambda>s2.
             semop_free (put_sema s2 i ((sema s2 ! i)\<lparr>sem_otime := sem_time s2\<rparr>)) buf ops)
       | Refused \<Rightarrow> semop_free s1 buf ops
       | Blocked c \<Rightarrow> Ok (Wait \<lparr>w_id = sid, w_sp = i, w_buf = buf, w_ops = ops, w_chan = c\<rparr> s1))"
    using il r(1) by (simp add: semop_run_def)
  show ?thesis
  proof (cases r)
    case (Blocked c)
    then have n: "none_done s s1" using r(2) after_none_done by (simp add: pass_ok_def)
    have "owned (kheap s1) = ?X - blk buf (SEMBUFSZ * int (length ops))"
      using buf ff(6) by (auto simp: holds_buf_def)
    then show ?thesis using unf Blocked inv1 n buf1 sf1 by (auto simp: call_ok_def)
  next
    case Refused
    then have n: "none_done s s1" "u_error (ua s1) \<noteq> 0"
      using r(2) after_none_done by (auto simp: pass_ok_def)
    from semop_free_spec [OF inv1 buf1] show ?thesis
    proof
      assume "\<exists>s'. semop_free s1 buf ops = Ok (Return s') \<and> sem_inv s' \<and> s' = s1\<lparr>kheap := kheap s'\<rparr>
        \<and> owned (kheap s') = owned (kheap s1) \<union> blk buf (SEMBUFSZ * int (length ops))"
      then obtain s' where s': "semop_free s1 buf ops = Ok (Return s')" "sem_inv s'" "s' = s1\<lparr>kheap := kheap s'\<rparr>"
        "owned (kheap s') = owned (kheap s1) \<union> blk buf (SEMBUFSZ * int (length ops))" by blast
      obtain h where h: "s' = s1\<lparr>kheap := h\<rparr>" using s'(3) by blast
      have "none_done s s'" "u_error (ua s') \<noteq> 0" using n aoe_cong [of s' s1] by (simp_all add: none_done_def h)
      moreover have "sys_frame s s'" using sf1 by (simp add: h sys_frame_def)
      ultimately show ?thesis using unf Refused s'(1,2,4) ff(6) by (auto simp: call_ok_def)
    qed (simp add: unf Refused)
  next
    case Passed
    then have d: "all_done s sid ?base ops s1" "ua s1 = ua s"
      using r(2) after_all_done by (auto simp: pass_ok_def)
    have "\<forall>p\<in>set ops. ?base + nat (sem_num p) < length (sems s1)" using rng ff(4) by simp
    from semop_pids_spec [OF this] obtain s2 where s2: "semop_pids s1 ?base ops = Ok s2" "s2 = s1\<lparr>sems := sems s2\<rparr>"
      "length (sems s2) = length (sems s1)" "\<forall>k<length (sems s1). semval (sems s2 ! k) = semval (sems s1 ! k)"
      by blast
    define s3 where "s3 = put_sema s2 i ((sema s2 ! i)\<lparr>sem_otime := sem_time s2\<rparr>)"
    obtain xs where xs: "s2 = s1\<lparr>sems := xs\<rparr>" using s2(2) by blast
    have s3f: "seminfo s3 = seminfo s1" "semmap s3 = semmap s1" "sems s3 = sems s2" "kheap s3 = kheap s1"
      "ua s3 = ua s1" "sem_undo_tab s3 = sem_undo_tab s1" "semu s3 = semu s1" "semunp s3 = semunp s1"
      "semfup s3 = semfup s1" "u_procp s3 = u_procp s1" "p_pid s3 = p_pid s1"
      "sema s3 = (sema s1)[i := (sema s1 ! i)\<lparr>sem_otime := sem_time s2\<rparr>]"
      by (simp_all add: s3_def put_sema_def xs)
    have inv3: "sem_inv s3"
    proof -
      have 1: "sets_ok s1" "vals_ok s1" using inv1 by (simp_all add: sem_inv_def)
      have "sets_ok s3"
        using il ff(2) s2(3) by (intro sets_ok_cong [OF 1(1)]) (simp_all add: s3f nth_list_update)
      moreover have "vals_ok s3" using s2(3,4) by (intro vals_ok_cong [OF 1(2)]) (simp_all add: s3f)
      moreover have "undo_rep s1 C F \<Longrightarrow> undo_rep s3 C F" for C F
        by (erule undo_rep_cong) (simp_all add: s3f)
      ultimately show ?thesis using inv1 by (auto simp: sem_inv_def s3f)
    qed
    have d3: "all_done s sid ?base ops s3"
      using d(1) s2(4) ff(4) aoe_cong [of s3 s1] by (intro all_done_cong [of s sid ?base ops s1 s3]) (auto simp: s3f)
    have buf3: "holds_buf (kheap s3) buf (SEMBUFSZ * int (length ops))" using buf1 by (simp add: s3f)
    have unf3: "semop_run s sid i buf ops = semop_free s3 buf ops"
      using unf Passed s2(1) by (simp add: s3_def)
    from semop_free_spec [OF inv3 buf3] show ?thesis
    proof
      assume "\<exists>s'. semop_free s3 buf ops = Ok (Return s') \<and> sem_inv s' \<and> s' = s3\<lparr>kheap := kheap s'\<rparr>
        \<and> owned (kheap s') = owned (kheap s3) \<union> blk buf (SEMBUFSZ * int (length ops))"
      then obtain s' where s': "semop_free s3 buf ops = Ok (Return s')" "sem_inv s'" "s' = s3\<lparr>kheap := kheap s'\<rparr>"
        "owned (kheap s') = owned (kheap s3) \<union> blk buf (SEMBUFSZ * int (length ops))" by blast
      obtain h where h: "s' = s3\<lparr>kheap := h\<rparr>" using s'(3) by blast
      have "all_done s sid ?base ops s'"
        using all_done_cong [OF d3, of s'] aoe_cong [of s' s3] by (simp add: h)
      moreover have "u_error (ua s') = 0" using d(2) err by (simp add: h s3f)
      moreover have "sys_frame s s'"
        using sf1 il ff(2) s2(3) by (auto simp: h sys_frame_def s3f nth_list_update)
      ultimately show ?thesis using unf3 s'(1,2,4) ff(6) by (auto simp: call_ok_def s3f)
    qed (simp add: unf3)
  qed
qed

lemma semop_spec:
  assumes inv: "sem_inv s" and conv: "semconv s sid = Ok (Some i, s)"
    and ops: "cin_ops c = Inr ops" "shorts ops" "int (length ops) = nsops"
  shows "starved (semop s sid nsops c) \<or>
    (\<exists>res. semop s sid nsops c = Ok res
       \<and> call_ok s sid (sem_base (sema s ! i)) ops (owned (kheap s)) res
       \<and> (\<forall>w s'. res = Wait w s' \<longrightarrow> w_sp w = i))"
proof (cases "nsops > semopm (seminfo s)")
  case True
  then have "semop s sid nsops c = Ok (Return (set_error s E2BIG))" using conv by (simp add: semop_def)
  then show ?thesis using inv by (auto simp: call_ok_def E2BIG_def none_done_def sys_frame_def)
next
  case False
  note use = semconv_Some(2) [OF conv]
  have km: "km_inv (kheap s)" and sets: "sets_ok s" using inv by (simp_all add: sem_inv_def)
  have n: "0 \<le> nsops * SEMBUFSZ" "nsops * SEMBUFSZ \<le> 8189" "SEMBUFSZ * int (length ops) = nsops * SEMBUFSZ"
    "SEMBUFSZ * nsops = nsops * SEMBUFSZ"
    using False inv ops(3) by (auto simp: sem_inv_def SEMBUFSZ_def)
  from buf_alloc [OF km n(1,2)] show ?thesis
  proof
    assume "starved (kmem_alloc (kheap s) (nsops * SEMBUFSZ))"
    then show ?thesis using conv False by (simp add: semop_def)
  next
    assume "\<exists>a h'. kmem_alloc (kheap s) (nsops * SEMBUFSZ) = Ok (a, h') \<and> km_inv h'
      \<and> holds_buf h' a (nsops * SEMBUFSZ) \<and> (nsops * SEMBUFSZ \<noteq> 0 \<longrightarrow> 0 < a)
      \<and> owned h' = owned (kheap s) - blk a (nsops * SEMBUFSZ) \<and> blk a (nsops * SEMBUFSZ) \<subseteq> owned (kheap s)"
    then obtain a h where h: "kmem_alloc (kheap s) (nsops * SEMBUFSZ) = Ok (a, h)" "km_inv h"
      "holds_buf h a (nsops * SEMBUFSZ)" "nsops * SEMBUFSZ \<noteq> 0 \<longrightarrow> 0 < a"
      "owned h = owned (kheap s) - blk a (nsops * SEMBUFSZ)" "blk a (nsops * SEMBUFSZ) \<subseteq> owned (kheap s)"
      by blast
    have X: "owned h \<union> blk a (nsops * SEMBUFSZ) = owned (kheap s)" using h(5,6) by auto
    define s1 where "s1 = set_error (s\<lparr>kheap := h\<rparr>) 0"
    have inv1: "sem_inv s1" unfolding s1_def using sem_inv_heap [OF inv h(2)] by simp
    obtain b s2 where v: "semop_verify s1 (sema s ! i) ops = (b, s2)" by fastforce
    note vs = semop_verify_spec [OF v]
    have unf: "semop s sid nsops c = (if b then semop_free s2 a ops else semop_run s2 sid i a ops)"
      using conv False h(1,4) ops(1) v by (auto simp: semop_def Let_def s1_def SEMBUFSZ_def)
    obtain u where s2u: "s2 = s1\<lparr>ua := u\<rparr>" using vs by blast
    have inv2: "sem_inv s2" using sem_inv_ua [OF inv1] s2u by simp
    have k2: "kheap s2 = h" by (simp add: s2u s1_def)
    then have buf2: "holds_buf (kheap s2) a (SEMBUFSZ * int (length ops))" using h(3) by (simp add: ops(3) mult.commute)
    have same: "sems s2 = sems s" "aoe s2 = aoe s" "u_procp s2 = u_procp s" "sema s2 = sema s"
      using aoe_cong [of s2 s] by (simp_all add: s2u s1_def)
    have sf2: "sys_frame s2 = sys_frame s"
      by (intro ext) (simp add: sys_frame_def s2u s1_def)
    have "all_done s2 = all_done s" "none_done s2 = none_done s"
      by (intro ext, simp add: all_done_def none_done_def same)+
    then have trans: "call_ok s2 sid base ops Y res \<Longrightarrow> call_ok s sid base ops Y res" for base Y res
      by (cases res) (simp_all add: call_ok_def sf2 split: if_splits)
    show ?thesis
    proof (cases b)
      case True
      then have e: "u_error (ua s2) \<noteq> 0" using vs by simp
      from semop_free_spec [OF inv2 buf2] show ?thesis
      proof
        assume "\<exists>s'. semop_free s2 a ops = Ok (Return s') \<and> sem_inv s' \<and> s' = s2\<lparr>kheap := kheap s'\<rparr>
          \<and> owned (kheap s') = owned (kheap s2) \<union> blk a (SEMBUFSZ * int (length ops))"
        then obtain s' where s': "semop_free s2 a ops = Ok (Return s')" "sem_inv s'" "s' = s2\<lparr>kheap := kheap s'\<rparr>"
          "owned (kheap s') = owned (kheap s2) \<union> blk a (SEMBUFSZ * int (length ops))" by blast
        obtain g where g: "s' = s2\<lparr>kheap := g\<rparr>" using s'(3) by blast
        have "none_done s s'" "u_error (ua s') \<noteq> 0"
          using same e aoe_cong [of s' s2] by (simp_all add: none_done_def g)
        moreover have "sys_frame s s'" by (simp add: g sys_frame_def s2u s1_def)
        ultimately show ?thesis using unf True s'(1,2,4) X k2 unfolding n(3) by (auto simp: call_ok_def)
      qed (simp add: unf True)
    next
      case False
      then have e: "u_error (ua s2) = 0" and rng: "\<forall>p\<in>set ops. uint32 (sem_num p) < sem_nsems (sema s ! i)"
        using vs by (simp_all add: s1_def)
      have nums: "\<forall>p\<in>set ops. 0 \<le> sem_num p \<and> sem_num p < sem_nsems (sema s2 ! i)"
      proof
        fix p assume p: "p \<in> set ops"
        have "- 32768 \<le> sem_num p" "sem_num p \<le> 32767" using ops(2) p by (auto simp: shorts_def)
        then show "0 \<le> sem_num p \<and> sem_num p < sem_nsems (sema s2 ! i)"
          using uint32_short [of "sem_num p" "sem_nsems (sema s ! i)"] rng p same(4)
            sets_ok_use(3) [OF sets use] by auto
      qed
      have use2: "in_use s2 i" using use same(4) by (simp add: in_use_def)
      from semop_run_spec [OF inv2 use2 nums ops(2) buf2 e, of sid] False unf trans X
      show ?thesis unfolding n(3) k2 same(4) by auto
    qed
  qed
qed

end
