(* ===== verification/Sem_Exit.thy ===== *)
theory Sem_Exit
  imports Sem_Ops
begin

text \<open>
  Process exit: \<open>semexit\<close> applies the adjustments of the process and gives its undo structure back.
  The properties of \<open>semaoe\<close>, \<open>semop\<close> and \<open>semexit\<close>, on a small example system.
\<close>

section \<open>Process exit\<close>

fun esum :: "nat \<Rightarrow> undo list \<Rightarrow> nat \<Rightarrow> int" where
  "esum base [] k = 0"
| "esum base (e # es) k = (if base + nat (un_num e) = k then un_aoe e else 0) + esum base es k"

lemma esum_append [simp]: "esum base (es @ fs) k = esum base es k + esum base fs k"
  by (induction es) auto

lemma sem_step_conv: "sem_step s s' d \<Longrightarrow> semconv s' i = (case semconv s i of Ok (r, t) \<Rightarrow> Ok (r, if r = None then set_error s' EINVAL else s')
    | Panic m \<Rightarrow> Panic m | Fault \<Rightarrow> Fault | Sleep \<Rightarrow> Sleep)"
proof -
  assume "sem_step s s' d"
  then obtain xs ws where "s' = s\<lparr>sems := xs, wakeups := ws\<rparr>" by (auto simp: sem_step_def)
  then show ?thesis by (auto simp: semconv_def Let_def aget_def)
qed

lemma sem_step_sema: "sem_step s s' d \<Longrightarrow> sema s' = sema s"
proof -
  assume "sem_step s s' d"
  then obtain xs ws where "s' = s\<lparr>sems := xs, wakeups := ws\<rparr>" unfolding sem_step_def by blast
  then show ?thesis by simp
qed

text \<open>The loop applies every adjustment, when all of them belong to one set and stay in range.\<close>

lemma semexit_loop_spec:
  assumes "n \<le> length es" "semconv s sid = Ok (Some d, s)" "base = sem_base (sema s ! d)"
    "\<forall>e\<in>set (take n es). un_id e = sid \<and> 0 \<le> un_num e \<and> base + nat (un_num e) < length (sems s)
       \<and> 0 \<le> semval (sems s ! (base + nat (un_num e))) + un_aoe e
       \<and> semval (sems s ! (base + nat (un_num e))) + un_aoe e \<le> semvmx (seminfo s)"
    "distinct (map un_num (take n es))"
  shows "\<exists>s'. semexit_loop s es n = Ok s' \<and> sem_step s s' (esum base (take n es))"
  using assms
proof (induction n arbitrary: s)
  case 0
  then show ?case by (simp add: sem_step_def)
next
  case (Suc n)
  let ?e = "es ! n"
  let ?k = "base + nat (un_num ?e)"
  let ?v = "semval (sems s ! ?k) + un_aoe ?e"
  have tk: "take (Suc n) es = take n es @ [?e]" using Suc.prems(1) by (simp add: take_Suc_conv_app_nth)
  have e: "un_id ?e = sid" "0 \<le> un_num ?e" "?k < length (sems s)" "0 \<le> ?v" "?v \<le> semvmx (seminfo s)"
    using Suc.prems(4) by (simp_all add: tk)
  obtain s1 where s1: "upd_sem s ?k (\<lambda>x. x\<lparr>semval := ?v\<rparr>) = Ok s1"
      "sem_step s s1 (\<lambda>j. if j = ?k then un_aoe ?e else 0)"
    using upd_sem_step [of ?k s "\<lambda>x. x\<lparr>semval := ?v\<rparr>" "un_aoe ?e"] e(3) by auto
  have k1: "?k < length (sems s1)" using sem_step_fields(8) [OF s1(2)] e(3) by simp
  obtain s2 where s2: "(if ?v = 0 then wake_zcnt s1 ?k else Ok s1) = Ok s2" "sem_step s1 s2 (\<lambda>_. 0)"
    using wake_zcnt_step [OF k1] by (cases "?v = 0") (auto simp: sem_step_def)
  have k2: "?k < length (sems s2)" using sem_step_fields(8) [OF s2(2)] k1 by simp
  obtain s3 where s3: "(if un_aoe ?e > 0 then wake_ncnt s2 ?k else Ok s2) = Ok s3" "sem_step s2 s3 (\<lambda>_. 0)"
    using wake_ncnt_step [OF k2] by (cases "un_aoe ?e > 0") (auto simp: sem_step_def)
  have st: "sem_step s s3 (\<lambda>j. if j = ?k then un_aoe ?e else 0)"
    using sem_step_trans [OF sem_step_trans [OF s1(2) s2(2)] s3(2)] by simp
  have unf: "semexit_loop s es (Suc n) = semexit_loop s3 es n"
  proof -
    have a: "aget (sems s) ?k = Ok (sems s ! ?k)" using e(3) by simp
    have nv: "\<not> (?v < 0 \<or> ?v > semvmx (seminfo s))" using e(4,5) by simp
    show ?thesis
      unfolding semexit_loop.simps(2) Let_def e(1) Suc.prems(2) obind.simps prod.case option.case
        Suc.prems(3) [symmetric] a if_not_P [OF nv] s1(1) s2(1) s3(1) ..
  qed
  have vals: "semval (sems s3 ! j) = semval (sems s ! j)" if "j < length (sems s)" "j \<noteq> ?k" for j
    using st that by (simp add: sem_step_def)
  have "\<exists>s'. semexit_loop s3 es n = Ok s' \<and> sem_step s3 s' (esum base (take n es))"
  proof (rule Suc.IH)
    show "semconv s3 sid = Ok (Some d, s3)" using sem_step_conv [OF st] Suc.prems(2) by simp
    show "base = sem_base (sema s3 ! d)" using sem_step_sema [OF st] Suc.prems(3) by simp
    show "\<forall>e\<in>set (take n es). un_id e = sid \<and> 0 \<le> un_num e \<and> base + nat (un_num e) < length (sems s3)
       \<and> 0 \<le> semval (sems s3 ! (base + nat (un_num e))) + un_aoe e
       \<and> semval (sems s3 ! (base + nat (un_num e))) + un_aoe e \<le> semvmx (seminfo s3)"
    proof
      fix f assume f: "f \<in> set (take n es)"
      then have old: "un_id f = sid \<and> 0 \<le> un_num f \<and> base + nat (un_num f) < length (sems s)
       \<and> 0 \<le> semval (sems s ! (base + nat (un_num f))) + un_aoe f
       \<and> semval (sems s ! (base + nat (un_num f))) + un_aoe f \<le> semvmx (seminfo s)"
        using Suc.prems(4) by (simp add: tk)
      have "un_num f \<noteq> un_num ?e" using Suc.prems(5) f by (simp add: tk) (metis image_eqI)
      then have "base + nat (un_num f) \<noteq> ?k" using old e(2) by (simp add: nat_eq_iff)
      then show "un_id f = sid \<and> 0 \<le> un_num f \<and> base + nat (un_num f) < length (sems s3)
       \<and> 0 \<le> semval (sems s3 ! (base + nat (un_num f))) + un_aoe f
       \<and> semval (sems s3 ! (base + nat (un_num f))) + un_aoe f \<le> semvmx (seminfo s3)"
        using old vals sem_step_fields(6,8) [OF st] by simp
    qed
  qed (use Suc.prems(1,5) in \<open>simp_all add: tk\<close>)
  then obtain s' where s': "semexit_loop s3 es n = Ok s'" "sem_step s3 s' (esum base (take n es))" by blast
  have "esum base (take (Suc n) es) = (\<lambda>k. (if k = ?k then un_aoe ?e else 0) + esum base (take n es) k)"
    by (auto simp: tk)
  then show ?case using sem_step_trans [OF st s'(2)] s'(1) unf by simp
qed

text \<open>What happens to the undo structure of the process.\<close>

lemma same_entries_np:
  assumes "same_entries us us'"
  shows "same_entries us (us'[i := (us' ! i)\<lparr>un_np := q\<rparr>])"
proof -
  have "un_cnt (us'[i := (us' ! i)\<lparr>un_np := q\<rparr>] ! j) = un_cnt (us' ! j)
      \<and> un_ent (us'[i := (us' ! i)\<lparr>un_np := q\<rparr>] ! j) = un_ent (us' ! j)" if "j < length us'" for j
    using that by (cases "j = i") auto
  then show ?thesis using assms by (simp add: same_entries_def)
qed

lemma semexit_undo:
  assumes rep: "undo_rep s C F" and cur: "u_procp s < length (sem_undo_tab s)"
    "sem_undo_tab s ! u_procp s = Some up"
    and s1: "s1 = s\<lparr>semu := (semu s)[up := (semu s ! up)\<lparr>un_cnt := 0\<rparr>]\<rparr>"
  shows "\<exists>s2 C'. (if up \<in> set C then undo_unlink s1 up else Ok s1) = Ok s2 \<and> sems s2 = sems s
    \<and> undo_frame s s2 \<and> ua s2 = ua s
    \<and> undo_rep (s2\<lparr>sem_undo_tab := (sem_undo_tab s2)[u_procp s2 := None],
                   semu := (semu s2)[up := (semu s2 ! up)\<lparr>un_np := semfup s2\<rparr>], semfup := Some up\<rparr>) C' (up # F)
    \<and> (\<forall>p k. aoe (s2\<lparr>sem_undo_tab := (sem_undo_tab s2)[u_procp s2 := None],
                   semu := (semu s2)[up := (semu s2 ! up)\<lparr>un_np := semfup s2\<rparr>], semfup := Some up\<rparr>) p k
         = (if p = u_procp s then 0 else aoe s p k))"
proof -
  have up: "up < length (semu s)" "up \<notin> set F" using undo_rep_tab [OF rep cur] by auto
  define us1 where "us1 = (semu s)[up := (semu s ! up)\<lparr>un_cnt := 0\<rparr>]"
  obtain C' us h where u: "(if up \<in> set C then undo_unlink s1 up else Ok s1) = Ok (s\<lparr>semu := us, semunp := h\<rparr>)"
      "np_path us h C'" "same_entries us1 us" "\<And>i. i \<notin> set C \<Longrightarrow> us ! i = us1 ! i"
      "set C' = set C - {up}" "distinct C'"
  proof (cases "up \<in> set C")
    case True
    then obtain P Q where C: "C = P @ up # Q" by (meson split_list)
    have dC: "distinct (P @ up # Q)" using undo_repD(7) [OF rep] C by simp
    have "np_path (semu s1) (semunp s1) (P @ up # Q)"
      using undo_repD(5) [OF rep] by (auto simp: s1 C intro: np_path_same)
    then obtain us h where "undo_unlink s1 up = Ok (s1\<lparr>semu := us, semunp := h\<rparr>)" "np_path us h (P @ Q)"
      "same_entries (semu s1) us" "\<And>i. i \<notin> set P \<Longrightarrow> us ! i = semu s1 ! i"
      using dC by (rule undo_unlink_spec) blast
    then show ?thesis using True dC by (intro that [where C' = "P @ Q" and us = us and h = h]) (auto simp: s1 us1_def C)
  next
    case False
    have "np_path us1 (semunp s) C"
      using undo_repD(5) [OF rep] by (auto simp: us1_def intro: np_path_same)
    then show ?thesis
      using False undo_repD(7) [OF rep]
      by (intro that [where C' = C and us = us1 and h = "semunp s"]) (auto simp: s1 us1_def same_entries_def)
  qed
  define s2 where "s2 = s\<lparr>semu := us, semunp := h\<rparr>"
  define s3 where "s3 = s2\<lparr>sem_undo_tab := (sem_undo_tab s2)[u_procp s2 := None],
      semu := (semu s2)[up := (semu s2 ! up)\<lparr>un_np := semfup s2\<rparr>], semfup := Some up\<rparr>"
  have len: "length us = length (semu s)" using u(3) by (simp add: same_entries_def us1_def)
  have se: "same_entries us1 (semu s3)"
    using same_entries_np [OF u(3)] by (simp add: s3_def s2_def)
  have ok1: "\<forall>x\<in>set us1. undo_ok (seminfo s) x"
  proof
    fix x assume "x \<in> set us1"
    then consider "x \<in> set (semu s)" | "x = (semu s ! up)\<lparr>un_cnt := 0\<rparr>"
      using set_update_subset_insert by (fastforce simp: us1_def)
    then show "undo_ok (seminfo s) x"
      using undo_repD(3,4) [OF rep] up(1) by cases (auto simp: undo_ok_def active_def)
  qed
  have "undo_rep s3 C' (up # F)"
    unfolding undo_rep_def
  proof (intro conjI)
    show "\<forall>x\<in>set (semu s3). undo_ok (seminfo s3) x"
      using same_entries_ok [OF se ok1] by (simp add: s3_def s2_def)
    show "np_path (semu s3) (semunp s3) C'"
      using u(2,5) by (auto simp: s3_def s2_def intro: np_path_notin)
    have "\<forall>i\<in>set F. un_np (semu s3 ! i) = un_np (semu s ! i)"
    proof
      fix i assume "i \<in> set F"
      then have "i \<notin> set C" "i \<noteq> up" using undo_repD(9) [OF rep] up(2) by auto
      then show "un_np (semu s3 ! i) = un_np (semu s ! i)"
        using u(4) by (simp add: s3_def s2_def us1_def)
    qed
    then have "np_path (semu s3) (semfup s) F"
      using np_path_cong [OF undo_repD(6) [OF rep], of "semu s3"] len by (simp add: s3_def s2_def)
    then show "np_path (semu s3) (semfup s3) (up # F)"
      using up(1) len by (simp add: s3_def s2_def)
    show "distinct (C' @ up # F)" using undo_repD(8,9) [OF rep] u(5,6) up(2) by auto
    show "undo_cnt_ok (semu s3) (set C')"
      unfolding undo_cnt_ok_def
    proof (intro allI impI)
      fix i assume i: "i < length (semu s3)"
      have "un_cnt (semu s3 ! i) = un_cnt (us1 ! i)" "i < length (semu s)"
        using se i by (auto simp: same_entries_def us1_def)
      then show "0 < un_cnt (semu s3 ! i) \<longleftrightarrow> i \<in> set C'"
        using undo_repD(10) [OF rep] u(5) up(1) by (cases "i = up") (auto simp: undo_cnt_ok_def us1_def)
    qed
    show "undo_tab_ok (sem_undo_tab s3) (length (semu s3)) (set (up # F))"
      unfolding undo_tab_ok_def
    proof (intro allI impI)
      fix p v assume p: "p < length (sem_undo_tab s3)" "sem_undo_tab s3 ! p = Some v"
      have pl: "p < length (sem_undo_tab s)" "p \<noteq> u_procp s" "sem_undo_tab s ! p = Some v"
        using p cur(1) by (auto simp: s3_def s2_def nth_list_update split: if_splits)
      have "v \<noteq> up" using undo_rep_tab(3) [OF rep cur pl(1)] pl(2,3) by blast
      moreover have "q = p" if "q < length (sem_undo_tab s3)" "sem_undo_tab s3 ! q = Some v" for q
      proof -
        have "q < length (sem_undo_tab s)" "sem_undo_tab s ! q = Some v"
          using that cur(1) by (auto simp: s3_def s2_def nth_list_update split: if_splits)
        then show ?thesis using undo_rep_tab(3) [OF rep pl(1,3)] by blast
      qed
      ultimately show "v < length (semu s3) \<and> v \<notin> set (up # F)
          \<and> (\<forall>q<length (sem_undo_tab s3). sem_undo_tab s3 ! q = Some v \<longrightarrow> q = p)"
        using undo_rep_tab(1,2) [OF rep pl(1,3)] len by (auto simp: s3_def s2_def)
    qed
  qed (use undo_repD(1-3) [OF rep] in \<open>simp_all add: s3_def s2_def\<close>)
  moreover have "aoe s3 p k = (if p = u_procp s then 0 else aoe s p k)" for p k
  proof (cases "p = u_procp s \<or> \<not> p < length (sem_undo_tab s)")
    case True
    then show ?thesis using cur(1) by (auto simp: aoe_def s3_def s2_def)
  next
    case False
    have "active (semu s3 ! v) = active (semu s ! v)" if "sem_undo_tab s ! p = Some v" for v
    proof -
      have "v < length (semu s)" "v \<noteq> up"
        using undo_rep_tab(1,3) [OF rep] that False cur by blast+
      then show ?thesis
        using same_entries_active [OF se, of v] by (simp add: us1_def)
    qed
    then show ?thesis using False by (auto simp: aoe_def s3_def s2_def split: option.splits)
  qed
  ultimately show ?thesis
    using u(1) by (intro exI [of _ s2] exI [of _ C']) (auto simp: s2_def s3_def)
qed

lemma base_num: "0 \<le> n \<Longrightarrow> base + nat n = k \<longleftrightarrow> base \<le> k \<and> n = int k - int base"
  by linarith

lemma esum_ent:
  assumes "\<forall>e\<in>set es. un_id e = sid \<and> 0 \<le> un_num e"
  shows "esum base es k = (if base \<le> k then ent_aoe es (sid, int k - int base) else 0)"
  using assms
proof (induction es)
  case (Cons e es)
  then have "base + nat (un_num e) = k \<longleftrightarrow> base \<le> k \<and> un_num e = int k - int base" "un_id e = sid"
    using base_num by simp_all
  then show ?case using Cons by (simp add: ukey_def)
qed simp

lemma opsum_undosum:
  assumes "\<forall>p\<in>set ops. 0 \<le> sem_num p \<and> sem_flg p AND SEM_UNDO \<noteq> 0"
  shows "opsum base ops k = (if base \<le> k then undosum ops (int k - int base) else 0)"
  using assms
proof (induction ops)
  case (Cons p ops)
  then have "base + nat (sem_num p) = k \<longleftrightarrow> base \<le> k \<and> sem_num p = int k - int base"
    using base_num by simp
  then show ?case using Cons by simp
qed simp

lemma undosum_absent: "\<forall>p\<in>set ops. sem_num p \<noteq> num \<Longrightarrow> undosum ops num = 0"
  by (induction ops) auto

lemma semexit_unfold:
  assumes "u_procp s < length (sem_undo_tab s)" "sem_undo_tab s ! u_procp s = Some up" "up < length (semu s)"
  shows "semexit s = obind (if un_cnt (semu s ! up) = 0 then Ok s
      else obind (semexit_loop s (un_ent (semu s ! up)) (un_cnt (semu s ! up))) (\<lambda>s1.
             undo_unlink (s1\<lparr>semu := (semu s1)[up := (semu s1 ! up)\<lparr>un_cnt := 0\<rparr>]\<rparr>) up))
    (\<lambda>s2. Ok (s2\<lparr>sem_undo_tab := (sem_undo_tab s2)[u_procp s2 := None],
                  semu := (semu s2)[up := (semu s2 ! up)\<lparr>un_np := semfup s2\<rparr>], semfup := Some up\<rparr>))"
  using assms by (simp add: semexit_def)

text \<open>
  From a state in which the operations \<open>ops\<close> on the set are the only ones that the process has
  to undo, \<open>semexit\<close> restores the semaphores.
\<close>

lemma semexit_restores:
  assumes inv: "sem_inv s1" and conv: "semconv s1 sid = Ok (Some i, s1)"
    and ops: "\<forall>p\<in>set ops. 0 \<le> sem_num p \<and> sem_num p < sem_nsems (sema s1 ! i) \<and> sem_flg p AND SEM_UNDO \<noteq> 0"
    and vals: "\<forall>k<length (sems s1). 0 \<le> v k \<and> v k \<le> semvmx (seminfo s1)
      \<and> semval (sems s1 ! k) = v k + opsum (sem_base (sema s1 ! i)) ops k"
    and aoes: "\<forall>j num. aoe s1 (u_procp s1) (j, num) = (if j = sid then - undosum ops num else 0)"
  shows "\<exists>s2. semexit s1 = Ok s2 \<and> (\<forall>k<length (sems s1). semval (sems s2 ! k) = v k)
    \<and> (\<forall>p k. aoe s2 p k = (if p = u_procp s1 then 0 else aoe s1 p k))"
proof -
  let ?base = "sem_base (sema s1 ! i)" and ?q = "u_procp s1"
  have cur: "?q < length (sem_undo_tab s1)" using inv by (simp add: sem_inv_def)
  have use: "in_use s1 i" and sets: "sets_ok s1" using semconv_Some(2) [OF conv] inv by (simp_all add: sem_inv_def)
  have os: "opsum ?base ops k = (if ?base \<le> k then undosum ops (int k - int ?base) else 0)" for k
    using ops by (intro opsum_undosum) auto
  obtain C F where rep: "undo_rep s1 C F" using inv by (auto simp: sem_inv_def)
  show ?thesis
  proof (cases "sem_undo_tab s1 ! ?q")
    case None
    have "aoe s1 ?q (sid, num) = 0" for num using None by (simp add: aoe_def)
    then have "undosum ops num = 0" for num using aoes by (metis neg_equal_0_iff_equal)
    then have "\<forall>k<length (sems s1). semval (sems s1 ! k) = v k" using vals os by simp
    moreover have "aoe s1 ?q k = 0" for k using None by (simp add: aoe_def)
    moreover have "semexit s1 = Ok s1" using None cur by (simp add: semexit_def)
    ultimately show ?thesis by auto
  next
    case (Some up)
    note tab = cur Some
    have up: "up < length (semu s1)" using undo_rep_tab(1) [OF rep tab] .
    define x where "x = semu s1 ! up"
    have ok: "undo_ok (seminfo s1) x" using undo_repD(4) [OF rep] up by (simp add: x_def)
    note act = aoe_active [OF tab, folded x_def]
    have ent: "un_id e = sid \<and> 0 \<le> un_num e \<and> un_num e < sem_nsems (sema s1 ! i)
        \<and> un_aoe e = - undosum ops (un_num e)" if e: "e \<in> set (active x)" for e
    proof -
      have a: "aoe s1 ?q (un_id e, un_num e) = un_aoe e"
        using ent_aoe_present [OF undo_okD(3) [OF ok] e] act by (simp add: ukey_def)
      have nz: "un_aoe e \<noteq> 0" using undo_okD(4) [OF ok] e by simp
      then have id: "un_id e = sid" "un_aoe e = - undosum ops (un_num e)" using a aoes by (auto split: if_splits)
      then obtain p where "p \<in> set ops" "sem_num p = un_num e" using nz undosum_absent by fastforce
      then show ?thesis using id ops by auto
    qed
    have ub: "?base + nat (un_num e) < length (sems s1)" if "e \<in> set (active x)" for e
      using ent [OF that] sets_ok_use(4) [OF sets use] by linarith
    have es: "esum ?base (active x) k = - opsum ?base ops k" for k
    proof -
      have "esum ?base (active x) k = (if ?base \<le> k then ent_aoe (active x) (sid, int k - int ?base) else 0)"
        using ent by (intro esum_ent) auto
      then show ?thesis using os aoes act by simp
    qed
    have val: "semval (sems s1 ! (?base + nat (un_num e))) + un_aoe e = v (?base + nat (un_num e))"
      if e: "e \<in> set (active x)" for e
      using vals ub [OF e] os [of "?base + nat (un_num e)"] ent [OF e] by simp
    have dist: "distinct (map un_num (active x))"
    proof -
      have "distinct (map ukey (active x))" using usorted_keys_distinct undo_okD(3) [OF ok] by blast
      moreover have "map ukey (active x) = map (Pair sid) (map un_num (active x))"
        using ent by (simp add: ukey_def)
      ultimately show ?thesis using distinct_map by metis
    qed
    have len: "un_cnt x \<le> length (un_ent x)" using undo_okD(5) [OF ok] by simp
    have "\<forall>e\<in>set (take (un_cnt x) (un_ent x)). un_id e = sid \<and> 0 \<le> un_num e \<and> ?base + nat (un_num e) < length (sems s1)
       \<and> 0 \<le> semval (sems s1 ! (?base + nat (un_num e))) + un_aoe e
       \<and> semval (sems s1 ! (?base + nat (un_num e))) + un_aoe e \<le> semvmx (seminfo s1)"
      unfolding active_def [symmetric] using ent ub val vals by simp
    from semexit_loop_spec [OF len conv refl this] dist obtain t where
      t: "semexit_loop s1 (un_ent x) (un_cnt x) = Ok t" "sem_step s1 t (esum ?base (active x))"
      by (auto simp: active_def)
    note tf = sem_step_fields [OF t(2)]
    have rept: "undo_rep t C F" using sem_step_undo(2) [OF t(2)] rep by simp
    have tvals: "semval (sems t ! k) = v k" if "k < length (sems s1)" for k
    proof -
      have "semval (sems t ! k) = semval (sems s1 ! k) + esum ?base (active x) k"
        using t(2) that unfolding sem_step_def by blast
      then show ?thesis using vals that es by simp
    qed
    define y where "y = t\<lparr>semu := (semu t)[up := (semu t ! up)\<lparr>un_cnt := 0\<rparr>]\<rparr>"
    have tab': "u_procp t < length (sem_undo_tab t)" "sem_undo_tab t ! u_procp t = Some up" using tab tf by simp_all
    from semexit_undo [OF rept tab' y_def] obtain s2 where
      s2: "(if up \<in> set C then undo_unlink y up else Ok y) = Ok s2" "sems s2 = sems t" "ua s2 = ua t"
        "\<forall>p k. aoe (s2\<lparr>sem_undo_tab := (sem_undo_tab s2)[u_procp s2 := None],
             semu := (semu s2)[up := (semu s2 ! up)\<lparr>un_np := semfup s2\<rparr>], semfup := Some up\<rparr>) p k
           = (if p = u_procp t then 0 else aoe t p k)"
      by blast
    have C: "up \<in> set C \<longleftrightarrow> un_cnt x \<noteq> 0"
      using undo_repD(10) [OF rep] up by (auto simp: undo_cnt_ok_def x_def)
    have unf: "semexit s1 = Ok (s2\<lparr>sem_undo_tab := (sem_undo_tab s2)[u_procp s2 := None],
             semu := (semu s2)[up := (semu s2 ! up)\<lparr>un_np := semfup s2\<rparr>], semfup := Some up\<rparr>)"
    proof (cases "un_cnt x = 0")
      case True
      then have "t = s1" using t(1) by simp
      have "semu t ! up = (semu t ! up)\<lparr>un_cnt := 0\<rparr>" using True \<open>t = s1\<close> by (simp add: x_def)
      then have "y = s1" using \<open>t = s1\<close> unfolding y_def by (metis list_update_id sem_state.surjective sem_state.update_convs(6))
      then show ?thesis using semexit_unfold [OF tab up] True s2(1) C by (simp add: x_def)
    next
      case False
      then show ?thesis using semexit_unfold [OF tab up] t(1) s2(1) C by (simp add: x_def y_def)
    qed
    show ?thesis
      unfolding unf using tvals s2(2,4) tf(7) sem_step_undo(1) [OF t(2)] by auto
  qed
qed

section \<open>Properties\<close>

text \<open>
  An example system: two sets, of which the first is in use with three of the six semaphores, and
  two processes, neither of which has an undo structure yet.
\<close>

definition demo_sem :: sem_state where
  "demo_sem =
     \<lparr>seminfo = \<lparr>semmapsz = 10, semmni = 2, semmns = 6, semmnu = 2, semmsl = 6, semopm = 10, semume = 3,
                 semvmx = 32767, semaem = 16384\<rparr>,
      sema = [\<lparr>sem_perm = \<lparr>uid = 10, gid = 5, cuid = 10, cgid = 5, mode = 0x8180, seq = 5, key = 77\<rparr>,
               sem_base = 0, sem_nsems = 3, sem_otime = 0, sem_ctime = 100\<rparr>,
              \<lparr>sem_perm = \<lparr>uid = 0, gid = 0, cuid = 0, cgid = 0, mode = 0, seq = 0, key = 0\<rparr>,
               sem_base = 0, sem_nsems = 0, sem_otime = 0, sem_ctime = 0\<rparr>],
      sems = \<lparr>semval = 1, sempid = 0, semncnt = 0, semzcnt = 0\<rparr> #
             replicate 5 \<lparr>semval = 0, sempid = 0, semncnt = 0, semzcnt = 0\<rparr>,
      semmap = \<lparr>m_free = 6, m_want = 0,
                m_ent = \<lparr>m_size = 3, m_addr = 4\<rparr> # replicate 7 \<lparr>m_size = 0, m_addr = 0\<rparr>,
                m_nam = ''semmap'', is_swapmap = False, m_lost = [], m_wakeups = 0\<rparr>,
      sem_undo_tab = [None, None],
      semu = [\<lparr>un_np = Some 1, un_cnt = 0, un_ent = replicate 4 \<lparr>un_aoe = 0, un_num = 0, un_id = 0\<rparr>\<rparr>,
              \<lparr>un_np = None, un_cnt = 0, un_ent = replicate 4 \<lparr>un_aoe = 0, un_num = 0, un_id = 0\<rparr>\<rparr>],
      semunp = None, semfup = Some 0, kheap = calm_heap, ua = demo_user, u_procp = 0, p_pid = 42,
      sem_time = 1000, wakeups = [], copied = []\<rparr>"

lemma demo_undo: "undo_rep demo_sem [] [0, 1]"
  by (simp add: undo_rep_def demo_sem_def undo_ok_def active_def undo_cnt_ok_def undo_tab_ok_def
      less_Suc_eq numeral_2_eq_2)

lemma demo_in_use: "in_use demo_sem i \<longleftrightarrow> i = 0"
  by (auto simp: in_use_def demo_sem_def ipc_allocated_def IPC_ALLOC_def less_Suc_eq)

lemma demo_sem_inv: "sem_inv demo_sem"
proof -
  have rm: "rm_inv (semmap demo_sem)" "rm_space (semmap demo_sem) = blk 4 3"
    by (simp_all add: demo_sem_def rm_inv_def rm_segs_def rm_space_def INT_MAX_def)
  have "set_blk (sema demo_sem ! 0) = blk 1 3" by (simp add: set_blk_def demo_sem_def)
  moreover have "blk 1 3 \<subseteq> {1..6::int}" "blk 1 3 \<inter> blk 4 3 = ({} :: int set)" by auto
  moreover have "length (sems demo_sem) = 6" "sem_nsems (sema demo_sem ! 0) = 3" "semmsl (seminfo demo_sem) = 6"
    by (simp_all add: demo_sem_def)
  ultimately have "sets_apart demo_sem"
    by (simp add: sets_apart_def demo_in_use rm)
  moreover have "blk 4 3 \<subseteq> {1..6::int}" by auto
  ultimately have "sets_ok demo_sem"
    using rm by (simp add: sets_ok_def) (simp add: demo_sem_def INT_MAX_def)
  moreover have "vals_ok demo_sem" by (auto simp: vals_ok_def demo_sem_def)
  moreover have "km_inv (kheap demo_sem)" using calm_heap_inv by (simp add: demo_sem_def)
  moreover have "\<exists>C F. undo_rep demo_sem C F" using demo_undo by blast
  moreover have "u_procp demo_sem < length (sem_undo_tab demo_sem) \<and> 0 \<le> semopm (seminfo demo_sem)
      \<and> semopm (seminfo demo_sem) \<le> 1000 \<and> 0 \<le> semvmx (seminfo demo_sem)"
    by (simp add: demo_sem_def)
  ultimately show ?thesis unfolding sem_inv_def by blast
qed

text \<open>
  C21: \<open>semaoe\<close> refines an update of a table of adjustments per process, set and semaphore: it
  succeeds exactly if the adjustments stay within \<open>semaem\<close> and there is room for a new entry, and
  then takes \<open>val\<close> from one entry; otherwise it changes no entry.  It keeps the entries sorted and
  the two chains of structures apart.
\<close>

theorem semaoe_refines:
  assumes "undo_rep s C F" "u_procp s < length (sem_undo_tab s)"
  shows "\<exists>s'. semaoe s val sid num = Ok (\<not> aoe_fits s val (sid, num), s') \<and> (\<exists>C F. undo_rep s' C F)
    \<and> aoe s' = (if aoe_fits s val (sid, num) then aoe_upd (aoe s) (u_procp s) (sid, num) val else aoe s)
    \<and> (\<not> aoe_fits s val (sid, num) \<longrightarrow> u_error (ua s') \<in> {ERANGE, ENOSPC, EINVAL}) \<and> sems s' = sems s"
proof -
  obtain s' where k: "undo_keep s s'" and
    r: "if aoe_fits s val (sid, num)
        then semaoe s val sid num = Ok (False, s') \<and> ua s' = ua s \<and> aoe s' = aoe_upd (aoe s) (u_procp s) (sid, num) val
          \<and> (val \<noteq> 0 \<longrightarrow> sem_undo_tab s' ! u_procp s \<noteq> None)
        else (\<exists>e\<in>{ERANGE, ENOSPC, EINVAL}. semaoe s val sid num = Ok (True, s') \<and> ua s' = (ua s)\<lparr>u_error := e\<rparr>)
          \<and> aoe s' = aoe s"
    using semaoe_spec [OF assms] by blast
  have "\<exists>C F. undo_rep s' C F" "sems s' = sems s"
    using k undo_frame_fields(3) by (simp_all add: undo_keep_def)
  then show ?thesis
    using r by (intro exI [of _ s']) (cases "aoe_fits s val (sid, num)"; auto)
qed

theorem semaoe_refines_witness:
  "\<exists>s'. semaoe demo_sem 7 10 2 = Ok (\<not> aoe_fits demo_sem 7 (10, 2), s')
    \<and> aoe s' = (if aoe_fits demo_sem 7 (10, 2) then aoe_upd (aoe demo_sem) (u_procp demo_sem) (10, 2) 7 else aoe demo_sem)"
proof -
  have "u_procp demo_sem < length (sem_undo_tab demo_sem)" by (simp add: demo_sem_def)
  from semaoe_refines [OF demo_undo this, of 7 10 2] show ?thesis by blast
qed

text \<open>
  C7: A group of operations takes effect as a whole or not at all.  Whatever the operations are,
  \<open>semop\<close> on a set in use either cannot get memory, or it returns with all operations done and
  recorded for undoing, or with an error code and with every semaphore and every adjustment as
  before, or it sleeps with nothing done; the values stay within range, and the buffer for the
  operations is freed on every return.
\<close>

theorem semop_all_or_nothing:
  assumes "sem_inv s" "semconv s sid = Ok (Some i, s)" "cin_ops c = Inr ops" "shorts ops"
    "int (length ops) = nsops"
  shows "starved (semop s sid nsops c)
    \<or> (\<exists>s'. semop s sid nsops c = Ok (Return s') \<and> sem_inv s' \<and> owned (kheap s') = owned (kheap s)
         \<and> (if u_error (ua s') = 0 then all_done s sid (sem_base (sema s ! i)) ops s' else none_done s s'))
    \<or> (\<exists>w s'. semop s sid nsops c = Ok (Wait w s') \<and> sem_inv s' \<and> none_done s s' \<and> w_ops w = ops)"
proof -
  from semop_spec [OF assms] show ?thesis
  proof
    assume "\<exists>res. semop s sid nsops c = Ok res \<and> call_ok s sid (sem_base (sema s ! i)) ops (owned (kheap s)) res
      \<and> (\<forall>w s'. res = Wait w s' \<longrightarrow> w_sp w = i)"
    then obtain res where "semop s sid nsops c = Ok res" "call_ok s sid (sem_base (sema s ! i)) ops (owned (kheap s)) res"
      by blast
    then show ?thesis by (cases res) (auto simp: call_ok_def)
  qed simp
qed

definition demo_copy :: ucopy where
  "demo_copy =
     \<lparr>cin_ops = Inr [\<lparr>sem_num = 0, sem_op = -1, sem_flg = 0x1000\<rparr>, \<lparr>sem_num = 2, sem_op = 4, sem_flg = 0x1000\<rparr>],
      cin_vals = Inl 14, cin_ds = Inl 14, cout = 0\<rparr>"

abbreviation demo_ops :: "sembuf list" where
  "demo_ops \<equiv> [\<lparr>sem_num = 0, sem_op = -1, sem_flg = 0x1000\<rparr>, \<lparr>sem_num = 2, sem_op = 4, sem_flg = 0x1000\<rparr>]"

lemma demo_conv: "semconv demo_sem 10 = Ok (Some 0, demo_sem)"
  by (simp add: semconv_def demo_sem_def ipc_allocated_def IPC_ALLOC_def)

lemma demo_semop:
  "case semop demo_sem 10 2 demo_copy of Ok (Return s') \<Rightarrow> u_error (ua s') = 0 | _ \<Rightarrow> False"
  by code_simp

theorem semop_all_or_nothing_witness:
  "\<exists>s'. semop demo_sem 10 2 demo_copy = Ok (Return s') \<and> sem_inv s'
     \<and> all_done demo_sem 10 0 demo_ops s'"
proof -
  obtain s' where s': "semop demo_sem 10 2 demo_copy = Ok (Return s')" "u_error (ua s') = 0"
    using demo_semop by (auto split: outcome.splits sysres.splits)
  have "sem_base (sema demo_sem ! 0) = 0" by (simp add: demo_sem_def)
  then show ?thesis
    using semop_all_or_nothing [OF demo_sem_inv demo_conv, of demo_copy demo_ops 2] s'
    by (simp add: demo_copy_def shorts_def)
qed



end
