(* ===== verification/Itimer.thy ===== *)
theory Itimer
  imports Kernel_Prelude
begin

text \<open>
  Time values and interval timers (\<open>h/time.h\<close>, the arithmetic of \<open>sys/kern_time.c\<close> and
  \<open>hzto\<close> of \<open>sys/kern_clock.c\<close>).  \<open>usec_of\<close> reads a time value as a number of microseconds;
  the lemmas show that the routines compute with that number, that an interval timer which is
  decremented a tick at a time does not drift, and how far \<open>hzto\<close> is from the exact quotient.
\<close>

lemma int32_zero [simp]: "int32 0 = 0"
  by (simp add: int32_def)

lemma INT_MAX_ge_1 [simp]: "1 \<le> INT_MAX" "0 \<le> INT_MAX" "- 2147483648 \<le> INT_MAX"
  by (simp_all add: INT_MAX_def)

section \<open>Time values\<close>

record timeval =
  tv_sec :: int
  tv_usec :: int

record itimerval =
  it_interval :: timeval
  it_value :: timeval

definition timerisset :: "timeval \<Rightarrow> bool" where
  "timerisset t \<longleftrightarrow> tv_sec t \<noteq> 0 \<or> tv_usec t \<noteq> 0"

text \<open>\<open>timercmp(t, u, <)\<close> and \<open>timercmp(t, u, >)\<close>.\<close>

definition timercmp :: "(int \<Rightarrow> int \<Rightarrow> bool) \<Rightarrow> timeval \<Rightarrow> timeval \<Rightarrow> bool" where
  "timercmp cmp t u \<longleftrightarrow> cmp (tv_sec t) (tv_sec u) \<or>
     tv_sec t = tv_sec u \<and> cmp (tv_usec t) (tv_usec u)"

definition timerclear :: timeval where
  "timerclear = \<lparr>tv_sec = 0, tv_usec = 0\<rparr>"

definition timevalfix :: "timeval \<Rightarrow> timeval" where
  "timevalfix t1 =
     (let t = (if tv_usec t1 < 0
               then \<lparr>tv_sec = int32 (tv_sec t1 - 1), tv_usec = int32 (tv_usec t1 + 1000000)\<rparr> else t1) in
      if 1000000 \<le> tv_usec t
      then \<lparr>tv_sec = int32 (tv_sec t + 1), tv_usec = int32 (tv_usec t - 1000000)\<rparr> else t)"

definition timevaladd :: "timeval \<Rightarrow> timeval \<Rightarrow> timeval" where
  "timevaladd t1 t2 =
     timevalfix \<lparr>tv_sec = int32 (tv_sec t1 + tv_sec t2), tv_usec = int32 (tv_usec t1 + tv_usec t2)\<rparr>"

definition timevalsub :: "timeval \<Rightarrow> timeval \<Rightarrow> timeval" where
  "timevalsub t1 t2 =
     timevalfix \<lparr>tv_sec = int32 (tv_sec t1 - tv_sec t2), tv_usec = int32 (tv_usec t1 - tv_usec t2)\<rparr>"

text \<open>The macro \<open>BUMPTIME\<close>.\<close>

definition BUMPTIME :: "timeval \<Rightarrow> int \<Rightarrow> timeval" where
  "BUMPTIME tp usec =
     (let t = tp\<lparr>tv_usec := int32 (tv_usec tp + usec)\<rparr> in
      if 1000000 \<le> tv_usec t
      then t\<lparr>tv_usec := int32 (tv_usec t - 1000000), tv_sec := int32 (tv_sec t + 1)\<rparr> else t)"

text \<open>A proposed value for an interval timer: the error, and the value rounded up to a tick.\<close>

definition itimerfix :: "int \<Rightarrow> timeval \<Rightarrow> int \<times> timeval" where
  "itimerfix tick tv =
     (if tv_sec tv < 0 \<or> 100000000 < tv_sec tv \<or> tv_usec tv < 0 \<or> 1000000 \<le> tv_usec tv then (22, tv)
      else if tv_sec tv = 0 \<and> tv_usec tv \<noteq> 0 \<and> tv_usec tv < tick then (0, tv\<lparr>tv_usec := tick\<rparr>)
      else (0, tv))"

text \<open>
  The part of \<open>itimerdecr\<close> from the label \<open>expire\<close> on, and the whole routine, which returns 0
  when the timer has expired.
\<close>

definition itimer_expire :: "itimerval \<Rightarrow> int \<Rightarrow> itimerval \<times> int" where
  "itimer_expire itp usec =
     (if timerisset (it_interval itp) then
        let v = (it_interval itp)\<lparr>tv_usec := int32 (tv_usec (it_interval itp) - usec)\<rparr>;
            v' = (if tv_usec v < 0
                  then v\<lparr>tv_usec := int32 (tv_usec v + 1000000), tv_sec := int32 (tv_sec v - 1)\<rparr>
                  else v)
        in (itp\<lparr>it_value := v'\<rparr>, 0)
      else (itp\<lparr>it_value := (it_value itp)\<lparr>tv_usec := 0\<rparr>\<rparr>, 0))"

definition itimerdecr :: "itimerval \<Rightarrow> int \<Rightarrow> itimerval \<times> int" where
  "itimerdecr itp usec =
     (let v = it_value itp in
      if tv_usec v < usec \<and> tv_sec v = 0
      then itimer_expire itp (int32 (usec - tv_usec v))
      else
        let v1 = (if tv_usec v < usec
                  then \<lparr>tv_sec = int32 (tv_sec v - 1), tv_usec = int32 (tv_usec v + 1000000)\<rparr> else v);
            itp' = itp\<lparr>it_value := v1\<lparr>tv_usec := int32 (tv_usec v1 - usec)\<rparr>\<rparr>
        in if timerisset (it_value itp') then (itp', 1) else itimer_expire itp' 0)"

text \<open>
  \<open>hzto\<close>: the number of ticks from \<open>time\<close> to \<open>tv\<close>.  Division truncates towards zero; a tick of
  less than a millisecond divides by zero, which traps.
\<close>

definition hzto :: "int \<Rightarrow> int \<Rightarrow> timeval \<Rightarrow> timeval \<Rightarrow> int outcome" where
  "hzto tick hz time tv =
     (let sec = int32 (tv_sec tv - tv_sec time) in
      if sec \<le> 2147483647 div 1000 - 1000 then
        (if tick sdiv 1000 = 0 then Fault
         else Ok (int32 (int32 (int32 (sec * 1000) +
                int32 (tv_usec tv - tv_usec time) sdiv 1000) sdiv (tick sdiv 1000))))
      else if hz = 0 then Fault
      else if sec \<le> 2147483647 sdiv hz then Ok (int32 (sec * hz))
      else Ok 2147483647)"

section \<open>Microseconds\<close>

definition usec_of :: "timeval \<Rightarrow> int" where
  "usec_of t = 1000000 * tv_sec t + tv_usec t"

text \<open>A time value with its microseconds in range, in the range that timers accept.\<close>

definition tv_ok :: "timeval \<Rightarrow> bool" where
  "tv_ok t \<longleftrightarrow> 0 \<le> tv_sec t \<and> tv_sec t < 2147483647 \<and> 0 \<le> tv_usec t \<and> tv_usec t < 1000000"

named_theorems tv_simps "time values as numbers"

lemma tv_split:
  "tv_ok t \<Longrightarrow> tv_sec t = usec_of t div 1000000" "tv_ok t \<Longrightarrow> tv_usec t = usec_of t mod 1000000"
  by (simp_all add: tv_ok_def usec_of_def)

lemma usec_of_eq: "tv_ok t \<Longrightarrow> tv_ok u \<Longrightarrow> usec_of t = usec_of u \<longleftrightarrow> t = u"
  by (metis (full_types) timeval.equality tv_split old.unit.exhaust)

lemma usec_of_nonneg [tv_simps]: "tv_ok t \<Longrightarrow> 0 \<le> usec_of t"
  by (simp add: tv_ok_def usec_of_def)

lemma timerisset_usec [tv_simps]: "tv_ok t \<Longrightarrow> timerisset t \<longleftrightarrow> 0 < usec_of t"
  by (auto simp: timerisset_def usec_of_def tv_ok_def)

lemma timercmp_less [tv_simps]: "tv_ok t \<Longrightarrow> tv_ok u \<Longrightarrow> timercmp (<) t u \<longleftrightarrow> usec_of t < usec_of u"
  by (auto simp: timercmp_def usec_of_def tv_ok_def)

lemma timercmp_greater [tv_simps]: "tv_ok t \<Longrightarrow> tv_ok u \<Longrightarrow> timercmp (>) t u \<longleftrightarrow> usec_of u < usec_of t"
  by (auto simp: timercmp_def usec_of_def tv_ok_def)

lemma timerclear_usec [simp]: "usec_of timerclear = 0" "tv_ok timerclear" "\<not> timerisset timerclear"
  by (simp_all add: timerclear_def usec_of_def tv_ok_def timerisset_def)

lemma timevaladd_usec [tv_simps]:
  assumes "tv_ok t" "tv_ok u" "tv_sec t + tv_sec u < 2147483646"
  shows "usec_of (timevaladd t u) = usec_of t + usec_of u" "tv_ok (timevaladd t u)"
  using assms
  by (simp_all add: timevaladd_def timevalfix_def tv_ok_def usec_of_def Let_def INT_MAX_def)

lemma timevalsub_usec [tv_simps]:
  assumes "tv_ok t" "tv_ok u" "usec_of u \<le> usec_of t"
  shows "usec_of (timevalsub t u) = usec_of t - usec_of u" "tv_ok (timevalsub t u)"
  using assms
  by (simp_all add: timevalsub_def timevalfix_def tv_ok_def usec_of_def Let_def INT_MAX_def)

lemma BUMPTIME_usec [tv_simps]:
  assumes "tv_ok t" "0 \<le> d" "d \<le> 1000000" "tv_sec t < 2147483646"
  shows "usec_of (BUMPTIME t d) = usec_of t + d" "tv_ok (BUMPTIME t d)"
  using assms by (simp_all add: BUMPTIME_def tv_ok_def usec_of_def Let_def INT_MAX_def)

section \<open>Interval timers\<close>

text \<open>A timer as \<open>setitimer\<close> leaves it, and as it stays: an interval of 0 or of a tick at least.\<close>

definition itimer_ok :: "int \<Rightarrow> itimerval \<Rightarrow> bool" where
  "itimer_ok tick it \<longleftrightarrow> tv_ok (it_value it) \<and> tv_ok (it_interval it) \<and>
     (usec_of (it_interval it) = 0 \<or> tick \<le> usec_of (it_interval it))"

lemma itimerfix_ok:
  assumes "itimerfix tick tv = (0, tv')" and "0 < tick" and "tick < 1000000"
  shows "tv_ok tv' \<and> (usec_of tv' = 0 \<or> tick \<le> usec_of tv') \<and> tv_sec tv' \<le> 100000000 \<and>
    usec_of tv \<le> usec_of tv' \<and> usec_of tv' \<le> max tick (usec_of tv)"
  using assms by (auto simp: itimerfix_def tv_ok_def usec_of_def split: if_splits)

lemma itimerfix_error: "fst (itimerfix tick tv) = 0 \<or> fst (itimerfix tick tv) = 22"
  by (simp add: itimerfix_def)

lemma itimer_expire_usec:
  assumes "tv_ok (it_interval it)" "0 \<le> d" "d \<le> usec_of (it_interval it)" "d \<le> 1000000"
    and "usec_of (it_interval it) \<noteq> 0"
  shows "snd (itimer_expire it d) = 0"
    and "usec_of (it_value (fst (itimer_expire it d))) = usec_of (it_interval it) - d"
    and "tv_ok (it_value (fst (itimer_expire it d)))"
    and "it_interval (fst (itimer_expire it d)) = it_interval it"
  using assms
  by (auto simp: itimer_expire_def tv_ok_def usec_of_def Let_def timerisset_def INT_MAX_def)

lemma itimerdecr_runs:
  assumes "tv_ok (it_value it)" "0 < d" "d < 1000000" "d < usec_of (it_value it)"
  shows "snd (itimerdecr it d) = 1"
    and "usec_of (it_value (fst (itimerdecr it d))) = usec_of (it_value it) - d"
    and "tv_ok (it_value (fst (itimerdecr it d)))"
    and "it_interval (fst (itimerdecr it d)) = it_interval it"
  using assms
  by (auto simp: itimerdecr_def tv_ok_def usec_of_def Let_def timerisset_def INT_MAX_def)

lemma itimerdecr_expires:
  assumes "tv_ok (it_value it)" "0 < d" "d < 1000000" "usec_of (it_value it) \<le> d"
  shows "itimerdecr it d =
    itimer_expire (if usec_of (it_value it) = d then it\<lparr>it_value := timerclear\<rparr> else it) (d - usec_of (it_value it))"
proof -
  have "1000000 * tv_sec (it_value it) < 1000000" using assms by (simp add: tv_ok_def usec_of_def)
  then have z: "tv_sec (it_value it) = 0" using assms(1) by (simp add: tv_ok_def)
  then have r: "0 \<le> tv_usec (it_value it)" "tv_usec (it_value it) \<le> d"
    "usec_of (it_value it) = tv_usec (it_value it)"
    using assms by (auto simp: tv_ok_def usec_of_def)
  show ?thesis
  proof (cases "tv_usec (it_value it) = d")
    case True
    have "it_value it = \<lparr>tv_sec = 0, tv_usec = d\<rparr>" using z True by simp
    then show ?thesis using assms(2) by (simp add: itimerdecr_def timerisset_def usec_of_def timerclear_def)
  next
    case False
    then show ?thesis using z r assms(3)
      by (simp add: itimerdecr_def Let_def width_simps INT_MAX_def)
  qed
qed

text \<open>A timer that is decremented \<open>k\<close> times, and the number of times it expired.\<close>

fun itimer_ticks :: "int \<Rightarrow> nat \<Rightarrow> itimerval \<Rightarrow> itimerval \<times> nat" where
  "itimer_ticks usec 0 itp = (itp, 0)"
| "itimer_ticks usec (Suc k) itp =
     (let (itp', r) = itimerdecr itp usec; (itp'', n) = itimer_ticks usec k itp'
      in (itp'', (if r = 0 then Suc n else n)))"

lemma itimerdecr_periodic:
  assumes "itimer_ok d it" "0 < d" "d < 1000000" "0 < usec_of (it_value it)" "usec_of (it_interval it) \<noteq> 0"
  defines "it' \<equiv> fst (itimerdecr it d)" and "e \<equiv> (if snd (itimerdecr it d) = 0 then 1 else 0)"
  shows "itimer_ok d it'" and "it_interval it' = it_interval it" and "0 < usec_of (it_value it')"
    and "usec_of (it_value it') = usec_of (it_value it) - d + e * usec_of (it_interval it)"
    and "e = 1 \<Longrightarrow> usec_of (it_value it') \<le> usec_of (it_interval it)"
proof -
  have ok: "tv_ok (it_value it)" "tv_ok (it_interval it)" and I: "d \<le> usec_of (it_interval it)"
    using assms(1,5) by (auto simp: itimer_ok_def)
  have all: "itimer_ok d it' \<and> it_interval it' = it_interval it \<and> 0 < usec_of (it_value it') \<and>
      usec_of (it_value it') = usec_of (it_value it) - d + e * usec_of (it_interval it) \<and>
      (e = 1 \<longrightarrow> usec_of (it_value it') \<le> usec_of (it_interval it))"
  proof (cases "d < usec_of (it_value it)")
    case True
    note r = itimerdecr_runs[OF ok(1) assms(2,3) True]
    then show ?thesis using I ok True unfolding it'_def e_def itimer_ok_def by auto
  next
    case False
    let ?it = "if usec_of (it_value it) = d then it\<lparr>it_value := timerclear\<rparr> else it"
    have eq: "itimerdecr it d = itimer_expire ?it (d - usec_of (it_value it))"
      using False by (intro itimerdecr_expires ok assms) simp
    have i: "it_interval ?it = it_interval it" by simp
    have "tv_ok (it_interval ?it)" "0 \<le> d - usec_of (it_value it)"
      "d - usec_of (it_value it) \<le> usec_of (it_interval ?it)" "d - usec_of (it_value it) \<le> 1000000"
      "usec_of (it_interval ?it) \<noteq> 0"
      using False ok I assms by auto
    note r = itimer_expire_usec[OF this]
    have "e = 1" unfolding e_def eq using r(1) by simp
    moreover have "it_interval it' = it_interval it" unfolding it'_def eq using r(4) i by simp
    moreover have "tv_ok (it_value it')" unfolding it'_def eq by (rule r(3))
    moreover have "usec_of (it_value it') = usec_of (it_interval it) - (d - usec_of (it_value it))"
      unfolding it'_def eq using r(2) i by simp
    ultimately show ?thesis using False I ok assms(4) unfolding itimer_ok_def by simp
  qed
  show "itimer_ok d it'" "it_interval it' = it_interval it" "0 < usec_of (it_value it')"
    "usec_of (it_value it') = usec_of (it_value it) - d + e * usec_of (it_interval it)"
    using all by blast+
  show "e = 1 \<Longrightarrow> usec_of (it_value it') \<le> usec_of (it_interval it)" using all by blast
qed

lemma itimer_ticks_sum:
  assumes "itimer_ok d it" "0 < d" "d < 1000000" "0 < usec_of (it_value it)" "usec_of (it_interval it) \<noteq> 0"
    and "itimer_ticks d k it = (it', n)"
  shows "0 < usec_of (it_value it') \<and> (0 < n \<longrightarrow> usec_of (it_value it') \<le> usec_of (it_interval it)) \<and>
    usec_of (it_value it') = usec_of (it_value it) - int k * d + int n * usec_of (it_interval it)"
  using assms
proof (induction k arbitrary: it n)
  case (Suc k)
  obtain it1 r where d1: "itimerdecr it d = (it1, r)" by fastforce
  obtain n1 where t: "itimer_ticks d k it1 = (it', n1)" and n: "n = (if r = 0 then Suc n1 else n1)"
    using Suc.prems(6) d1 by (auto split: prod.splits)
  note p = itimerdecr_periodic[OF Suc.prems(1-5), unfolded d1 fst_conv snd_conv]
  have IH: "0 < usec_of (it_value it') \<and> (0 < n1 \<longrightarrow> usec_of (it_value it') \<le> usec_of (it_interval it1)) \<and>
    usec_of (it_value it') = usec_of (it_value it1) - int k * d + int n1 * usec_of (it_interval it1)"
    by (rule Suc.IH[OF p(1) Suc.prems(2,3) p(3) _ t]) (use p(2) Suc.prems(5) in simp)
  define u where "u = int k * d"
  have u: "0 \<le> u" "int (Suc k) * d = u + d" using Suc.prems(2) by (simp_all add: u_def algebra_simps)
  note IH' = IH[unfolded u_def[symmetric]]
  show ?case unfolding u(2) using IH' p(2,4,5) n Suc.prems(2) u(1)
    by (auto simp: distrib_right split: if_splits)
qed simp

lemma div_between: "(m - 1) * i \<le> x \<Longrightarrow> x < m * i \<Longrightarrow> 0 < i \<Longrightarrow> x div i = m - (1::int)"
  by (rule int_div_pos_eq[of x i "m - 1" "x - (m - 1) * i"]) (simp_all add: algebra_simps)

text \<open>
  C18: an interval timer that is decremented once per tick does not drift.  A periodic timer of
  value \<open>v\<close> and interval \<open>i\<close>, decremented \<open>k\<close> times by \<open>d\<close> microseconds, has expired exactly as
  often as the multiples \<open>v, v + i, v + 2i, ...\<close> of its period have passed within \<open>k * d\<close>
  microseconds, and holds the exact distance to the next one.
\<close>
theorem itimer_no_drift:
  assumes "itimer_ok d it" and "0 < d" and "d < 1000000"
    and "0 < usec_of (it_value it)" and "usec_of (it_interval it) \<noteq> 0"
    and "itimer_ticks d k it = (it', n)"
  shows "int n = (if int k * d < usec_of (it_value it) then 0
                  else 1 + (int k * d - usec_of (it_value it)) div usec_of (it_interval it)) \<and>
    usec_of (it_value it') =
      usec_of (it_value it) + int n * usec_of (it_interval it) - int k * d"
proof -
  let ?v = "usec_of (it_value it)" and ?i = "usec_of (it_interval it)"
  have s: "0 < usec_of (it_value it')" "0 < n \<longrightarrow> usec_of (it_value it') \<le> ?i"
    "usec_of (it_value it') = ?v - int k * d + int n * ?i"
    using itimer_ticks_sum[OF assms] by blast+
  have i: "0 < ?i" using assms(1,2,5) by (simp add: itimer_ok_def)
  have "int n = (if int k * d < ?v then 0 else 1 + (int k * d - ?v) div ?i)"
  proof (cases "n = 0")
    case True
    then show ?thesis using s by simp
  next
    case False
    have "(int n - 1) * ?i \<le> int k * d - ?v" using False s by (simp add: algebra_simps)
    moreover have "int k * d - ?v < int n * ?i" using s by simp
    ultimately have "(int k * d - ?v) div ?i = int n - 1" by (rule div_between[OF _ _ i])
    moreover have "0 \<le> (int n - 1) * ?i" using False i by simp
    then have "?v \<le> int k * d" using \<open>(int n - 1) * ?i \<le> int k * d - ?v\<close> by linarith
    ultimately show ?thesis by simp
  qed
  then show ?thesis using s(3) by simp
qed

lemma itimer_no_drift_witness:
  "case itimer_ticks 20000 7 \<lparr>it_interval = \<lparr>tv_sec = 0, tv_usec = 45000\<rparr>,
        it_value = \<lparr>tv_sec = 0, tv_usec = 30000\<rparr>\<rparr> of
     (it', n) \<Rightarrow> int n = 3 \<and> usec_of (it_value it') = 25000"
proof -
  let ?it = "\<lparr>it_interval = \<lparr>tv_sec = 0, tv_usec = 45000\<rparr>, it_value = \<lparr>tv_sec = 0, tv_usec = 30000\<rparr>\<rparr>"
  obtain it' n where r: "itimer_ticks 20000 7 ?it = (it', n)" by fastforce
  have h: "itimer_ok 20000 ?it" "0 < usec_of (it_value ?it)" "usec_of (it_interval ?it) \<noteq> 0"
    by (simp_all add: itimer_ok_def tv_ok_def usec_of_def)
  have "int n = 3 \<and> usec_of (it_value it') = 30000 + int n * 45000 - 140000"
    using itimer_no_drift[OF h(1) _ _ h(2,3) r] by (simp add: usec_of_def)
  then show ?thesis using r by simp
qed

section \<open>Ticks until a time\<close>

lemma le_div_times: "0 < b \<Longrightarrow> a \<le> n div b \<longleftrightarrow> a * b \<le> (n::int)"
proof
  assume b: "0 < b"
  show "a * b \<le> n" if "a \<le> n div b"
  proof -
    have "a * b \<le> n div b * b" using that b by (simp add: mult_right_mono)
    also have "n div b * b = n - n mod b" by (simp add: minus_mod_eq_div_mult)
    finally show ?thesis using pos_mod_sign[OF b, of n] by linarith
  qed
  show "a \<le> n div b" if "a * b \<le> n" using zdiv_mono1[OF that b] b by simp
qed

lemma sdiv_bounds: "0 < b \<Longrightarrow> b * (a sdiv b) < a + b \<and> a - b < b * (a sdiv (b::int))"
proof (cases "0 \<le> a")
  case True
  assume "0 < b"
  then show ?thesis using True
    by (simp add: signed_divide_int_def sgn_if) (smt (verit) mult_div_mod_eq pos_mod_bound pos_mod_sign)
next
  case False
  assume b: "0 < b"
  then have "a sdiv b = - ((- a) div b)" using False by (simp add: signed_divide_int_def sgn_if)
  then have "b * (a sdiv b) = - (b * ((- a) div b))" by simp
  moreover have "b * ((- a) div b) = - a - (- a) mod b" by (simp add: minus_mod_eq_mult_div)
  ultimately show ?thesis using pos_mod_bound[OF b, of "- a"] pos_mod_sign[OF b, of "- a"] b by linarith
qed

text \<open>
  C31: \<open>hzto\<close> never overflows for a time that is not in the past.  Within 2146483 seconds it is
  less than a tick and a millisecond away from the exact quotient; beyond that it counts whole
  seconds, and beyond what 32 bits can hold it is the largest number.
\<close>
theorem hzto_bounds:
  assumes "tv_ok now" and "tv_ok tv" and "usec_of now \<le> usec_of tv"
    and "0 < m" and "tick = 1000 * m" and "m \<le> 1000" and "0 < hz"
  shows "\<exists>t. hzto tick hz now tv = Ok t \<and> 0 \<le> t \<and> t \<le> INT_MAX \<and>
    (if tv_sec tv - tv_sec now \<le> 2146483
     then tick * t < usec_of tv - usec_of now + 1000 \<and>
       usec_of tv - usec_of now < tick * (t + 1) + 1000
     else t = min INT_MAX ((tv_sec tv - tv_sec now) * hz))"
proof -
  let ?s = "tv_sec tv - tv_sec now" and ?u = "tv_usec tv - tv_usec now"
  have r: "0 \<le> tv_sec tv" "tv_sec tv < 2147483647" "0 \<le> tv_sec now" "tv_sec now < 2147483647"
    "- 1000000 < ?u" "?u < 1000000"
    using assms(1,2) by (auto simp: tv_ok_def)
  have d: "usec_of tv - usec_of now = 1000000 * ?s + ?u" "0 \<le> 1000000 * ?s + ?u"
    using assms(3) by (simp_all add: usec_of_def algebra_simps)
  have s0: "0 \<le> ?s" using d(2) r(6) by simp
  have si: "int32 ?s = ?s" and ui: "int32 ?u = ?u" using r s0 by (simp_all add: INT_MAX_def)
  have tk: "tick sdiv 1000 = m" using assms(4,5) by simp
  show ?thesis
  proof (cases "?s \<le> 2146483")
    case True
    define q where "q = ?u sdiv 1000"
    have q: "1000 * q < ?u + 1000" "?u - 1000 < 1000 * q"
      using sdiv_bounds[of 1000 ?u] by (simp_all add: q_def)
    define ms where "ms = ?s * 1000 + q"
    have ms: "- 1 < ms" "1000 * ms < 1000000 * ?s + ?u + 1000" "1000000 * ?s + ?u - 1000 < 1000 * ms"
      "ms \<le> INT_MAX" "ms \<le> 2147484000"
      using q d(2) True r by (simp_all add: ms_def INT_MAX_def)
    have e: "int32 (int32 (?s * 1000) + q) = ms"
      using True s0 ms q r by (simp add: ms_def INT_MAX_def)
    have t: "ms sdiv m = ms div m" using ms(1) assms(4) by simp
    have t0: "0 \<le> ms div m" using ms(1) assms(4) by (simp add: pos_imp_zdiv_nonneg_iff)
    have t1: "ms div m \<le> ms" using ms(1) assms(4) by (smt (verit) div_by_1 zdiv_mono2)
    have mm: "m * (ms div m) \<le> ms" "ms < m * (ms div m + 1)"
    proof -
      have "m * (ms div m) = ms - ms mod m" by (simp add: minus_mod_eq_mult_div)
      then show "m * (ms div m) \<le> ms" "ms < m * (ms div m + 1)"
        using pos_mod_bound[OF assms(4), of ms] pos_mod_sign[OF assms(4), of ms]
        unfolding distrib_left by linarith+
    qed
    have "hzto tick hz now tv = Ok (ms div m)"
      using True si ui tk assms(4) e t t0 t1 ms(4) by (simp add: hzto_def Let_def q_def)
    moreover have "tick * (ms div m) \<le> 1000 * ms" "1000 * ms + 1000 \<le> tick * (ms div m + 1)"
      using mm assms(5) by (simp_all add: algebra_simps)
    ultimately show ?thesis using True t0 t1 ms d by simp
  next
    case False
    have b: "0 \<le> ?s * hz" using s0 assms(7) by simp
    have "?s \<le> 2147483647 sdiv hz \<longleftrightarrow> ?s * hz \<le> INT_MAX"
      using assms(7) le_div_times[of hz ?s 2147483647] by (simp add: INT_MAX_def)
    note fits = this
    show ?thesis
    proof (cases "?s * hz \<le> INT_MAX")
      case True
      have "int32 (?s * hz) = ?s * hz" using b True by (intro int32_id) linarith+
      then have "hzto tick hz now tv = Ok (?s * hz)" using False si fits True assms(7)
        by (simp add: hzto_def Let_def)
      moreover have "min INT_MAX (?s * hz) = ?s * hz" using True by (rule min_absorb2)
      ultimately show ?thesis using False b True by (auto simp only: if_False)
    next
      case big: False
      then have "hzto tick hz now tv = Ok INT_MAX" using False si fits assms(7)
        by (simp add: hzto_def Let_def INT_MAX_def)
      then show ?thesis using False big by (simp add: min_def)
    qed
  qed
qed

lemma hzto_bounds_witness:
  "\<exists>t. hzto 20000 50 \<lparr>tv_sec = 100, tv_usec = 999999\<rparr> \<lparr>tv_sec = 103, tv_usec = 5\<rparr> = Ok t \<and> 99 \<le> t \<and> t \<le> 100"
  using hzto_bounds[of "\<lparr>tv_sec = 100, tv_usec = 999999\<rparr>" "\<lparr>tv_sec = 103, tv_usec = 5\<rparr>" 20 20000 50]
  by (auto simp: tv_ok_def usec_of_def)

end
