(* ===== verification/Callout.thy ===== *)
theory Callout
  imports Itimer "HOL-Library.Multiset" "HOL-Library.Sublist"
begin

text \<open>
  The callout table (\<open>h/callout.h\<close>, \<open>sys/kern_clock.c\<close>): routines that ask to be called after a
  number of clock ticks.  The pending calls form a list in which the call due first comes first
  and every entry holds its distance from the one before it; overdue calls stay in front, with
  the number of ticks they are late as a negative time.

  \<open>dues\<close> reads the list as the absolute times of its calls.  The lemmas show that under this
  reading the four operations are what their names say: \<open>timeout\<close> inserts into a sorted list,
  \<open>untimeout\<close> removes one entry and moves no other, a clock tick brings every call one tick
  closer, and \<open>softclock\<close> makes the calls that are due, in order, and returns.
\<close>

section \<open>State\<close>

text \<open>
  The routines that are called: \<open>realitexpire\<close> of \<open>sys/kern_time.c\<close>, \<open>roundrobin\<close> and
  \<open>schedcpu\<close> of \<open>sys/kern_synch.c\<close>, and those of the drivers and protocols, by number.
\<close>

datatype kfun = Realitexpire | Roundrobin | Schedcpu | Driver nat

record callout =
  c_time :: int
  c_arg :: int
  c_func :: kfun

text \<open>The list that starts at \<open>calltodo.c_next\<close> and the list that starts at \<open>callfree\<close>.\<close>

record callstate =
  calltodo :: "callout list"
  callfree :: "callout list"

section \<open>Operations\<close>

text \<open>The initialization of \<open>startup\<close>: all entries of the table are free.\<close>

definition init_callouts :: "nat \<Rightarrow> callstate" where
  "init_callouts ncallout =
     \<lparr>calltodo = [], callfree = replicate ncallout \<lparr>c_time = 0, c_arg = 0, c_func = Driver 0\<rparr>\<rparr>"

text \<open>The loop of \<open>timeout\<close> that finds the place of the new entry, and the insertion.\<close>

fun co_insert :: "callout \<Rightarrow> int \<Rightarrow> callout list \<Rightarrow> callout list" where
  "co_insert pnew t [] = [pnew\<lparr>c_time := t\<rparr>]"
| "co_insert pnew t (p2 # ps) =
     (if c_time p2 < t
      then p2 # co_insert pnew (if 0 < c_time p2 then int32 (t - c_time p2) else t) ps
      else pnew\<lparr>c_time := t\<rparr> # p2\<lparr>c_time := int32 (c_time p2 - t)\<rparr> # ps)"

definition timeout :: "kfun \<Rightarrow> int \<Rightarrow> int \<Rightarrow> 'a callstate_scheme \<Rightarrow> 'a callstate_scheme outcome" where
  "timeout f arg t s =
     (let t = (if t \<le> 0 then 1 else t) in
      case callfree s of
        [] \<Rightarrow> Panic ''timeout table overflow''
      | pnew # free \<Rightarrow>
          Ok (s\<lparr>callfree := free,
                calltodo := co_insert (pnew\<lparr>c_arg := arg, c_func := f\<rparr>) t (calltodo s)\<rparr>))"

text \<open>The loop of \<open>untimeout\<close>: the list without the entry, and the entry if there is one.\<close>

definition co_pass_on :: "callout \<Rightarrow> callout list \<Rightarrow> callout list" where
  "co_pass_on p2 ps = (case ps of
       [] \<Rightarrow> []
     | p3 # r \<Rightarrow> (if 0 < c_time p2 then p3\<lparr>c_time := int32 (c_time p3 + c_time p2)\<rparr> # r else ps))"

fun co_remove :: "kfun \<Rightarrow> int \<Rightarrow> callout list \<Rightarrow> callout list \<times> callout option" where
  "co_remove f arg [] = ([], None)"
| "co_remove f arg (p2 # ps) =
     (if c_func p2 = f \<and> c_arg p2 = arg then (co_pass_on p2 ps, Some p2)
      else (let (ps', r) = co_remove f arg ps in (p2 # ps', r)))"

definition untimeout :: "kfun \<Rightarrow> int \<Rightarrow> 'a callstate_scheme \<Rightarrow> 'a callstate_scheme" where
  "untimeout f arg s = (case co_remove f arg (calltodo s) of
       (l, None) \<Rightarrow> s
     | (l, Some p2) \<Rightarrow> s\<lparr>calltodo := l, callfree := p2 # callfree s\<rparr>)"

text \<open>The loop at the start of \<open>hardclock\<close>: the list after a tick, and \<open>needsoft\<close>.\<close>

fun co_tick :: "callout list \<Rightarrow> callout list \<times> bool" where
  "co_tick [] = ([], False)"
| "co_tick (p1 # ps) =
     (let t = int32 (c_time p1 - 1); p1' = p1\<lparr>c_time := t\<rparr> in
      if 0 < t then (p1' # ps, False)
      else if t = 0 then (p1' # ps, True)
      else (p1' # fst (co_tick ps), True))"

text \<open>
  The loop of \<open>softclock\<close>.  \<open>run\<close> is the call through the function pointer; \<open>None\<close> stands for
  not having returned within the fuel.  The last component lists the calls made, with the
  lateness each was given.
\<close>

type_synonym 'a handler = "kfun \<Rightarrow> int \<Rightarrow> int \<Rightarrow> 'a \<Rightarrow> 'a outcome option"

fun rbind :: "'a outcome option \<Rightarrow> ('a \<Rightarrow> 'b outcome option) \<Rightarrow> 'b outcome option" where
  "rbind None f = None"
| "rbind (Some (Ok x)) f = f x"
| "rbind (Some (Panic m)) f = Some (Panic m)"
| "rbind (Some Fault) f = Some Fault"
| "rbind (Some Sleep) f = Some Sleep"

lemma rbind_Ok [simp]: "rbind m f = Some (Ok y) \<longleftrightarrow> (\<exists>x. m = Some (Ok x) \<and> f x = Some (Ok y))"
  by (induction m f rule: rbind.induct) auto

lemma rbind_None: "rbind m f = None \<longleftrightarrow> m = None \<or> (\<exists>x. m = Some (Ok x) \<and> f x = None)"
  by (induction m f rule: rbind.induct) auto

lemma rbind_cong [fundef_cong]:
  assumes "m = m'" and "\<And>x. m' = Some (Ok x) \<Longrightarrow> f x = g x"
  shows "rbind m f = rbind m' g"
  using assms by (induction m f rule: rbind.induct) auto

fun co_softclock :: "nat \<Rightarrow> 'a callstate_scheme handler \<Rightarrow> 'a callstate_scheme \<Rightarrow>
    ('a callstate_scheme \<times> (int \<times> kfun \<times> int) list) outcome option" where
  "co_softclock 0 run s = None"
| "co_softclock (Suc n) run s =
     (case calltodo s of
        [] \<Rightarrow> Some (Ok (s, []))
      | p1 # ps \<Rightarrow>
          if 0 < c_time p1 then Some (Ok (s, []))
          else rbind (run (c_func p1) (c_arg p1) (c_time p1)
                        (s\<lparr>calltodo := ps, callfree := p1 # callfree s\<rparr>))
                 (\<lambda>s'. rbind (co_softclock n run s')
                   (\<lambda>(s'', calls). Some (Ok (s'', (c_time p1, c_func p1, c_arg p1) # calls)))))"

section \<open>Absolute times\<close>

text \<open>
  \<open>dues b l\<close> lists when the calls of \<open>l\<close> are due, if the entry before \<open>l\<close> is due in \<open>b\<close> ticks;
  for the whole list \<open>b\<close> is 0.
\<close>

fun dues :: "int \<Rightarrow> callout list \<Rightarrow> (int \<times> kfun \<times> int) list" where
  "dues b [] = []"
| "dues b (p # ps) =
     (b + c_time p, c_func p, c_arg p) # dues (max 0 (b + c_time p)) ps"

definition co_wf :: "int \<Rightarrow> callout list \<Rightarrow> bool" where
  "co_wf b l \<longleftrightarrow> 0 \<le> b \<and> sorted (map fst (dues b l)) \<and>
     (\<forall>x\<in>set (dues b l). (0 < b \<longrightarrow> b \<le> fst x) \<and> - 2147483648 \<le> fst x \<and> fst x \<le> INT_MAX)"

definition co_inv :: "'a callstate_scheme \<Rightarrow> bool" where
  "co_inv s \<longleftrightarrow> co_wf 0 (calltodo s)"

abbreviation pending :: "'a callstate_scheme \<Rightarrow> (int \<times> kfun \<times> int) list" where
  "pending s \<equiv> dues 0 (calltodo s)"

abbreviation due_now :: "'a callstate_scheme \<Rightarrow> (int \<times> kfun \<times> int) list" where
  "due_now s \<equiv> filter (\<lambda>x. fst x \<le> 0) (pending s)"

text \<open>A sorted list of calls: insertion before the first call that is not due earlier.\<close>

definition due_insert :: "int \<Rightarrow> kfun \<Rightarrow> int \<Rightarrow> (int \<times> kfun \<times> int) list \<Rightarrow> (int \<times> kfun \<times> int) list" where
  "due_insert t f arg ds =
     takeWhile (\<lambda>x. fst x < t) ds @ (t, f, arg) # dropWhile (\<lambda>x. fst x < t) ds"

fun due_remove :: "kfun \<Rightarrow> int \<Rightarrow> (int \<times> kfun \<times> int) list \<Rightarrow> (int \<times> kfun \<times> int) list" where
  "due_remove f arg [] = []"
| "due_remove f arg (x # xs) = (if snd x = (f, arg) then xs else x # due_remove f arg xs)"

lemma co_wf_Nil [simp]: "co_wf b [] \<longleftrightarrow> 0 \<le> b"
  by (simp add: co_wf_def)

lemma co_wf_Cons:
  "co_wf b (p # ps) \<longleftrightarrow> 0 \<le> b \<and> (0 < b \<longrightarrow> 0 \<le> c_time p) \<and> - 2147483648 \<le> b + c_time p \<and>
     b + c_time p \<le> INT_MAX \<and> (\<forall>x\<in>set (dues (max 0 (b + c_time p)) ps). b + c_time p \<le> fst x) \<and>
     co_wf (max 0 (b + c_time p)) ps"
  by (auto simp: co_wf_def)

lemma co_wf_tail: "co_wf b (p # ps) \<Longrightarrow> co_wf (max 0 (b + c_time p)) ps"
  by (simp add: co_wf_Cons)

lemma co_wf_shift:
  assumes "co_wf b l" "0 \<le> b'" "b' \<le> b \<or> (\<forall>x\<in>set (dues b l). b' \<le> fst x)"
    and "dues b' l' = dues b l"
  shows "co_wf b' l'"
  using assms by (auto simp: co_wf_def)

text \<open>The entry after the head, when the head moves by \<open>k\<close> and the next one takes it up.\<close>

lemma dues_move: "dues b (p\<lparr>c_time := x\<rparr> # ps) =
    (b + x, c_func p, c_arg p) # dues (max 0 (b + x)) ps"
  by simp

lemma dues_insert:
  assumes "co_wf b l" and "0 < t" and "b + t \<le> INT_MAX"
  shows "dues b (co_insert pnew t l) = due_insert (b + t) (c_func pnew) (c_arg pnew) (dues b l)"
  using assms
proof (induction l arbitrary: b t)
  case Nil
  then show ?case by (simp add: due_insert_def)
next
  case (Cons p ps)
  let ?c = "c_time p"
  have b: "0 \<le> b" "0 < b \<longrightarrow> 0 \<le> ?c" and w: "co_wf (max 0 (b + ?c)) ps"
    using Cons.prems(1) by (auto simp: co_wf_Cons)
  show ?case
  proof (cases "?c < t")
    case lt: True
    show ?thesis
    proof (cases "0 < ?c")
      case True
      then have i: "int32 (t - ?c) = t - ?c" using lt Cons.prems b by simp
      have "dues (b + ?c) (co_insert pnew (t - ?c) ps) =
          due_insert (b + ?c + (t - ?c)) (c_func pnew) (c_arg pnew) (dues (b + ?c) ps)"
        using Cons.IH[of "b + ?c" "t - ?c"] w True b lt Cons.prems by simp
      then show ?thesis using lt True i b by (simp add: due_insert_def)
    next
      case False
      then have m: "max 0 (b + ?c) = b" using b by auto
      then have "dues b (co_insert pnew t ps) = due_insert (b + t) (c_func pnew) (c_arg pnew) (dues b ps)"
        using Cons.IH[of b t] w Cons.prems by simp
      then show ?thesis using lt False m by (simp add: due_insert_def)
    qed
  next
    case False
    then have "int32 (?c - t) = ?c - t" using Cons.prems b by (simp add: co_wf_Cons)
    then show ?thesis using False b Cons.prems by (simp add: due_insert_def max_def)
  qed
qed

lemma dues_remove:
  assumes "co_wf b l"
  shows "dues b (fst (co_remove f arg l)) = due_remove f arg (dues b l)"
  using assms
proof (induction l arbitrary: b)
  case Nil
  then show ?case by simp
next
  case (Cons p ps)
  let ?c = "c_time p"
  have b: "0 \<le> b" "0 < b \<longrightarrow> 0 \<le> ?c" and w: "co_wf (max 0 (b + ?c)) ps"
    using Cons.prems by (auto simp: co_wf_Cons)
  show ?case
  proof (cases "c_func p = f \<and> c_arg p = arg")
    case True
    show ?thesis
    proof (cases ps)
      case Nil
      then show ?thesis using True by (simp add: co_pass_on_def)
    next
      case (Cons q qs)
      show ?thesis
      proof (cases "0 < ?c")
        case pos: True
        then have "0 \<le> c_time q" "b + ?c + c_time q \<le> INT_MAX"
          using w b Cons by (auto simp: co_wf_Cons)
        then have "int32 (c_time q + ?c) = c_time q + ?c" using b pos by simp
        then show ?thesis using True Cons pos b by (simp add: co_pass_on_def algebra_simps)
      next
        case False
        then have "max 0 (b + ?c) = b" using b by auto
        then show ?thesis using True Cons False by (simp add: co_pass_on_def)
      qed
    qed
  next
    case False
    then show ?thesis using Cons.IH[OF w] by (auto simp: split_beta)
  qed
qed

lemma co_remove_snd:
  "snd (co_remove f arg l) = None \<longleftrightarrow> (f, arg) \<notin> (\<lambda>p. (c_func p, c_arg p)) ` set l"
  by (induction l) (auto simp: split_beta)

lemma co_remove_None: "snd (co_remove f arg l) = None \<Longrightarrow> fst (co_remove f arg l) = l"
  by (induction l) (auto simp: split_beta split: if_splits)

definition move_due :: "int \<Rightarrow> int \<times> kfun \<times> int \<Rightarrow> int \<times> kfun \<times> int" where
  "move_due k x = (fst x + k, snd x)"

lemma dues_base: "co_wf b l \<Longrightarrow> 0 < b \<Longrightarrow> 0 \<le> b' \<Longrightarrow> dues b' l = map (move_due (b' - b)) (dues b l)"
proof (induction l arbitrary: b b')
  case (Cons p ps)
  have w: "co_wf (b + c_time p) ps" "0 \<le> c_time p" using Cons.prems by (auto simp: co_wf_Cons max_def split: if_splits)
  show ?case
    using Cons.IH[of "b + c_time p" "b' + c_time p"] w Cons.prems by (simp add: move_due_def max_absorb2)
qed simp

lemma dues_tick:
  assumes "co_wf 0 l" and "\<forall>x\<in>set (dues 0 l). - 2147483648 < fst x"
  shows "dues 0 (fst (co_tick l)) = map (move_due (- 1)) (dues 0 l)"
    and "snd (co_tick l) \<longleftrightarrow> (\<exists>x\<in>set (dues 0 l). fst x \<le> 1)"
  using assms
proof (induction l)
  case Nil
  {
    case 1
    show ?case by simp
  next
    case 2
    show ?case by simp
  }
next
  case (Cons p ps)
  let ?c = "c_time p"
  {
    case 1
    then have i: "int32 (?c - 1) = ?c - 1" and w: "co_wf (max 0 ?c) ps" by (auto simp: co_wf_Cons)
    show ?case
    proof (cases "0 < ?c")
      case True
      then have "dues (?c - 1) ps = map (move_due (- 1)) (dues ?c ps)"
        using dues_base[of ?c ps "?c - 1"] w by simp
      moreover have "max 0 (?c - 1) = ?c - 1" using True by simp
      ultimately have "dues (max 0 (?c - 1)) ps = map (move_due (- 1)) (dues ?c ps)" by simp
      then show ?thesis using True i by (cases "?c = 1") (simp_all add: Let_def move_due_def)
    next
      case False
      then show ?thesis using Cons.IH(1) w 1 i by (simp add: Let_def move_due_def)
    qed
  next
    case 2
    then have i: "int32 (?c - 1) = ?c - 1" and w: "co_wf (max 0 ?c) ps"
      and le: "\<forall>x\<in>set (dues (max 0 ?c) ps). ?c \<le> fst x" by (auto simp: co_wf_Cons)
    have "\<not> (\<exists>x\<in>set (dues ?c ps). fst x \<le> 1)" if "1 < ?c" using le that by fastforce
    then show ?case using i by (auto simp: Let_def)
  }
qed

lemma dues_inj: "dues b l = dues b l' \<Longrightarrow> l = l'"
  by (induction l arbitrary: b l'; case_tac l') (auto simp: callout.equality)

lemma set_due_insert [simp]: "set (due_insert t f arg ds) = insert (t, f, arg) (set ds)"
  by (simp add: due_insert_def) (metis set_append takeWhile_dropWhile_id)

lemma mset_due_insert [simp]: "mset (due_insert t f arg ds) = add_mset (t, f, arg) (mset ds)"
  by (simp add: due_insert_def) (metis mset_append takeWhile_dropWhile_id)

lemma sorted_due_insert:
  assumes "sorted (map fst ds)"
  shows "sorted (map fst (due_insert t f arg ds))"
  using assms
proof (induction ds)
  case Nil
  then show ?case by (simp add: due_insert_def)
next
  case (Cons x xs)
  have IH: "sorted (map fst (due_insert t f arg xs))" using Cons by simp
  show ?case
  proof (cases "fst x < t")
    case True
    then have "due_insert t f arg (x # xs) = x # due_insert t f arg xs" by (simp add: due_insert_def)
    then show ?thesis using IH True Cons.prems by auto
  next
    case False
    then have "due_insert t f arg (x # xs) = (t, f, arg) # x # xs" by (simp add: due_insert_def)
    then show ?thesis using False Cons.prems by fastforce
  qed
qed

lemma set_subseq: "subseq xs ys \<Longrightarrow> set xs \<subseteq> set ys"
  by (induction rule: list_emb.induct) auto

lemma sorted_subseq: "subseq xs ys \<Longrightarrow> sorted ys \<Longrightarrow> sorted xs"
  by (induction rule: list_emb.induct) (auto dest: set_subseq)

lemma subseq_due_remove: "subseq (due_remove f arg ds) ds"
  by (induction ds) auto

lemma due_remove_insert:
  assumes "\<forall>x\<in>set ds. fst x < t \<longrightarrow> snd x \<noteq> (f, arg)"
  shows "due_remove f arg (due_insert t f arg ds) = ds"
  using assms by (induction ds) (auto simp: due_insert_def)

lemma filter_due_insert:
  "0 < t \<Longrightarrow> filter (\<lambda>x. fst x \<le> 0) (due_insert t f arg ds) = filter (\<lambda>x. fst x \<le> 0) ds"
  by (simp add: due_insert_def) (metis filter_append takeWhile_dropWhile_id)

lemma co_inv_dues:
  "co_inv s \<longleftrightarrow> sorted (map fst (pending s)) \<and>
     (\<forall>x\<in>set (pending s). - 2147483648 \<le> fst x \<and> fst x \<le> INT_MAX)"
  by (simp add: co_inv_def co_wf_def)

lemma init_callouts_inv: "co_inv (init_callouts n)"
  by (simp add: init_callouts_def co_inv_def)

lemma timeout_Ok:
  assumes "co_inv s" and "t \<le> INT_MAX" and "timeout f arg t s = Ok s'"
  shows "pending s' = due_insert (max 1 t) f arg (pending s)"
    and "co_inv s'"
    and "length (calltodo s') + length (callfree s') = length (calltodo s) + length (callfree s)"
    and "callstate.more s' = callstate.more s"
proof -
  let ?t = "if t \<le> 0 then 1 else t"
  obtain p free where fr: "callfree s = p # free"
    and s': "s' = s\<lparr>callfree := free,
      calltodo := co_insert (p\<lparr>c_arg := arg, c_func := f\<rparr>) ?t (calltodo s)\<rparr>"
    using assms(3) by (auto simp: timeout_def Let_def split: list.splits)
  have t: "?t = max 1 t" "0 < ?t" "0 + ?t \<le> INT_MAX" using assms(2) by auto
  have "dues 0 (co_insert (p\<lparr>c_arg := arg, c_func := f\<rparr>) ?t (calltodo s)) =
      due_insert (0 + ?t) f arg (pending s)"
    using dues_insert[of 0 "calltodo s" ?t "p\<lparr>c_arg := arg, c_func := f\<rparr>"] assms(1) t(2,3)
    by (simp only: co_inv_def) simp
  then show p: "pending s' = due_insert (max 1 t) f arg (pending s)" using s' t(1) by simp
  have "1 \<le> max 1 t" "max 1 t \<le> INT_MAX" using assms(2) by auto
  then show "co_inv s'" using assms(1) sorted_due_insert[of "pending s" "max 1 t" f arg]
    by (auto simp: co_inv_dues p simp del: max_def)
  have "length (co_insert q x l) = Suc (length l)" for q x l
    by (induction q x l rule: co_insert.induct) auto
  then show "length (calltodo s') + length (callfree s') = length (calltodo s) + length (callfree s)"
    using s' fr by simp
  show "callstate.more s' = callstate.more s" using s' by simp
qed

lemma timeout_returns: "callfree s \<noteq> [] \<Longrightarrow> \<exists>s'. timeout f arg t s = Ok s'"
  by (cases "callfree s") (auto simp: timeout_def Let_def)

lemma timeout_overflow: "callfree s = [] \<Longrightarrow> timeout f arg t s = Panic ''timeout table overflow''"
  by (simp add: timeout_def)

lemma untimeout_spec:
  assumes "co_inv s"
  shows "pending (untimeout f arg s) = due_remove f arg (pending s)"
    and "co_inv (untimeout f arg s)"
    and "length (calltodo (untimeout f arg s)) + length (callfree (untimeout f arg s)) =
      length (calltodo s) + length (callfree s)"
    and "callstate.more (untimeout f arg s) = callstate.more s"
proof -
  obtain l r where lr: "co_remove f arg (calltodo s) = (l, r)" by (cases "co_remove f arg (calltodo s)")
  have d: "dues 0 l = due_remove f arg (pending s)"
    using dues_remove[of 0 "calltodo s" f arg] assms lr by (simp add: co_inv_def)
  have N: "l = calltodo s" if "r = None" using co_remove_None[of f arg "calltodo s"] lr that by simp
  show p: "pending (untimeout f arg s) = due_remove f arg (pending s)"
    using d N lr by (cases r) (auto simp: untimeout_def)
  have "subseq (map fst (due_remove f arg (pending s))) (map fst (pending s))"
    by (intro subseq_map subseq_due_remove)
  then have "sorted (map fst (due_remove f arg (pending s)))"
    using assms sorted_subseq unfolding co_inv_dues by blast
  moreover have "set (due_remove f arg (pending s)) \<subseteq> set (pending s)"
    by (rule set_subseq[OF subseq_due_remove])
  ultimately show "co_inv (untimeout f arg s)" using assms unfolding co_inv_dues p by blast
  have "length (fst (co_remove f arg m)) + (case snd (co_remove f arg m) of None \<Rightarrow> 0 | Some _ \<Rightarrow> 1) = length m" for m
    by (induction m) (auto simp: split_beta co_pass_on_def split: list.splits option.splits)
  from this[of "calltodo s"]
  show "length (calltodo (untimeout f arg s)) + length (callfree (untimeout f arg s)) =
      length (calltodo s) + length (callfree s)"
    using lr by (cases r) (auto simp: untimeout_def)
  show "callstate.more (untimeout f arg s) = callstate.more s"
    using lr by (cases r) (auto simp: untimeout_def)
qed

section \<open>The contract of the called routines\<close>

text \<open>
  What \<open>softclock\<close> needs of the routines it calls: they return, they keep the table in order, and
  they ask for no call that is due at once, which \<open>timeout\<close> does not allow; they may cancel calls.
\<close>

definition co_pop :: "'a callstate_scheme \<Rightarrow> 'a callstate_scheme" where
  "co_pop s = s\<lparr>calltodo := tl (calltodo s), callfree := hd (calltodo s) # callfree s\<rparr>"

definition co_ticked :: "'a callstate_scheme \<Rightarrow> 'a callstate_scheme" where
  "co_ticked s = s\<lparr>calltodo := fst (co_tick (calltodo s))\<rparr>"

lemma due_now_Nil_iff: "co_inv s \<Longrightarrow> due_now s = [] \<longleftrightarrow> calltodo s = [] \<or> 0 < c_time (hd (calltodo s))"
  by (cases "calltodo s") (fastforce simp: co_inv_def co_wf_Cons filter_empty_conv)+

lemma pending_pop:
  assumes "calltodo s = p # ps" "c_time p \<le> 0"
  shows "pending s = (c_time p, c_func p, c_arg p) # pending (co_pop s)"
    and "due_now s = (c_time p, c_func p, c_arg p) # due_now (co_pop s)"
  using assms by (simp_all add: co_pop_def max_def)

lemma co_inv_pop: "co_inv s \<Longrightarrow> calltodo s = p # ps \<Longrightarrow> c_time p \<le> 0 \<Longrightarrow> co_inv (co_pop s)"
  using pending_pop[of s p ps] by (simp add: co_inv_dues)

lemma pending_ticked:
  assumes "co_inv s" "\<forall>x\<in>set (pending s). - 2147483648 < fst x"
  shows "pending (co_ticked s) = map (move_due (- 1)) (pending s)" and "co_inv (co_ticked s)"
proof -
  show p: "pending (co_ticked s) = map (move_due (- 1)) (pending s)"
    using dues_tick(1)[of "calltodo s"] assms by (simp add: co_ticked_def co_inv_def)
  have "map fst (map (move_due (- 1)) ds) = map (\<lambda>d. d - 1) (map fst ds)" for ds
    by (simp add: move_due_def)
  moreover have "sorted xs \<Longrightarrow> sorted (map (\<lambda>d. d - 1) xs)" for xs :: "int list"
    by (induction xs) auto
  ultimately have "sorted (map fst (map (move_due (- 1)) (pending s)))"
    using assms(1) unfolding co_inv_dues by metis
  then show "co_inv (co_ticked s)" using assms unfolding co_inv_dues p
    by (fastforce simp: move_due_def)
qed

locale callout_handlers =
  fixes run :: "'a callstate_scheme handler" and good :: "'a callstate_scheme \<Rightarrow> bool"
  assumes good_inv: "good s \<Longrightarrow> co_inv s"
    and good_pop: "good s \<Longrightarrow> due_now s \<noteq> [] \<Longrightarrow> good (co_pop s)"
    and good_tick: "good s \<Longrightarrow> \<forall>x\<in>set (pending s). - 2147483648 < fst x \<Longrightarrow> good (co_ticked s)"
    and returns: "good s \<Longrightarrow> run f arg late s \<noteq> None"
    and keeps_good: "good s \<Longrightarrow> run f arg late s = Some (Ok s') \<Longrightarrow> good s'"
    and no_new_due: "good s \<Longrightarrow> run f arg late s = Some (Ok s') \<Longrightarrow> subseq (due_now s') (due_now s)"
begin

lemma softclock_returns:
  "good s \<Longrightarrow> length (due_now s) < n \<Longrightarrow> co_softclock n run s \<noteq> None"
proof (induction n arbitrary: s)
  case (Suc n)
  show ?case
  proof (cases "due_now s")
    case Nil
    then have "calltodo s = [] \<or> 0 < c_time (hd (calltodo s))"
      using due_now_Nil_iff[OF good_inv] Suc.prems by blast
    then show ?thesis by (cases "calltodo s") auto
  next
    case (Cons x xs)
    then have "\<not> (calltodo s = [] \<or> 0 < c_time (hd (calltodo s)))"
      using due_now_Nil_iff[OF good_inv] Suc.prems by force
    then obtain p ps where c: "calltodo s = p # ps" "c_time p \<le> 0" by (cases "calltodo s") auto
    have g: "good (co_pop s)" using good_pop Suc.prems Cons by force
    have l: "length (due_now (co_pop s)) < n" using pending_pop(2)[OF c] Suc.prems by simp
    obtain r where r: "run (c_func p) (c_arg p) (c_time p) (co_pop s) = Some r"
      using returns[OF g] by blast
    have "co_softclock n run s' \<noteq> None" if "r = Ok s'" for s'
    proof -
      have "subseq (due_now s') (due_now (co_pop s))" "good s'"
        using no_new_due[OF g] keeps_good[OF g] r that by blast+
      then show ?thesis using Suc.IH l list_emb_length by fastforce
    qed
    then show ?thesis using c r by (auto simp: co_pop_def rbind_None)
  qed
qed simp

lemma softclock_calls:
  "good s \<Longrightarrow> co_softclock n run s = Some (Ok (s', calls)) \<Longrightarrow>
     good s' \<and> due_now s' = [] \<and> subseq calls (due_now s)"
proof (induction n arbitrary: s calls)
  case (Suc n)
  show ?case
  proof (cases "calltodo s = [] \<or> 0 < c_time (hd (calltodo s))")
    case True
    have "s' = s" "calls = []" using True Suc.prems(2) by (auto split: list.splits)
    moreover have "due_now s = []" using True due_now_Nil_iff[OF good_inv[OF Suc.prems(1)]] by blast
    ultimately show ?thesis using Suc.prems(1) by simp
  next
    case False
    then obtain p ps where c: "calltodo s = p # ps" "c_time p \<le> 0" by (cases "calltodo s") auto
    have d: "due_now s = (c_time p, c_func p, c_arg p) # due_now (co_pop s)"
      by (rule pending_pop(2)[OF c])
    have g: "good (co_pop s)" using good_pop Suc.prems d by force
    obtain s1 cs where r: "run (c_func p) (c_arg p) (c_time p) (co_pop s) = Some (Ok s1)"
      and rest: "co_softclock n run s1 = Some (Ok (s', cs))"
      and cc: "calls = (c_time p, c_func p, c_arg p) # cs"
      using Suc.prems(2) c by (auto simp: co_pop_def)
    have "subseq (due_now s1) (due_now (co_pop s))" "good s1"
      using no_new_due[OF g r] keeps_good[OF g r] by blast+
    moreover have "good s' \<and> due_now s' = [] \<and> subseq cs (due_now s1)"
      by (rule Suc.IH[OF keeps_good[OF g r] rest])
    ultimately have t: "good s'" "due_now s' = []" and "subseq cs (due_now (co_pop s))"
      using subseq_order.order_trans by blast+
    then have "subseq calls (due_now s)" unfolding d cc by simp
    then show ?thesis using t by blast
  qed
qed simp

end

text \<open>One tick of the clock, with the calls made at once if any is due.\<close>

definition co_clock :: "nat \<Rightarrow> 'a callstate_scheme handler \<Rightarrow> 'a callstate_scheme \<Rightarrow>
    ('a callstate_scheme \<times> (int \<times> kfun \<times> int) list) outcome option" where
  "co_clock n run s =
     (if snd (co_tick (calltodo s)) then co_softclock n run (co_ticked s)
      else Some (Ok (co_ticked s, [])))"

fun co_clocks :: "nat \<Rightarrow> 'a callstate_scheme handler \<Rightarrow> nat \<Rightarrow> 'a callstate_scheme \<Rightarrow>
    ('a callstate_scheme \<times> (int \<times> kfun \<times> int) list list) outcome option" where
  "co_clocks n run 0 s = Some (Ok (s, []))"
| "co_clocks n run (Suc k) s =
     rbind (co_clock n run s) (\<lambda>(s', calls).
       rbind (co_clocks n run k s') (\<lambda>(s'', callss). Some (Ok (s'', calls # callss))))"

text \<open>Routines that cancel no call.\<close>

locale timeout_handlers = callout_handlers +
  assumes cancels_none: "good s \<Longrightarrow> run f arg late s = Some (Ok s') \<Longrightarrow>
      mset (pending s) \<subseteq># mset (pending s')"
begin

lemma keeps_due:
  assumes "good s" "run f arg late s = Some (Ok s')"
  shows "due_now s' = due_now s"
proof -
  have "mset (due_now s) \<subseteq># mset (due_now s')"
    using cancels_none[OF assms] by (simp add: multiset_filter_mono)
  then have "length (due_now s) \<le> length (due_now s')" using size_mset_mono by (metis size_mset)
  then show ?thesis using no_new_due[OF assms] by (meson list_emb_length antisym subseq_same_length)
qed

lemma softclock_all:
  "good s \<Longrightarrow> co_softclock n run s = Some (Ok (s', calls)) \<Longrightarrow>
     calls = due_now s \<and> mset (pending s) \<subseteq># mset (due_now s) + mset (pending s')"
proof (induction n arbitrary: s calls)
  case (Suc n)
  show ?case
  proof (cases "calltodo s = [] \<or> 0 < c_time (hd (calltodo s))")
    case True
    have "s' = s" "calls = []" using True Suc.prems(2) by (auto split: list.splits)
    moreover have "due_now s = []" using True due_now_Nil_iff[OF good_inv[OF Suc.prems(1)]] by blast
    ultimately show ?thesis using Suc.prems(1) by simp
  next
    case False
    then obtain p ps where c: "calltodo s = p # ps" "c_time p \<le> 0" by (cases "calltodo s") auto
    note d = pending_pop[OF c]
    have g: "good (co_pop s)" using good_pop Suc.prems d by force
    obtain s1 cs where r: "run (c_func p) (c_arg p) (c_time p) (co_pop s) = Some (Ok s1)"
      and rest: "co_softclock n run s1 = Some (Ok (s', cs))"
      and cc: "calls = (c_time p, c_func p, c_arg p) # cs"
      using Suc.prems(2) c by (auto simp: co_pop_def)
    have e: "due_now s1 = due_now (co_pop s)" by (rule keeps_due[OF g r])
    have m: "mset (pending (co_pop s)) \<subseteq># mset (pending s1)" by (rule cancels_none[OF g r])
    have "cs = due_now s1 \<and> mset (pending s1) \<subseteq># mset (due_now s1) + mset (pending s')"
      by (rule Suc.IH[OF keeps_good[OF g r] rest])
    then have a: "calls = due_now s"
      and b: "mset (pending (co_pop s)) \<subseteq># mset (due_now (co_pop s)) + mset (pending s')"
      using d(2) cc e m by (auto intro: subset_mset.order_trans)
    have "mset (pending s) = add_mset (c_time p, c_func p, c_arg p) (mset (pending (co_pop s)))"
      by (subst d(1)) simp
    moreover have "mset (due_now s) = add_mset (c_time p, c_func p, c_arg p) (mset (due_now (co_pop s)))"
      by (subst d(2)) simp
    ultimately show ?thesis using a b by (metis mset_subset_eq_add_mset_cancel union_mset_add_mset_left)
  qed
qed simp

lemma clock_step:
  assumes "good s" and "due_now s = []" and "co_clock n run s = Some (Ok (s', calls))"
  shows "good s'" and "due_now s' = []" and "\<forall>x\<in>set calls. fst x = 0"
    and "(1, f, a) \<in> set (pending s) \<Longrightarrow> (0, f, a) \<in> set calls"
    and "1 < t \<Longrightarrow> (t, f, a) \<in> set (pending s) \<Longrightarrow> (t - 1, f, a) \<in> set (pending s')"
proof -
  have pos: "0 < fst x" if "x \<in> set (pending s)" for x
    using assms(2) that by (auto simp: filter_empty_conv not_le)
  then have b: "\<forall>x\<in>set (pending s). - 2147483648 < fst x" by fastforce
  note inv = good_inv[OF assms(1)]
  note T = pending_ticked[OF inv b]
  have g: "good (co_ticked s)" by (rule good_tick[OF assms(1) b])
  have soft: "snd (co_tick (calltodo s)) \<longleftrightarrow> (\<exists>x\<in>set (pending s). fst x \<le> 1)"
    using dues_tick(2)[of "calltodo s"] inv b by (simp add: co_inv_def)
  have tick: "(t, f, a) \<in> set (pending s) \<Longrightarrow> (t - 1, f, a) \<in> set (pending (co_ticked s))" for t f a
    unfolding T by (force simp: move_due_def)
  have ge: "0 \<le> fst x" if "x \<in> set (pending (co_ticked s))" for x
    using that pos unfolding T by (fastforce simp: move_due_def)
  have all: "good s' \<and> due_now s' = [] \<and> calls = due_now (co_ticked s) \<and>
      mset (pending (co_ticked s)) \<subseteq># mset calls + mset (pending s')"
  proof (cases "snd (co_tick (calltodo s))")
    case True
    then have "co_softclock n run (co_ticked s) = Some (Ok (s', calls))"
      using assms(3) by (simp add: co_clock_def)
    then show ?thesis using softclock_calls[OF g] softclock_all[OF g] by fastforce
  next
    case False
    then have e: "s' = co_ticked s" "calls = []" using assms(3) by (simp_all add: co_clock_def)
    have "\<forall>x\<in>set (pending s). 1 < fst x" using False soft by fastforce
    then have "due_now (co_ticked s) = []" unfolding T by (auto simp: filter_empty_conv move_due_def)
    then show ?thesis using e g by simp
  qed
  show "good s'" "due_now s' = []" using all by blast+
  show "\<forall>x\<in>set calls. fst x = 0" using all ge by fastforce
  show "(1, f, a) \<in> set (pending s) \<Longrightarrow> (0, f, a) \<in> set calls"
    using all tick[of 1 f a] by simp
  have "x \<in> set calls \<union> set (pending s')" if "x \<in> set (pending (co_ticked s))" for x
    using all that by (metis mset_subset_eqD set_mset_mset set_mset_union)
  then show "1 < t \<Longrightarrow> (t, f, a) \<in> set (pending s) \<Longrightarrow> (t - 1, f, a) \<in> set (pending s')"
    using tick[of t f a] all by fastforce
qed

lemma fires:
  "good s \<Longrightarrow> due_now s = [] \<Longrightarrow> (int (Suc k), f, a) \<in> set (pending s) \<Longrightarrow>
     co_clocks n run (Suc k) s = Some (Ok (s', callss)) \<Longrightarrow>
     length callss = Suc k \<and> (0, f, a) \<in> set (callss ! k) \<and>
       (\<forall>calls\<in>set callss. \<forall>x\<in>set calls. fst x = 0)"
proof (induction k arbitrary: s callss)
  case 0
  then obtain calls where "co_clock n run s = Some (Ok (s', calls))" "callss = [calls]"
    by auto
  then show ?case using clock_step(3,4)[OF 0(1,2)] 0(3) by auto
next
  case (Suc k)
  obtain s1 calls css where c: "co_clock n run s = Some (Ok (s1, calls))"
    and r: "co_clocks n run (Suc k) s1 = Some (Ok (s', css))" and e: "callss = calls # css"
    using Suc.prems(4) by (auto simp del: co_clocks.simps simp: co_clocks.simps(2)[of n run "Suc k"])
  note st = clock_step[OF Suc.prems(1,2) c]
  have "(int (Suc k), f, a) \<in> set (pending s1)"
    using st(5)[of "int (Suc (Suc k))" f a] Suc.prems(3) by simp
  then show ?case using Suc.IH[OF st(1,2) _ r] st(3) e by auto
qed

end

section \<open>Properties\<close>

text \<open>
  C10: the table of callouts refines a sorted list of absolute times.  \<open>timeout\<close> inserts the call
  before the first that is not due earlier and panics only when the table is full, \<open>untimeout\<close>
  removes the first call of the routine with the argument and changes no other time, and a clock
  tick takes one from every time.
\<close>
theorem callout_refines:
  assumes "co_inv s" and "t \<le> INT_MAX" and "\<forall>x\<in>set (pending s). - 2147483648 < fst x"
  shows "(case timeout f arg t s of
        Ok s' \<Rightarrow> callfree s \<noteq> [] \<and> co_inv s' \<and> pending s' = due_insert (max 1 t) f arg (pending s)
      | Panic m \<Rightarrow> callfree s = []
      | _ \<Rightarrow> False) \<and>
    co_inv (untimeout f arg s) \<and> pending (untimeout f arg s) = due_remove f arg (pending s) \<and>
    co_inv (co_ticked s) \<and> pending (co_ticked s) = map (move_due (- 1)) (pending s)"
proof (cases "callfree s")
  case Nil
  then show ?thesis
    using timeout_overflow[of s f arg t] untimeout_spec(1,2)[OF assms(1)] pending_ticked[OF assms(1,3)] by simp
next
  case (Cons a list)
  then obtain s' where s': "timeout f arg t s = Ok s'" using timeout_returns[of s f arg t] by auto
  then show ?thesis
    using Cons timeout_Ok(1,2)[OF assms(1,2) s'] untimeout_spec(1,2)[OF assms(1)]
      pending_ticked[OF assms(1,3)] by simp
qed

definition demo_calls :: callstate where
  "demo_calls = \<lparr>calltodo = [\<lparr>c_time = 3, c_arg = 1, c_func = Driver 1\<rparr>, \<lparr>c_time = 2, c_arg = 2, c_func = Driver 2\<rparr>],
     callfree = [\<lparr>c_time = 0, c_arg = 0, c_func = Driver 0\<rparr>]\<rparr>"

lemma demo_calls_ok: "co_inv demo_calls" "pending demo_calls = [(3, Driver 1, 1), (5, Driver 2, 2)]"
  by (simp_all add: demo_calls_def co_inv_dues INT_MAX_def)

lemma callout_refines_witness:
  "(case timeout (Driver 3) 9 4 demo_calls of
      Ok s' \<Rightarrow> pending s' = [(3, Driver 1, 1), (4, Driver 3, 9), (5, Driver 2, 2)] | _ \<Rightarrow> False) \<and>
   pending (untimeout (Driver 1) 1 demo_calls) = [(5, Driver 2, 2)]"
  using callout_refines[OF demo_calls_ok(1), of 4 "Driver 3" 9] callout_refines[OF demo_calls_ok(1), of 4 "Driver 1" 1]
  by (auto simp: demo_calls_ok(2) due_insert_def INT_MAX_def demo_calls_def split: outcome.splits)



end
