(* ===== verification/Sched.thy ===== *)
theory Sched
  imports Callout
begin

text \<open>
  Processes, sleep queues and run queues (\<open>sys/kern_synch.c\<close>, and \<open>setrq\<close>, \<open>remrq\<close>,
  \<open>swtch\<close> of \<open>sun3/vax.s\<close>).  A process that waits for an event is on the sleep queue of its
  channel; one that is ready to run is on the run queue of its priority.

  The queues are doubly linked through the process table; here they are lists of process
  numbers, the head first.  \<open>p_rlink\<close>, which is 0 exactly while a process is on no queue, is
  read off the lists.
\<close>

unbundle bit_operations_syntax

section \<open>State\<close>

record proc =
  p_stat :: int
  p_flag :: int
  p_pri :: int
  p_usrpri :: int
  p_cpu :: int
  p_time :: int
  p_nice :: int
  p_slptime :: int
  p_wchan :: int
  p_rssize :: int
  p_maxrss :: int
  p_textp :: "int option"
  p_cpticks :: int
  p_pctcpu :: int
  p_sig :: int
  p_sigmask :: int
  p_sigignore :: int
  p_sigcatch :: int
  p_cursig :: int
  p_pptr :: "nat option"
  p_tptr :: "nat option"
  p_pid :: int
  p_ppid :: int
  p_pgrp :: int
  p_uid :: int
  p_idhash :: nat
  p_realtimer :: itimerval

text \<open>
  \<open>p_textp\<close> is the resident size of the shared text, if the process has one, and a pointer to
  another process is its number, if it is not null.  \<open>whichqs\<close> is the
  word of the same name as the list of its bits, in the order of the bit field instructions, so
  that the first bit belongs to the last queue.  Kernel variables whose addresses are slept on
  have those addresses as fields.
\<close>

record sched = callstate +
  procs :: "proc list"
  slpque :: "nat list list"
  qs :: "nat list list"
  whichqs :: "bool list"
  u_procp :: nat
  noproc :: bool
  runrun :: int
  astpend :: bool
  curpri :: int
  runin :: int
  runout :: int
  wantin :: int
  freemem :: int
  desfree :: int
  avenrun0 :: int
  bclnlist :: bool
  panicstr :: bool
  ru_nvcsw :: int
  a_lbolt :: int
  a_runin :: int
  a_runout :: int
  a_proc :: "nat \<Rightarrow> int"

definition SSLEEP :: int where "SSLEEP = 1"
definition SRUN :: int where "SRUN = 3"
definition SIDL :: int where "SIDL = 4"
definition SZOMB :: int where "SZOMB = 5"
definition SSTOP :: int where "SSTOP = 6"

definition SLOAD :: int where "SLOAD = 0x1"
definition STRC :: int where "STRC = 0x10"
definition SWTED :: int where "SWTED = 0x20"
definition SVFORK :: int where "SVFORK = 0x1000"
definition SOWEUPC :: int where "SOWEUPC = 0x200000"
definition SFAVORD :: int where "SFAVORD = 0x2000000"

definition PZERO :: int where "PZERO = 25"
definition PUSER :: int where "PUSER = 50"
definition NZERO :: int where "NZERO = 20"
definition PMASK :: int where "PMASK = 0x7f"
definition PCATCH :: int where "PCATCH = 0x100"
definition FSHIFT :: nat where "FSHIFT = 8"
definition FSCALE :: int where "FSCALE = 256"
definition NQS :: nat where "NQS = 32"
definition SQSIZE :: nat where "SQSIZE = 64"

definition fav_nice :: int where "fav_nice = -10"
definition nrscale :: int where "nrscale = 2"
definition ccpu :: int where "ccpu = 243"

lemmas stat_defs = SSLEEP_def SRUN_def SIDL_def SZOMB_def SSTOP_def

text \<open>A \<open>char\<close> is signed.\<close>

definition int8 :: "int \<Rightarrow> int" where
  "int8 x = (x + 128) mod 256 - 128"

text \<open>Access to the process table; a pointer outside of it is a fault.\<close>

definition with_proc :: "nat \<Rightarrow> 'a sched_scheme \<Rightarrow> (proc \<Rightarrow> 'b outcome) \<Rightarrow> 'b outcome" where
  "with_proc p s f = (if p < length (procs s) then f (procs s ! p) else Fault)"

definition put_proc :: "nat \<Rightarrow> proc \<Rightarrow> 'a sched_scheme \<Rightarrow> 'a sched_scheme" where
  "put_proc p x s = s\<lparr>procs := (procs s)[p := x]\<rparr>"

definition loaded :: "proc \<Rightarrow> bool" where
  "loaded x \<longleftrightarrow> p_flag x AND SLOAD \<noteq> 0"

lemma loaded_update [simp]:
  "loaded (x\<lparr>p_stat := a\<rparr>) = loaded x" "loaded (x\<lparr>p_pri := a\<rparr>) = loaded x"
  "loaded (x\<lparr>p_usrpri := a\<rparr>) = loaded x" "loaded (x\<lparr>p_wchan := a\<rparr>) = loaded x"
  "loaded (x\<lparr>p_slptime := a\<rparr>) = loaded x" "loaded (x\<lparr>p_cpu := a\<rparr>) = loaded x"
  "loaded (x\<lparr>p_cpticks := a\<rparr>) = loaded x" "loaded (x\<lparr>p_realtimer := r\<rparr>) = loaded x"
  "loaded (x\<lparr>p_sig := a\<rparr>) = loaded x" "loaded (x\<lparr>p_nice := a\<rparr>) = loaded x"
  "loaded (x\<lparr>p_cursig := a\<rparr>) = loaded x" "loaded (x\<lparr>p_sigmask := a\<rparr>) = loaded x"
  "loaded (x\<lparr>p_sigignore := a\<rparr>) = loaded x" "loaded (x\<lparr>p_sigcatch := a\<rparr>) = loaded x"
  by (simp_all add: loaded_def)

text \<open>\<open>p_rlink\<close> is set while the process is on a queue.\<close>

definition linked :: "nat \<Rightarrow> 'a sched_scheme \<Rightarrow> bool" where
  "linked p s \<longleftrightarrow> p \<in> set (concat (qs s)) \<or> p \<in> set (concat (slpque s))"

text \<open>\<open>roundrobin\<close>: ten times a second the running process has to compete again.\<close>

definition roundrobin :: "int \<Rightarrow> 'a sched_scheme \<Rightarrow> 'a sched_scheme outcome" where
  "roundrobin hz s =
     timeout Roundrobin 0 (hz sdiv 10) (s\<lparr>runrun := int32 (runrun s + 1), astpend := True\<rparr>)"

section \<open>Run queues\<close>

definition setrq :: "nat \<Rightarrow> 'a sched_scheme \<Rightarrow> 'a sched_scheme outcome" where
  "setrq p s = with_proc p s (\<lambda>x.
     if linked p s then Panic ''setrq''
     else
       (let d0 = nat ((p_pri x mod 256) div 4) in
        if NQS \<le> d0 then Fault
        else Ok (s\<lparr>qs := (qs s)[31 - d0 := qs s ! (31 - d0) @ [p]],
                   whichqs := (whichqs s)[d0 := True]\<rparr>)))"

definition remrq :: "nat \<Rightarrow> 'a sched_scheme \<Rightarrow> 'a sched_scheme outcome" where
  "remrq p s = with_proc p s (\<lambda>x.
     (let d0 = nat ((p_pri x mod 256) div 4) in
      if NQS \<le> d0 then Fault
      else if \<not> whichqs s ! d0 then Panic ''remrq''
      else if p \<notin> set (qs s ! (31 - d0)) then Fault
      else
        (let q = removeAll p (qs s ! (31 - d0)) in
         Ok (s\<lparr>qs := (qs s)[31 - d0 := q],
               whichqs := (if q = [] then (whichqs s)[d0 := False] else whichqs s)\<rparr>))))"

text \<open>
  \<open>swtch\<close> up to the call of \<open>resume\<close>: the process that runs next, or none if the processor
  idles until an interrupt.
\<close>

fun first_bit :: "bool list \<Rightarrow> nat option" where
  "first_bit [] = None"
| "first_bit (b # bs) = (if b then Some 0 else map_option Suc (first_bit bs))"

definition swtch_start :: "'a sched_scheme \<Rightarrow> 'a sched_scheme" where
  "swtch_start s = s\<lparr>noproc := True, runrun := 0, astpend := False\<rparr>"

definition swtch :: "'a sched_scheme \<Rightarrow> ('a sched_scheme \<times> nat option) outcome" where
  "swtch s0 =
     (let s = swtch_start s0 in
      case first_bit (whichqs s) of
        None \<Rightarrow> Ok (s, None)
      | Some d0 \<Rightarrow>
          (case qs s ! (31 - d0) of
             [] \<Rightarrow> Panic ''swtch''
           | p # q \<Rightarrow> with_proc p s (\<lambda>x.
               if p_wchan x \<noteq> 0 \<or> p_stat x \<noteq> SRUN then Panic ''swtch''
               else Ok (s\<lparr>qs := (qs s)[31 - d0 := q],
                          whichqs := (whichqs s)[d0 := q \<noteq> []],
                          noproc := False, u_procp := p\<rparr>, Some p))))"

text \<open>\<open>runrun++; aston();\<close> if the priority is better than that of the running process.\<close>

definition kick :: "int \<Rightarrow> 'a sched_scheme \<Rightarrow> 'a sched_scheme" where
  "kick pri s = (if pri < curpri s
     then s\<lparr>runrun := int32 (runrun s + 1), astpend := True\<rparr> else s)"

section \<open>Sleep queues\<close>

definition HASH :: "int \<Rightarrow> nat" where
  "HASH chan = nat ((chan div 32) mod 64)"

text \<open>\<open>remque\<close> from the sleep queues, with \<open>p_rlink\<close> and \<open>p_wchan\<close> cleared.\<close>

definition detach :: "nat \<Rightarrow> 'a sched_scheme \<Rightarrow> 'a sched_scheme" where
  "detach p s = put_proc p ((procs s ! p)\<lparr>p_wchan := 0\<rparr>)
     (s\<lparr>slpque := map (removeAll p) (slpque s)\<rparr>)"

definition unsleep :: "nat \<Rightarrow> 'a sched_scheme \<Rightarrow> 'a sched_scheme outcome" where
  "unsleep p s = with_proc p s (\<lambda>x.
     if p_wchan x \<noteq> 0 then
       (if p \<in> set (concat (slpque s)) then Ok (detach p s) else Fault)
     else Ok s)"

text \<open>
  What \<open>setrun\<close> and its inline expansions do once the process is off its queue; \<open>wake\<close> is the
  call \<open>wakeup(&runout)\<close>.
\<close>

definition run_it :: "('a sched_scheme \<Rightarrow> 'a sched_scheme outcome) \<Rightarrow> nat \<Rightarrow> 'a sched_scheme \<Rightarrow>
    'a sched_scheme outcome" where
  "run_it wake p s0 =
     (let x = (procs s0 ! p)\<lparr>p_stat := SRUN\<rparr>; s1 = put_proc p x s0 in
      obind (if loaded x then setrq p s1 else Ok s1) (\<lambda>s2.
      let s3 = kick (p_pri x) s2 in
      if loaded x then Ok s3
      else obind (if runout s3 \<noteq> 0 then wake (s3\<lparr>runout := 0\<rparr>) else Ok s3)
             (\<lambda>s4. Ok (s4\<lparr>wantin := int32 (wantin s4 + 1)\<rparr>))))"

text \<open>
  The scan of \<open>wakeup\<close> and \<open>wakeup_one\<close> along a queue: the next process that sleeps on the
  channel, with the rest of the queue.
\<close>

fun wscan :: "string \<Rightarrow> proc list \<Rightarrow> int \<Rightarrow> nat list \<Rightarrow> (nat \<times> nat list) option outcome" where
  "wscan msg ps chan [] = Ok None"
| "wscan msg ps chan (p # q) =
     (if \<not> p < length ps then Fault
      else if p_stat (ps ! p) \<noteq> SSLEEP \<and> p_stat (ps ! p) \<noteq> SSTOP then Panic msg
      else if p_wchan (ps ! p) = chan then Ok (Some (p, q))
      else wscan msg ps chan q)"

definition wake_out :: "nat \<Rightarrow> 'a sched_scheme \<Rightarrow> 'a sched_scheme" where
  "wake_out p s = (let s1 = detach p s in put_proc p ((procs s1 ! p)\<lparr>p_slptime := 0\<rparr>) s1)"

text \<open>
  The loop of \<open>wakeup\<close>, with the part of the queue still to be scanned.  Each round takes a
  process off a sleep queue, so the fuel of one more than the number of sleepers suffices.
\<close>

fun wakeup_from :: "nat \<Rightarrow> int \<Rightarrow> nat list \<Rightarrow> 'a sched_scheme \<Rightarrow> 'a sched_scheme outcome" where
  "wakeup_from 0 chan q s = Fault"
| "wakeup_from (Suc n) chan q s =
     obind (wscan ''wakeup'' (procs s) chan q) (\<lambda>r. case r of
       None \<Rightarrow> Ok s
     | Some (p, q') \<Rightarrow>
         (let s1 = wake_out p s in
          if p_stat (procs s1 ! p) = SSLEEP
          then obind (run_it (\<lambda>t. wakeup_from n (a_runout t) (slpque t ! HASH (a_runout t)) t) p s1)
                 (\<lambda>s2. wakeup_from n chan (slpque s2 ! HASH chan) s2)
          else wakeup_from n chan q' s1))"

definition sleepers :: "'a sched_scheme \<Rightarrow> nat" where
  "sleepers s = sum_list (map length (slpque s))"

definition wakeup :: "int \<Rightarrow> 'a sched_scheme \<Rightarrow> 'a sched_scheme outcome" where
  "wakeup chan s = wakeup_from (Suc (sleepers s)) chan (slpque s ! HASH chan) s"

fun wakeup_one_from :: "nat \<Rightarrow> int \<Rightarrow> nat list \<Rightarrow> 'a sched_scheme \<Rightarrow> 'a sched_scheme outcome" where
  "wakeup_one_from 0 chan q s = Fault"
| "wakeup_one_from (Suc n) chan q s =
     obind (wscan ''wakeup_one'' (procs s) chan q) (\<lambda>r. case r of
       None \<Rightarrow> Ok s
     | Some (p, q') \<Rightarrow>
         (let s1 = wake_out p s in
          if p_stat (procs s1 ! p) = SSLEEP
          then run_it (\<lambda>t. wakeup (a_runout t) t) p s1
          else wakeup_one_from n chan q' s1))"

definition wakeup_one :: "int \<Rightarrow> 'a sched_scheme \<Rightarrow> 'a sched_scheme outcome" where
  "wakeup_one chan s = wakeup_one_from (Suc (sleepers s)) chan (slpque s ! HASH chan) s"

definition setrun :: "nat \<Rightarrow> 'a sched_scheme \<Rightarrow> 'a sched_scheme outcome" where
  "setrun p s = with_proc p s (\<lambda>x.
     obind (if p_stat x = SSTOP \<or> p_stat x = SSLEEP then unsleep p s
            else if p_stat x = SIDL then Ok s
            else Panic ''setrun'')
       (run_it (\<lambda>t. wakeup (a_runout t) t) p))"

text \<open>
  \<open>rqinit\<close>.
\<close>

definition rqinit :: "'a sched_scheme \<Rightarrow> 'a sched_scheme" where
  "rqinit s = s\<lparr>qs := replicate NQS [], slpque := replicate SQSIZE []\<rparr>"

text \<open>
  \<open>sleep\<close>.  The first part runs until the process gives up the processor or returns;
  \<open>sig1\<close> is the value of \<open>ISSIG(rp)\<close> there and \<open>intsvc\<close> whether an interrupt is being served.
  The second part runs after \<open>swtch\<close> has returned.  \<open>ISSIG\<close> is taken without the stop for a
  tracing parent that it may contain, so that its answer no leaves the process on its queue.
\<close>

definition count_switch :: "'a sched_scheme \<Rightarrow> 'a sched_scheme" where
  "count_switch s = s\<lparr>ru_nvcsw := int32 (ru_nvcsw s + 1)\<rparr>"

datatype slept = Switch | Return int | Longjmp

definition slept_sig :: "int \<Rightarrow> slept" where
  "slept_sig pri = (if pri AND PCATCH \<noteq> 0 then Return 1 else Longjmp)"

definition sleep :: "bool \<Rightarrow> bool \<Rightarrow> int \<Rightarrow> int \<Rightarrow> 'a sched_scheme \<Rightarrow> ('a sched_scheme \<times> slept) outcome" where
  "sleep intsvc sig1 chan pri s =
     (let rp = u_procp s in
      with_proc rp s (\<lambda>x.
      if panicstr s then Ok (s, Return 0)
      else if intsvc \<or> chan = 0 \<or> p_stat x \<noteq> SRUN then Panic ''sleep''
      else
        (let x1 = x\<lparr>p_wchan := chan, p_slptime := 0, p_pri := pri AND PMASK\<rparr>;
             h = HASH chan;
             s1 = put_proc rp x1 (s\<lparr>slpque := (slpque s)[h := slpque s ! h @ [rp]]\<rparr>)
         in if PZERO < p_pri x1 \<and> sig1 then
              obind (unsleep rp s1) (\<lambda>s2.
                Ok (put_proc rp ((procs s2 ! rp)\<lparr>p_stat := SRUN\<rparr>) s2, slept_sig pri))
            else Ok (count_switch (put_proc rp (x1\<lparr>p_stat := SSLEEP\<rparr>) s1), Switch))))"

definition sleep_resumed :: "bool \<Rightarrow> int \<Rightarrow> slept" where
  "sleep_resumed sig2 pri =
     (if PZERO < pri AND PMASK \<and> sig2 then slept_sig pri else Return 0)"

section \<open>Priorities\<close>

definition setpri :: "nat \<Rightarrow> 'a sched_scheme \<Rightarrow> ('a sched_scheme \<times> int) outcome" where
  "setpri pp s = with_proc pp s (\<lambda>x.
     let p0 = (p_cpu x mod 256) div 4;
         p1 = p0 + PUSER + 2 * (p_nice x - NZERO);
         p2 = (if p_flag x AND SFAVORD \<noteq> 0 then p1 + 2 * fav_nice else p1);
         p3 = (if p_maxrss x < p_rssize x \<and> freemem s < desfree s then p2 + 2 * 4 else p2);
         p4 = (if 127 < p3 then 127 else p3);
         p = (if p4 < 1 then 1 else p4);
         s1 = kick p s
     in Ok (put_proc pp (x\<lparr>p_usrpri := p\<rparr>) s1, p))"

text \<open>
  The body of the loop of \<open>schedcpu\<close> for one process, up to the call of \<open>setpri\<close>: the times
  in memory and asleep, the percentage of the processor, and the decay of the usage.
\<close>

definition decay_times :: "proc \<Rightarrow> proc" where
  "decay_times x =
     (let x1 = (if p_time x \<noteq> 127 then x\<lparr>p_time := int8 (p_time x + 1)\<rparr> else x)
      in if (p_stat x1 = SSLEEP \<or> p_stat x1 = SSTOP) \<and> p_slptime x1 \<noteq> 127
         then x1\<lparr>p_slptime := int8 (p_slptime x1 + 1)\<rparr> else x1)"

definition decay_pct :: "int \<Rightarrow> proc \<Rightarrow> proc" where
  "decay_pct hz x =
     (if loaded x
      then x\<lparr>p_pctcpu := int32 (int32 (ccpu * p_pctcpu x) +
              int32 ((FSCALE - ccpu) * (int32 (p_cpticks x * FSCALE) sdiv hz))) div 2 ^ FSHIFT\<rparr>
      else x)"

definition decay_cpu :: "int \<Rightarrow> proc \<Rightarrow> int" where
  "decay_cpu avenrun x =
     (let b = int32 (avenrun * nrscale);
          a = int32 (int32 ((p_cpu x mod 256) * b) sdiv int32 (b + FSCALE) + p_nice x - NZERO);
          a1 = (if a < 0 then 0 else a)
      in if 255 < a1 then 255 else a1)"

definition decay :: "int \<Rightarrow> int \<Rightarrow> proc \<Rightarrow> proc" where
  "decay hz avenrun x =
     (let x1 = decay_pct hz (decay_times x)
      in x1\<lparr>p_cpticks := 0, p_cpu := int8 (decay_cpu avenrun x1)\<rparr>)"

definition schedcpu_one :: "int \<Rightarrow> nat \<Rightarrow> 'a sched_scheme \<Rightarrow> 'a sched_scheme outcome" where
  "schedcpu_one hz p s = with_proc p s (\<lambda>x.
     if p_stat x = 0 \<or> p_stat x = SZOMB then Ok s
     else if hz = 0 \<or> int32 (int32 (avenrun0 s * nrscale) + FSCALE) = 0 then Fault
     else obind (setpri p (put_proc p (decay hz (avenrun0 s) x) s)) (\<lambda>(s1, _).
       let y = procs s1 ! p in
       if PUSER \<le> p_pri y then
         (if (p \<noteq> u_procp s1 \<or> noproc s1) \<and> p_stat y = SRUN \<and> loaded y \<and> p_pri y \<noteq> p_usrpri y
          then obind (remrq p s1) (\<lambda>s2. setrq p (put_proc p (y\<lparr>p_pri := p_usrpri y\<rparr>) s2))
          else Ok (put_proc p (y\<lparr>p_pri := p_usrpri y\<rparr>) s1))
       else Ok s1))"

fun schedcpu_loop :: "int \<Rightarrow> nat list \<Rightarrow> 'a sched_scheme \<Rightarrow> 'a sched_scheme outcome" where
  "schedcpu_loop hz [] s = Ok s"
| "schedcpu_loop hz (p # ps) s = obind (schedcpu_one hz p s) (schedcpu_loop hz ps)"

text \<open>
  \<open>schedcpu\<close>, first without its last statement; the statistics of the paging system
  (\<open>vmmeter\<close>) are a parameter.
\<close>

definition schedcpu_body :: "('a sched_scheme \<Rightarrow> 'a sched_scheme outcome) \<Rightarrow> int \<Rightarrow>
    'a sched_scheme \<Rightarrow> 'a sched_scheme outcome" where
  "schedcpu_body vmmeter hz s =
     obind (wakeup (a_lbolt s) s) (\<lambda>s1.
     obind (schedcpu_loop hz [0..<length (procs s1)] s1) (\<lambda>s2.
     obind (vmmeter s2) (\<lambda>s3.
     obind (if runin s3 \<noteq> 0 then wakeup (a_runin s3) (s3\<lparr>runin := 0\<rparr>) else Ok s3) (\<lambda>s4.
     if bclnlist s4 then wakeup (a_proc s4 2) s4 else Ok s4))))"

definition schedcpu :: "('a sched_scheme \<Rightarrow> 'a sched_scheme outcome) \<Rightarrow> int \<Rightarrow>
    'a sched_scheme \<Rightarrow> 'a sched_scheme outcome" where
  "schedcpu vmmeter hz s = obind (schedcpu_body vmmeter hz s) (timeout Schedcpu 0 hz)"

section \<open>Well-formed queues\<close>

text \<open>
  A process is on the run queue \<open>31 - d\<close> only if it is ready, in core and of priority \<open>d\<close>, on
  the sleep queue of the hash value of its channel exactly if it has a channel, and a ready
  process in core is on a run queue unless it is the running one.  \<open>X\<close> holds the processes for
  which the last demand is suspended while an operation is under way.
\<close>

definition rq_fits :: "proc \<Rightarrow> nat \<Rightarrow> bool" where
  "rq_fits x d \<longleftrightarrow> p_stat x = SRUN \<and> p_wchan x = 0 \<and> loaded x \<and> p_pri x div 4 = int d"

definition rq_ok :: "proc list \<Rightarrow> nat list list \<Rightarrow> bool list \<Rightarrow> bool" where
  "rq_ok ps q w \<longleftrightarrow> length q = 32 \<and> length w = 32 \<and>
     (\<forall>d<32. (w ! d \<longleftrightarrow> q ! (31 - d) \<noteq> []) \<and> distinct (q ! (31 - d)) \<and>
        (\<forall>p\<in>set (q ! (31 - d)). p < length ps \<and> rq_fits (ps ! p) d))"

definition sq_ok :: "proc list \<Rightarrow> nat list list \<Rightarrow> bool" where
  "sq_ok ps sl \<longleftrightarrow> length sl = 64 \<and>
     (\<forall>h<64. distinct (sl ! h) \<and>
        (\<forall>p. p \<in> set (sl ! h) \<longleftrightarrow> p < length ps \<and> p_wchan (ps ! p) \<noteq> 0 \<and> HASH (p_wchan (ps ! p)) = h))"

definition proc_ok :: "proc \<Rightarrow> bool" where
  "proc_ok x \<longleftrightarrow> 0 \<le> p_pri x \<and> p_pri x \<le> 127 \<and> 0 \<le> p_usrpri x \<and> p_usrpri x \<le> 127 \<and>
     (p_wchan x \<noteq> 0 \<longrightarrow> p_stat x = SSLEEP \<or> p_stat x = SSTOP)"

definition ready_ok :: "nat set \<Rightarrow> 'a sched_scheme \<Rightarrow> bool" where
  "ready_ok X s \<longleftrightarrow> (\<forall>p<length (procs s). p_stat (procs s ! p) = SRUN \<longrightarrow> loaded (procs s ! p) \<longrightarrow>
     p \<in> X \<or> \<not> noproc s \<and> p = u_procp s \<or> (\<exists>d<32. p \<in> set (qs s ! (31 - d))))"

definition sched_inv_x :: "nat set \<Rightarrow> 'a sched_scheme \<Rightarrow> bool" where
  "sched_inv_x X s \<longleftrightarrow> rq_ok (procs s) (qs s) (whichqs s) \<and> sq_ok (procs s) (slpque s) \<and>
     (\<forall>x\<in>set (procs s). proc_ok x) \<and> ready_ok X s \<and> a_runout s \<noteq> 0"

abbreviation sched_inv :: "'a sched_scheme \<Rightarrow> bool" where
  "sched_inv s \<equiv> sched_inv_x {} s"

text \<open>What the operations on the queues leave alone.\<close>

definition sched_frame :: "'a sched_scheme \<Rightarrow> 'a sched_scheme \<Rightarrow> bool" where
  "sched_frame s s' \<longleftrightarrow> calltodo s' = calltodo s \<and> callfree s' = callfree s \<and> u_procp s' = u_procp s \<and>
     noproc s' = noproc s \<and> curpri s' = curpri s \<and> runin s' = runin s \<and> freemem s' = freemem s \<and>
     desfree s' = desfree s \<and> avenrun0 s' = avenrun0 s \<and> bclnlist s' = bclnlist s \<and>
     panicstr s' = panicstr s \<and> a_lbolt s' = a_lbolt s \<and> a_runin s' = a_runin s \<and>
     a_runout s' = a_runout s \<and> a_proc s' = a_proc s \<and> sched.more s' = sched.more s \<and>
     length (procs s') = length (procs s)"

text \<open>The running process is ready, in core and on no queue; this does not hold inside of \<open>sleep\<close>.\<close>

definition running_ok :: "'a sched_scheme \<Rightarrow> bool" where
  "running_ok s \<longleftrightarrow> noproc s \<or> u_procp s < length (procs s) \<and> p_stat (procs s ! u_procp s) = SRUN \<and>
     loaded (procs s ! u_procp s) \<and> u_procp s \<notin> set (concat (qs s))"

lemma sched_frame_refl [simp]: "sched_frame s s"
  by (simp add: sched_frame_def)

lemma sched_frame_trans: "sched_frame s s1 \<Longrightarrow> sched_frame s1 s2 \<Longrightarrow> sched_frame s s2"
  by (simp add: sched_frame_def)

lemma HASH_less [simp]: "HASH c < 64"
  by (simp add: HASH_def nat_less_iff)

lemma mem_qs_iff:
  assumes "rq_ok ps q w"
  shows "p \<in> set (concat q) \<longleftrightarrow> (\<exists>d<32. p \<in> set (q ! (31 - d)))"
proof
  assume "p \<in> set (concat q)"
  then obtain l where "l \<in> set q" "p \<in> set l" by auto
  then obtain k where k: "k < 32" "q ! k = l" using assms by (auto simp: rq_ok_def in_set_conv_nth)
  then have "31 - (31 - k) = k" by simp
  then show "\<exists>d<32. p \<in> set (q ! (31 - d))" using k \<open>p \<in> set l\<close>
    by (intro exI[of _ "31 - k"]) auto
next
  assume "\<exists>d<32. p \<in> set (q ! (31 - d))"
  then obtain d where d: "d < 32" "p \<in> set (q ! (31 - d))" by blast
  then have "q ! (31 - d) \<in> set q" using assms by (intro nth_mem) (auto simp: rq_ok_def)
  then show "p \<in> set (concat q)" using d by auto
qed

lemma mem_slpque_iff:
  assumes "sq_ok ps sl"
  shows "p \<in> set (concat sl) \<longleftrightarrow> p < length ps \<and> p_wchan (ps ! p) \<noteq> 0"
proof
  assume "p \<in> set (concat sl)"
  then obtain l where "l \<in> set sl" "p \<in> set l" by auto
  then obtain h where "h < 64" "p \<in> set (sl ! h)" using assms by (auto simp: sq_ok_def in_set_conv_nth)
  then show "p < length ps \<and> p_wchan (ps ! p) \<noteq> 0" using assms unfolding sq_ok_def by blast
next
  assume p: "p < length ps \<and> p_wchan (ps ! p) \<noteq> 0"
  let ?h = "HASH (p_wchan (ps ! p))"
  have "p \<in> set (sl ! ?h)" using assms p unfolding sq_ok_def by force
  moreover have "sl ! ?h \<in> set sl" using assms by (intro nth_mem) (simp add: sq_ok_def)
  ultimately show "p \<in> set (concat sl)" by auto
qed

lemma rq_ok_update:
  assumes "rq_ok ps q w" and "\<And>d. d < 32 \<Longrightarrow> p \<in> set (q ! (31 - d)) \<Longrightarrow> rq_fits x d"
  shows "rq_ok (ps[p := x]) q w"
proof -
  have "r < length (ps[p := x]) \<and> rq_fits (ps[p := x] ! r) d" if "d < 32" "r \<in> set (q ! (31 - d))" for r d
  proof -
    have "r < length ps" "rq_fits (ps ! r) d" using assms(1) that by (auto simp: rq_ok_def)
    then show ?thesis using assms(2) that by (cases "r = p") auto
  qed
  then show ?thesis using assms(1) by (simp add: rq_ok_def)
qed

lemma rq_ok_update_off:
  assumes "rq_ok ps q w" and "p \<notin> set (concat q)"
  shows "rq_ok (ps[p := x]) q w"
  by (rule rq_ok_update[OF assms(1)]) (use assms(2) mem_qs_iff[OF assms(1)] in blast)

lemma sq_ok_update:
  assumes "sq_ok ps sl" and "p < length ps" and "p_wchan x = p_wchan (ps ! p)"
  shows "sq_ok (ps[p := x]) sl"
proof -
  have "p_wchan (ps[p := x] ! r) = p_wchan (ps ! r)" for r using assms(2,3) by (cases "r = p") auto
  then show ?thesis using assms(1) by (simp add: sq_ok_def)
qed

lemma proc_ok_update:
  "(\<forall>x\<in>set ps. proc_ok x) \<Longrightarrow> proc_ok y \<Longrightarrow> \<forall>x\<in>set (ps[p := y]). proc_ok x"
  using set_update_subset_insert[of ps p y] by blast

lemma put_proc_simps [simp]:
  "procs (put_proc p x s) = (procs s)[p := x]" "qs (put_proc p x s) = qs s"
  "whichqs (put_proc p x s) = whichqs s" "slpque (put_proc p x s) = slpque s"
  "noproc (put_proc p x s) = noproc s" "u_procp (put_proc p x s) = u_procp s"
  "runout (put_proc p x s) = runout s" "a_runout (put_proc p x s) = a_runout s"
  "curpri (put_proc p x s) = curpri s" "sched_frame s (put_proc p x s)"
  by (simp_all add: put_proc_def sched_frame_def)

lemma rq_fits_cong:
  "p_stat y = p_stat x \<Longrightarrow> p_wchan y = p_wchan x \<Longrightarrow> loaded y = loaded x \<Longrightarrow> p_pri y = p_pri x \<Longrightarrow>
     rq_fits y d = rq_fits x d"
  by (simp add: rq_fits_def)

text \<open>A change of a process that its place on the queues does not depend on.\<close>

lemma sched_inv_put:
  assumes "sched_inv_x X s" and "p < length (procs s)"
    and "p_stat y = p_stat (procs s ! p)" "p_wchan y = p_wchan (procs s ! p)"
      "loaded y = loaded (procs s ! p)" "p_pri y = p_pri (procs s ! p)" and "proc_ok y"
  shows "sched_inv_x X (put_proc p y s)"
proof -
  have "rq_ok ((procs s)[p := y]) (qs s) (whichqs s)"
  proof (rule rq_ok_update)
    show rq: "rq_ok (procs s) (qs s) (whichqs s)" using assms(1) by (simp add: sched_inv_x_def)
    show "rq_fits y d" if "d < 32" "p \<in> set (qs s ! (31 - d))" for d
    proof -
      have "rq_fits (procs s ! p) d" using rq that by (simp add: rq_ok_def)
      then show ?thesis using rq_fits_cong assms(3-6) by blast
    qed
  qed
  moreover have "sq_ok ((procs s)[p := y]) (slpque s)"
    using assms by (intro sq_ok_update) (auto simp: sched_inv_x_def)
  moreover have "\<forall>x\<in>set ((procs s)[p := y]). proc_ok x"
    using assms by (intro proc_ok_update) (auto simp: sched_inv_x_def)
  moreover have "ready_ok X (put_proc p y s)"
    using assms by (auto simp: sched_inv_x_def ready_ok_def nth_list_update)
  ultimately show ?thesis using assms(1) by (simp add: sched_inv_x_def)
qed

lemma pri_div: "0 \<le> p_pri x \<Longrightarrow> p_pri x \<le> 127 \<Longrightarrow> nat ((p_pri x mod 256) div 4) < 32 \<and>
    int (nat ((p_pri x mod 256) div 4)) = p_pri x div 4"
  using zdiv_mono1[of "p_pri x" 127 4] by (simp add: nat_less_iff pos_imp_zdiv_nonneg_iff)

lemma setrq_Ok:
  assumes inv: "sched_inv_x X s" and p: "p < length (procs s)"
    and "p_stat (procs s ! p) = SRUN" "p_wchan (procs s ! p) = 0" "loaded (procs s ! p)"
    and nq: "p \<notin> set (concat (qs s))"
  defines "d \<equiv> nat ((p_pri (procs s ! p) mod 256) div 4)"
  shows "setrq p s = Ok (s\<lparr>qs := (qs s)[31 - d := qs s ! (31 - d) @ [p]],
      whichqs := (whichqs s)[d := True]\<rparr>)"
    and "sched_inv_x (X - {p}) (s\<lparr>qs := (qs s)[31 - d := qs s ! (31 - d) @ [p]],
      whichqs := (whichqs s)[d := True]\<rparr>)"
proof -
  have ok: "proc_ok (procs s ! p)" using inv p by (simp add: sched_inv_x_def)
  have d: "d < 32" "int d = p_pri (procs s ! p) div 4"
    using pri_div[of "procs s ! p"] ok by (auto simp: d_def proc_ok_def)
  have rq: "rq_ok (procs s) (qs s) (whichqs s)" and sq: "sq_ok (procs s) (slpque s)"
    using inv by (simp_all add: sched_inv_x_def)
  have "\<not> linked p s" using nq mem_slpque_iff[OF sq] assms(4) by (simp add: linked_def)
  then show "setrq p s = Ok (s\<lparr>qs := (qs s)[31 - d := qs s ! (31 - d) @ [p]],
      whichqs := (whichqs s)[d := True]\<rparr>)"
    using p d(1) by (simp add: setrq_def with_proc_def d_def NQS_def Let_def)
  have nd: "p \<notin> set (qs s ! (31 - d))" using nq mem_qs_iff[OF rq] d(1) by blast
  have fit: "rq_fits (procs s ! p) d" using assms(3-5) d(2) by (simp add: rq_fits_def)
  have "rq_ok (procs s) ((qs s)[31 - d := qs s ! (31 - d) @ [p]]) ((whichqs s)[d := True])"
    unfolding rq_ok_def
  proof (intro conjI allI impI)
    show "length ((qs s)[31 - d := qs s ! (31 - d) @ [p]]) = 32" "length ((whichqs s)[d := True]) = 32"
      using rq by (simp_all add: rq_ok_def)
  next
    fix e :: nat assume e: "e < 32"
    have l: "length (qs s) = 32" "length (whichqs s) = 32" using rq by (simp_all add: rq_ok_def)
    have r: "(whichqs s ! e \<longleftrightarrow> qs s ! (31 - e) \<noteq> []) \<and> distinct (qs s ! (31 - e)) \<and>
        (\<forall>q\<in>set (qs s ! (31 - e)). q < length (procs s) \<and> rq_fits (procs s ! q) e)"
      using rq e by (simp add: rq_ok_def)
    have ne: "31 - e = 31 - d \<longleftrightarrow> e = d" using e d(1) by linarith
    show "((whichqs s)[d := True] ! e) = ((qs s)[31 - d := qs s ! (31 - d) @ [p]] ! (31 - e) \<noteq> [])"
      "distinct ((qs s)[31 - d := qs s ! (31 - d) @ [p]] ! (31 - e))"
      using r ne e d(1) l nd by (cases "e = d"; simp)+
    show "\<forall>q\<in>set ((qs s)[31 - d := qs s ! (31 - d) @ [p]] ! (31 - e)).
        q < length (procs s) \<and> rq_fits (procs s ! q) e"
      using r ne e d(1) l p fit by (cases "e = d"; auto)
  qed
  moreover have "ready_ok (X - {p}) (s\<lparr>qs := (qs s)[31 - d := qs s ! (31 - d) @ [p]],
      whichqs := (whichqs s)[d := True]\<rparr>)"
    unfolding ready_ok_def
  proof (intro allI impI)
    fix q assume q: "q < length (procs (s\<lparr>qs := (qs s)[31 - d := qs s ! (31 - d) @ [p]],
      whichqs := (whichqs s)[d := True]\<rparr>))"
      "p_stat (procs (s\<lparr>qs := (qs s)[31 - d := qs s ! (31 - d) @ [p]],
      whichqs := (whichqs s)[d := True]\<rparr>) ! q) = SRUN"
      "loaded (procs (s\<lparr>qs := (qs s)[31 - d := qs s ! (31 - d) @ [p]],
      whichqs := (whichqs s)[d := True]\<rparr>) ! q)"
    have l: "length (qs s) = 32" using rq by (simp add: rq_ok_def)
    have "\<exists>e<32. q \<in> set ((qs s)[31 - d := qs s ! (31 - d) @ [p]] ! (31 - e))"
      if "q = p \<or> (\<exists>e<32. q \<in> set (qs s ! (31 - e)))"
      using that
    proof
      assume "q = p"
      then show ?thesis using d(1) l by (intro exI[of _ d]) simp
    next
      assume "\<exists>e<32. q \<in> set (qs s ! (31 - e))"
      then obtain e where "e < 32" "q \<in> set (qs s ! (31 - e))" by blast
      then show ?thesis using l by (intro exI[of _ e]) (auto simp: nth_list_update)
    qed
    then show "q \<in> X - {p} \<or> \<not> noproc (s\<lparr>qs := (qs s)[31 - d := qs s ! (31 - d) @ [p]],
        whichqs := (whichqs s)[d := True]\<rparr>) \<and> q = u_procp (s\<lparr>qs := (qs s)[31 - d := qs s ! (31 - d) @ [p]],
        whichqs := (whichqs s)[d := True]\<rparr>) \<or>
      (\<exists>e<32. q \<in> set (qs (s\<lparr>qs := (qs s)[31 - d := qs s ! (31 - d) @ [p]],
        whichqs := (whichqs s)[d := True]\<rparr>) ! (31 - e)))"
      using inv q unfolding sched_inv_x_def ready_ok_def by fastforce
  qed
  ultimately show "sched_inv_x (X - {p}) (s\<lparr>qs := (qs s)[31 - d := qs s ! (31 - d) @ [p]],
      whichqs := (whichqs s)[d := True]\<rparr>)"
    using inv by (simp add: sched_inv_x_def)
qed

lemma in_concat_update: "k < length l \<Longrightarrow> p \<in> set a \<Longrightarrow> p \<in> set (concat (l[k := a]))"
  using set_update_memI[of k l a] by auto

lemma concat_update_subset: "set (concat (l[k := l ! k @ [p]])) \<subseteq> insert p (set (concat l))"
proof (cases "k < length l")
  case True
  then have "set (l[k := l ! k @ [p]]) \<subseteq> insert (l ! k @ [p]) (set l)" "l ! k \<in> set l"
    by (simp_all add: set_update_subset_insert)
  then show ?thesis by fastforce
next
  case False
  then have "l[k := l ! k @ [p]] = l" by (intro list_update_beyond) simp
  then show ?thesis by (simp only: subset_insertI)
qed

lemma running_put: "running_ok s \<Longrightarrow> noproc s \<or> p \<noteq> u_procp s \<or> p_stat x = SRUN \<and> loaded x \<Longrightarrow>
     running_ok (put_proc p x s)"
  by (cases "p = u_procp s") (auto simp: running_ok_def)

lemma running_fields:
  "running_ok s \<Longrightarrow> procs t = procs s \<Longrightarrow> qs t = qs s \<Longrightarrow> noproc t = noproc s \<Longrightarrow> u_procp t = u_procp s \<Longrightarrow>
     running_ok t"
  by (simp add: running_ok_def)

lemma setrq_spec:
  assumes inv: "sched_inv_x X s" and p: "p < length (procs s)"
    and "p_stat (procs s ! p) = SRUN" "p_wchan (procs s ! p) = 0" "loaded (procs s ! p)"
    and nq: "p \<notin> set (concat (qs s))"
  shows "\<exists>s'. setrq p s = Ok s' \<and> sched_inv_x (X - {p}) s' \<and> slpque s' = slpque s \<and>
    runout s' = runout s \<and> procs s' = procs s \<and> sched_frame s s' \<and> p \<in> set (concat (qs s')) \<and>
    (noproc s \<or> p \<noteq> u_procp s \<longrightarrow> running_ok s \<longrightarrow> running_ok s')"
proof -
  let ?d = "nat ((p_pri (procs s ! p) mod 256) div 4)"
  have "31 - ?d < length (qs s)" using inv by (simp add: sched_inv_x_def rq_ok_def)
  then have "p \<in> set (concat ((qs s)[31 - ?d := qs s ! (31 - ?d) @ [p]]))"
    by (rule in_concat_update) simp
  moreover have "running_ok (s\<lparr>qs := (qs s)[31 - ?d := qs s ! (31 - ?d) @ [p]], whichqs := w\<rparr>)"
    if "noproc s \<or> p \<noteq> u_procp s" "running_ok s" for w
  proof -
    have "set (concat ((qs s)[31 - ?d := qs s ! (31 - ?d) @ [p]])) \<subseteq> insert p (set (concat (qs s)))"
      by (rule concat_update_subset)
    then show ?thesis using that unfolding running_ok_def by auto
  qed
  ultimately show ?thesis using setrq_Ok[OF assms] by (simp add: sched_frame_def)
qed

lemma sched_inv_fields:
  "sched_inv_x X s \<Longrightarrow> procs t = procs s \<Longrightarrow> qs t = qs s \<Longrightarrow> whichqs t = whichqs s \<Longrightarrow>
     slpque t = slpque s \<Longrightarrow> noproc t = noproc s \<Longrightarrow> u_procp t = u_procp s \<Longrightarrow>
     a_runout t = a_runout s \<Longrightarrow> sched_inv_x X t"
  by (simp add: sched_inv_x_def ready_ok_def)

lemma kick_simps [simp]:
  "procs (kick x s) = procs s" "qs (kick x s) = qs s" "whichqs (kick x s) = whichqs s"
  "slpque (kick x s) = slpque s" "noproc (kick x s) = noproc s" "u_procp (kick x s) = u_procp s"
  "runout (kick x s) = runout s" "a_runout (kick x s) = a_runout s" "sched_frame s (kick x s)"
  by (simp_all add: kick_def sched_frame_def)

lemma kick_inv [simp]: "sched_inv_x X s \<Longrightarrow> sched_inv_x X (kick pri s)"
  by (rule sched_inv_fields) simp_all

lemma waiting_not_queued:
  assumes "sched_inv_x X s" and "p_stat (procs s ! p) \<noteq> SRUN"
  shows "p \<notin> set (concat (qs s))"
proof -
  have rq: "rq_ok (procs s) (qs s) (whichqs s)" using assms(1) by (simp add: sched_inv_x_def)
  show ?thesis using assms(2) rq unfolding mem_qs_iff[OF rq] by (auto simp: rq_ok_def rq_fits_def)
qed

lemma remrq_Ok:
  assumes inv: "sched_inv_x X s" and p: "p < length (procs s)" and q: "p \<in> set (concat (qs s))"
  defines "d \<equiv> nat ((p_pri (procs s ! p) mod 256) div 4)"
    and "q' \<equiv> removeAll p (qs s ! (31 - nat ((p_pri (procs s ! p) mod 256) div 4)))"
  shows "remrq p s = Ok (s\<lparr>qs := (qs s)[31 - d := q'],
      whichqs := (if q' = [] then (whichqs s)[d := False] else whichqs s)\<rparr>)"
    and "sched_inv_x (insert p X) (s\<lparr>qs := (qs s)[31 - d := q'],
      whichqs := (if q' = [] then (whichqs s)[d := False] else whichqs s)\<rparr>)"
    and "p \<notin> set (concat ((qs s)[31 - d := q']))"
proof -
  have ok: "proc_ok (procs s ! p)" using inv p by (simp add: sched_inv_x_def)
  have d: "d < 32" "int d = p_pri (procs s ! p) div 4"
    using pri_div[of "procs s ! p"] ok by (auto simp: d_def proc_ok_def)
  have q': "q' = removeAll p (qs s ! (31 - d))" by (simp add: q'_def d_def)
  have rq: "rq_ok (procs s) (qs s) (whichqs s)" using inv by (simp add: sched_inv_x_def)
  then have l: "length (qs s) = 32" "length (whichqs s) = 32" by (simp_all add: rq_ok_def)
  have only: "e = d" if "e < 32" "p \<in> set (qs s ! (31 - e))" for e
  proof -
    have "rq_fits (procs s ! p) e" using rq that by (simp add: rq_ok_def)
    then show ?thesis using d(2) by (simp add: rq_fits_def)
  qed
  have pd: "p \<in> set (qs s ! (31 - d))" using q only d(1) unfolding mem_qs_iff[OF rq] by blast
  then have wd: "whichqs s ! d" using rq d(1) by (force simp: rq_ok_def)
  show "remrq p s = Ok (s\<lparr>qs := (qs s)[31 - d := q'],
      whichqs := (if q' = [] then (whichqs s)[d := False] else whichqs s)\<rparr>)"
    using p d(1) pd wd by (simp add: remrq_def with_proc_def NQS_def Let_def d_def[symmetric] q')
  let ?qs = "(qs s)[31 - d := q']"
  let ?w = "if q' = [] then (whichqs s)[d := False] else whichqs s"
  have e: "(?w ! e \<longleftrightarrow> ?qs ! (31 - e) \<noteq> []) \<and> distinct (?qs ! (31 - e)) \<and>
      set (?qs ! (31 - e)) = set (qs s ! (31 - e)) - {p}" if "e < 32" for e
  proof -
    have "31 - e = 31 - d \<longleftrightarrow> e = d" using that d(1) by linarith
    note ne = this
    have r: "whichqs s ! e \<longleftrightarrow> qs s ! (31 - e) \<noteq> []" "distinct (qs s ! (31 - e))"
      using rq that by (simp_all add: rq_ok_def)
    show ?thesis
    proof (cases "e = d")
      case True
      then have "?qs ! (31 - e) = q'" using l d(1) by simp
      moreover have "?w ! e \<longleftrightarrow> q' \<noteq> []" using True l d(1) wd by simp
      ultimately show ?thesis using True r(2) q' by (simp only: distinct_removeAll set_removeAll)
    next
      case False
      then have "?qs ! (31 - e) = qs s ! (31 - e)" "?w ! e = whichqs s ! e" using ne by simp_all
      moreover have "p \<notin> set (qs s ! (31 - e))" using only[OF that] False by blast
      ultimately show ?thesis using r by auto
    qed
  qed
  have "rq_ok (procs s) ?qs ?w"
    unfolding rq_ok_def
  proof (intro conjI allI impI)
    show "length ?qs = 32" "length ?w = 32" using l by simp_all
    fix c :: nat assume c: "c < 32"
    show "(?w ! c) = (?qs ! (31 - c) \<noteq> [])" "distinct (?qs ! (31 - c))" using e[OF c] by blast+
    have "\<forall>r\<in>set (qs s ! (31 - c)). r < length (procs s) \<and> rq_fits (procs s ! r) c"
      using rq c by (simp add: rq_ok_def)
    then show "\<forall>r\<in>set (?qs ! (31 - c)). r < length (procs s) \<and> rq_fits (procs s ! r) c"
      using e[OF c] by blast
  qed
  moreover have "ready_ok (insert p X) (s\<lparr>qs := ?qs, whichqs := ?w\<rparr>)"
    unfolding ready_ok_def
  proof (intro allI impI)
    fix r assume r: "r < length (procs (s\<lparr>qs := ?qs, whichqs := ?w\<rparr>))"
      "p_stat (procs (s\<lparr>qs := ?qs, whichqs := ?w\<rparr>) ! r) = SRUN" "loaded (procs (s\<lparr>qs := ?qs, whichqs := ?w\<rparr>) ! r)"
    have "ready_ok X s" using inv by (simp add: sched_inv_x_def)
    then have "r \<in> X \<or> \<not> noproc s \<and> r = u_procp s \<or> (\<exists>c<32. r \<in> set (qs s ! (31 - c)))"
      using r by (simp add: ready_ok_def)
    moreover have "r = p \<or> (\<exists>c<32. r \<in> set (?qs ! (31 - c)))"
      if "\<exists>c<32. r \<in> set (qs s ! (31 - c))" using e that by blast
    ultimately have "r \<in> insert p X \<or> \<not> noproc s \<and> r = u_procp s \<or> (\<exists>c<32. r \<in> set (?qs ! (31 - c)))"
      by blast
    then show "r \<in> insert p X \<or> \<not> noproc (s\<lparr>qs := ?qs, whichqs := ?w\<rparr>) \<and> r = u_procp (s\<lparr>qs := ?qs, whichqs := ?w\<rparr>) \<or>
        (\<exists>c<32. r \<in> set (qs (s\<lparr>qs := ?qs, whichqs := ?w\<rparr>) ! (31 - c)))"
      by simp
  qed
  ultimately show "sched_inv_x (insert p X) (s\<lparr>qs := ?qs, whichqs := ?w\<rparr>)"
    using inv by (simp add: sched_inv_x_def)
  show "p \<notin> set (concat ?qs)"
    using mem_qs_iff[OF \<open>rq_ok (procs s) ?qs ?w\<close>] e by auto
qed

lemma remrq_spec:
  assumes inv: "sched_inv_x X s" and p: "p < length (procs s)" and q: "p \<in> set (concat (qs s))"
  shows "\<exists>s'. remrq p s = Ok s' \<and> sched_inv_x (insert p X) s' \<and> procs s' = procs s \<and>
    p \<notin> set (concat (qs s')) \<and> sched_frame s s' \<and> set (concat (qs s')) \<subseteq> set (concat (qs s))"
proof -
  let ?d = "nat ((p_pri (procs s ! p) mod 256) div 4)"
  let ?q = "removeAll p (qs s ! (31 - ?d))"
  have "31 - ?d < length (qs s)" using inv by (simp add: sched_inv_x_def rq_ok_def)
  then have "qs s ! (31 - ?d) \<in> set (qs s)" by (rule nth_mem)
  then have "set ?q \<subseteq> set (concat (qs s))" by auto
  moreover have "set ((qs s)[31 - ?d := ?q]) \<subseteq> insert ?q (set (qs s))" by (rule set_update_subset_insert)
  ultimately have "set (concat ((qs s)[31 - ?d := ?q])) \<subseteq> set (concat (qs s))" by fastforce
  note sub = this
  let ?s = "s\<lparr>qs := (qs s)[31 - ?d := ?q], whichqs := (if ?q = [] then (whichqs s)[?d := False] else whichqs s)\<rparr>"
  note r = remrq_Ok[OF assms]
  have e: "procs ?s = procs s" "qs ?s = (qs s)[31 - ?d := ?q]" "sched_frame s ?s"
    by (simp_all add: sched_frame_def)
  show ?thesis
    by (rule exI[of _ ?s], intro conjI) (rule r(1), rule r(2), rule e(1),
      simp only: e(2) r(3) not_False_eq_True, rule e(3), simp only: e(2) sub)
qed

text \<open>Taking a process off its sleep queue.\<close>

lemma sq_ok_detach:
  assumes "sq_ok ps sl" and "p < length ps" and "p_wchan x = 0"
  shows "sq_ok (ps[p := x]) (map (removeAll p) sl)"
  unfolding sq_ok_def
proof (intro conjI allI impI)
  show "length (map (removeAll p) sl) = 64" using assms(1) by (simp add: sq_ok_def)
next
  fix h :: nat assume h: "h < 64"
  then have l: "map (removeAll p) sl ! h = removeAll p (sl ! h)" using assms(1) by (simp add: sq_ok_def)
  show "distinct (map (removeAll p) sl ! h)" using assms(1) h l by (simp add: sq_ok_def distinct_removeAll)
  fix q
  have "q \<in> set (sl ! h) \<longleftrightarrow> q < length ps \<and> p_wchan (ps ! q) \<noteq> 0 \<and> HASH (p_wchan (ps ! q)) = h"
    using assms(1) h by (simp add: sq_ok_def)
  then show "q \<in> set (map (removeAll p) sl ! h) \<longleftrightarrow> q < length (ps[p := x]) \<and>
      p_wchan (ps[p := x] ! q) \<noteq> 0 \<and> HASH (p_wchan (ps[p := x] ! q)) = h"
    using l assms(2,3) by (cases "q = p") auto
qed

lemma detach_put:
  assumes inv: "sched_inv_x X s" and p: "p < length (procs s)" and w: "p_wchan (procs s ! p) \<noteq> 0"
    and x: "p_wchan x = 0" "p_stat x \<noteq> SRUN" "proc_ok x"
  shows "sched_inv_x X (put_proc p x (s\<lparr>slpque := map (removeAll p) (slpque s)\<rparr>))"
proof -
  have st: "p_stat (procs s ! p) \<noteq> SRUN"
    using inv p w by (auto simp: sched_inv_x_def proc_ok_def stat_defs)
  have nq: "p \<notin> set (concat (qs s))" by (rule waiting_not_queued[OF inv st])
  have rq: "rq_ok (procs s) (qs s) (whichqs s)" using inv by (simp add: sched_inv_x_def)
  have "rq_ok ((procs s)[p := x]) (qs s) (whichqs s)"
    by (rule rq_ok_update_off[OF rq nq])
  moreover have "sq_ok ((procs s)[p := x]) (map (removeAll p) (slpque s))"
    using inv p x(1) by (intro sq_ok_detach) (auto simp: sched_inv_x_def)
  moreover have "\<forall>x\<in>set ((procs s)[p := x]). proc_ok x"
    using inv x(3) by (intro proc_ok_update) (auto simp: sched_inv_x_def)
  moreover have "ready_ok X (put_proc p x (s\<lparr>slpque := map (removeAll p) (slpque s)\<rparr>))"
    using inv x(2) p by (auto simp: sched_inv_x_def ready_ok_def nth_list_update)
  ultimately show ?thesis using inv by (simp add: sched_inv_x_def)
qed

definition asleep :: "proc \<Rightarrow> proc" where
  "asleep x = x\<lparr>p_wchan := 0, p_slptime := 0\<rparr>"

lemma wake_out_eq:
  "p < length (procs s) \<Longrightarrow>
     wake_out p s = put_proc p (asleep (procs s ! p)) (s\<lparr>slpque := map (removeAll p) (slpque s)\<rparr>)"
  by (simp add: wake_out_def detach_def put_proc_def asleep_def)

lemma wake_out_inv:
  assumes "sched_inv_x X s" and "p < length (procs s)" and "p_wchan (procs s ! p) \<noteq> 0"
  shows "sched_inv_x X (wake_out p s)"
proof -
  have "proc_ok (procs s ! p)" using assms(1,2) by (simp add: sched_inv_x_def)
  then have "p_wchan (asleep (procs s ! p)) = 0" "p_stat (asleep (procs s ! p)) \<noteq> SRUN"
    "proc_ok (asleep (procs s ! p))"
    using assms(3) by (auto simp: asleep_def proc_ok_def stat_defs)
  then show ?thesis unfolding wake_out_eq[OF assms(2)] by (intro detach_put assms)
qed

lemma wake_out_simps [simp]:
  "p < length (procs s) \<Longrightarrow> procs (wake_out p s) = (procs s)[p := asleep (procs s ! p)]"
  "p < length (procs s) \<Longrightarrow> slpque (wake_out p s) = map (removeAll p) (slpque s)"
  "p < length (procs s) \<Longrightarrow> runout (wake_out p s) = runout s"
  "p < length (procs s) \<Longrightarrow> a_runout (wake_out p s) = a_runout s"
  by (simp_all add: wake_out_eq)

lemma wake_out_running:
  assumes "p < length (procs s)" "p_stat (procs s ! p) \<noteq> SRUN" "running_ok s"
  shows "running_ok (wake_out p s)"
  unfolding wake_out_eq[OF assms(1)]
  by (rule running_put) (use assms in \<open>auto simp: running_ok_def\<close>)

lemma wake_out_frame: "p < length (procs s) \<Longrightarrow> sched_frame s (wake_out p s)"
  by (simp add: wake_out_eq put_proc_def sched_frame_def)

lemma sum_list_removeAll:
  "sum_list (map (\<lambda>l. length (removeAll p l)) sl) \<le> sum_list (map length sl)"
  "p \<in> set (concat sl) \<Longrightarrow>
     sum_list (map (\<lambda>l. length (removeAll p l)) sl) < sum_list (map length sl)"
proof -
  show le: "sum_list (map (\<lambda>l. length (removeAll p l)) sl) \<le> sum_list (map length sl)" for sl
    by (intro sum_list_mono) (simp add: length_removeAll_less_eq)
  show "p \<in> set (concat sl) \<Longrightarrow>
     sum_list (map (\<lambda>l. length (removeAll p l)) sl) < sum_list (map length sl)"
  proof (induction sl)
    case (Cons a sl)
    show ?case
    proof (cases "p \<in> set a")
      case True
      then show ?thesis using le[of sl] length_removeAll_less[OF True] by (simp add: add_less_le_mono)
    next
      case False
      then show ?thesis using Cons by simp
    qed
  qed simp
qed

lemma sleepers_wake_out:
  assumes "sched_inv_x X s" and "p < length (procs s)" and "p_wchan (procs s ! p) \<noteq> 0"
  shows "sleepers (wake_out p s) < sleepers s"
proof -
  have "p \<in> set (concat (slpque s))"
    using mem_slpque_iff[of "procs s" "slpque s" p] assms by (simp add: sched_inv_x_def)
  then show ?thesis using sum_list_removeAll(2) assms(2) by (simp add: sleepers_def o_def)
qed

section \<open>Waking up\<close>

text \<open>A process after \<open>wakeup\<close>, and the processes a call of \<open>wakeup(chan)\<close> reaches.\<close>

definition woken :: "proc \<Rightarrow> proc" where
  "woken x = (if p_stat x = SSLEEP then (asleep x)\<lparr>p_stat := SRUN\<rparr> else asleep x)"

definition waits_on :: "int \<Rightarrow> 'a sched_scheme \<Rightarrow> nat set" where
  "waits_on chan s = {p. p < length (procs s) \<and> p_wchan (procs s ! p) = chan}"

definition swaps_in :: "int \<Rightarrow> 'a sched_scheme \<Rightarrow> bool" where
  "swaps_in chan s \<longleftrightarrow> runout s \<noteq> 0 \<and>
     (\<exists>p\<in>waits_on chan s. p_stat (procs s ! p) = SSLEEP \<and> \<not> loaded (procs s ! p))"

definition wakes :: "int \<Rightarrow> 'a sched_scheme \<Rightarrow> nat set" where
  "wakes chan s = (if swaps_in chan s then waits_on chan s \<union> waits_on (a_runout s) s
     else waits_on chan s)"

definition woken_as :: "nat set \<Rightarrow> 'a sched_scheme \<Rightarrow> 'a sched_scheme \<Rightarrow> bool" where
  "woken_as W s s' \<longleftrightarrow> length (procs s') = length (procs s) \<and>
     (\<forall>p<length (procs s). procs s' ! p = (if p \<in> W then woken (procs s ! p) else procs s ! p))"

lemma woken_simps [simp]:
  "p_wchan (woken x) = 0" "p_pri (woken x) = p_pri x" "loaded (woken x) = loaded x"
  "p_stat (woken x) = (if p_stat x = SSLEEP then SRUN else p_stat x)"
  "p_wchan (asleep x) = 0" "p_pri (asleep x) = p_pri x" "loaded (asleep x) = loaded x"
  "p_stat (asleep x) = p_stat x"
  by (simp_all add: woken_def asleep_def loaded_def)

lemma wscan_found:
  assumes inv: "sched_inv_x X s" and "set q \<subseteq> set (slpque s ! HASH chan)" and "distinct q"
    and "waits_on chan s \<subseteq> set q"
  shows "wscan m (procs s) chan q = Ok None \<and> waits_on chan s = {} \<or>
    (\<exists>p q'. wscan m (procs s) chan q = Ok (Some (p, q')) \<and> p < length (procs s) \<and>
       p_wchan (procs s ! p) = chan \<and> chan \<noteq> 0 \<and> set q' \<subseteq> set q - {p} \<and> distinct q' \<and>
       waits_on chan s \<subseteq> insert p (set q'))"
  using assms(2-4)
proof (induction q)
  case Nil
  then show ?case by simp
next
  case (Cons p q)
  have sq: "sq_ok (procs s) (slpque s)" using inv by (simp add: sched_inv_x_def)
  have "p \<in> set (slpque s ! HASH chan)" using Cons.prems by simp
  then have p: "p < length (procs s)" "p_wchan (procs s ! p) \<noteq> 0"
    using sq HASH_less[of chan] unfolding sq_ok_def by blast+
  have st: "p_stat (procs s ! p) = SSLEEP \<or> p_stat (procs s ! p) = SSTOP"
    using inv p by (simp add: sched_inv_x_def proc_ok_def)
  show ?case
  proof (cases "p_wchan (procs s ! p) = chan")
    case True
    then show ?thesis using p st Cons.prems by auto
  next
    case False
    then have "waits_on chan s \<subseteq> set q" using Cons.prems(3) by (auto simp: waits_on_def)
    then have "wscan m (procs s) chan q = Ok None \<and> waits_on chan s = {} \<or>
      (\<exists>r q'. wscan m (procs s) chan q = Ok (Some (r, q')) \<and> r < length (procs s) \<and>
       p_wchan (procs s ! r) = chan \<and> chan \<noteq> 0 \<and> set q' \<subseteq> set q - {r} \<and> distinct q' \<and>
       waits_on chan s \<subseteq> insert r (set q'))"
      using Cons by simp
    moreover have "wscan m (procs s) chan (p # q) = wscan m (procs s) chan q" using p st False by auto
    ultimately show ?thesis by auto
  qed
qed

text \<open>A process that is marked ready but is not queued yet.\<close>

lemma made_ready:
  assumes inv: "sched_inv s" and p: "p < length (procs s)" and w: "p_wchan (procs s ! p) = 0"
    and st: "p_stat (procs s ! p) \<noteq> SRUN"
  shows "p \<notin> set (concat (qs s))"
    and "sched_inv_x (if loaded (procs s ! p) then {p} else {})
      (put_proc p ((procs s ! p)\<lparr>p_stat := SRUN\<rparr>) s)"
proof -
  let ?x = "(procs s ! p)\<lparr>p_stat := SRUN\<rparr>"
  let ?s1 = "put_proc p ?x s"
  show nq: "p \<notin> set (concat (qs s))" by (rule waiting_not_queued[OF inv st])
  have rq: "rq_ok (procs s) (qs s) (whichqs s)" using inv by (simp add: sched_inv_x_def)
  have okx: "proc_ok ?x" using inv p w by (simp add: sched_inv_x_def proc_ok_def)
  show "sched_inv_x (if loaded (procs s ! p) then {p} else {}) ?s1"
    unfolding sched_inv_x_def
  proof (intro conjI)
    show "rq_ok (procs ?s1) (qs ?s1) (whichqs ?s1)"
      unfolding put_proc_simps by (rule rq_ok_update_off[OF rq nq])
    show "sq_ok (procs ?s1) (slpque ?s1)"
      using sq_ok_update[of "procs s" "slpque s" p ?x] inv p by (simp add: sched_inv_x_def)
    show "\<forall>x\<in>set (procs ?s1). proc_ok x"
      using inv okx proc_ok_update[of "procs s" ?x p] by (simp add: sched_inv_x_def)
    show "ready_ok (if loaded (procs s ! p) then {p} else {}) ?s1"
      using inv p unfolding sched_inv_x_def ready_ok_def by (simp add: nth_list_update)
    show "a_runout ?s1 \<noteq> 0" using inv by (simp add: sched_inv_x_def)
  qed
qed

text \<open>What \<open>run_it\<close> needs of the nested call of \<open>wakeup\<close>, and what it does.\<close>

lemma run_it_loaded:
  assumes inv: "sched_inv s" and p: "p < length (procs s)" and w: "p_wchan (procs s ! p) = 0"
    and st: "p_stat (procs s ! p) \<noteq> SRUN" and ld: "loaded (procs s ! p)"
  shows "\<exists>s'. run_it wake p s = Ok s' \<and> sched_inv s' \<and> sched_frame s s' \<and> slpque s' = slpque s \<and>
    runout s' = runout s \<and> procs s' = (procs s)[p := (procs s ! p)\<lparr>p_stat := SRUN\<rparr>] \<and>
    p \<in> set (concat (qs s')) \<and> (running_ok s \<longrightarrow> running_ok s')"
proof -
  let ?x = "(procs s ! p)\<lparr>p_stat := SRUN\<rparr>"
  let ?s1 = "put_proc p ?x s"
  note nq = made_ready(1)[OF inv p w st]
  have i1: "sched_inv_x {p} ?s1" using made_ready(2)[OF inv p w st] ld by simp
  obtain s2 where s2: "setrq p ?s1 = Ok s2" "sched_inv_x ({p} - {p}) s2" "slpque s2 = slpque ?s1"
    "runout s2 = runout ?s1" "procs s2 = procs ?s1" "sched_frame ?s1 s2" "p \<in> set (concat (qs s2))"
    "noproc ?s1 \<or> p \<noteq> u_procp ?s1 \<longrightarrow> running_ok ?s1 \<longrightarrow> running_ok s2"
    using setrq_spec[OF i1, of p] p w ld nq by auto
  have ro: "running_ok (kick (p_pri ?x) s2)" if "running_ok s"
  proof -
    have "noproc s \<or> p \<noteq> u_procp s" using that st by (auto simp: running_ok_def)
    moreover have "running_ok ?s1" by (rule running_put[OF that]) (use that st in \<open>auto simp: running_ok_def\<close>)
    ultimately have "running_ok s2" using s2(8) by simp
    then show ?thesis by (rule running_fields) simp_all
  qed
  have "run_it wake p s = Ok (kick (p_pri ?x) s2)"
    using s2(1) ld by (simp add: run_it_def Let_def)
  moreover have "sched_frame s (kick (p_pri ?x) s2)"
    by (rule sched_frame_trans[OF sched_frame_trans[OF _ s2(6)]]) simp_all
  moreover have "sched_inv (kick (p_pri ?x) s2)" using s2(2) by simp
  ultimately show ?thesis using s2(3-5,7) ro by simp
qed

lemma run_it_swapped:
  assumes inv: "sched_inv s" and p: "p < length (procs s)" and w: "p_wchan (procs s ! p) = 0"
    and st: "p_stat (procs s ! p) \<noteq> SRUN" and ld: "\<not> loaded (procs s ! p)"
  defines "t \<equiv> (kick (p_pri (procs s ! p)) (put_proc p ((procs s ! p)\<lparr>p_stat := SRUN\<rparr>) s))\<lparr>runout := 0\<rparr>"
  shows "sched_inv t" "sched_frame s t" "slpque t = slpque s" "runout t = 0"
    "running_ok s \<longrightarrow> running_ok t"
    "procs t = (procs s)[p := (procs s ! p)\<lparr>p_stat := SRUN\<rparr>]"
    and "run_it wake p s = obind (if runout s \<noteq> 0 then wake t else Ok t)
      (\<lambda>u. Ok (u\<lparr>wantin := int32 (wantin u + 1)\<rparr>))"
proof -
  let ?x = "(procs s ! p)\<lparr>p_stat := SRUN\<rparr>"
  let ?s1 = "put_proc p ?x s"
  have i1: "sched_inv ?s1" using made_ready(2)[OF inv p w st] ld by simp
  show "sched_inv t" unfolding t_def by (rule sched_inv_fields[OF i1]) simp_all
  show "sched_frame s t" unfolding t_def by (simp add: sched_frame_def kick_def put_proc_def)
  show "slpque t = slpque s" "runout t = 0"
    "procs t = (procs s)[p := (procs s ! p)\<lparr>p_stat := SRUN\<rparr>]" by (simp_all add: t_def)
  have "running_ok t" if "running_ok s"
  proof -
    have "running_ok ?s1" by (rule running_put[OF that]) (use that st in \<open>auto simp: running_ok_def\<close>)
    then show ?thesis by (rule running_fields) (simp_all add: t_def)
  qed
  then show "running_ok s \<longrightarrow> running_ok t" by blast
  have r0: "runout s = 0 \<Longrightarrow> kick (p_pri ?x) ?s1 = t"
    unfolding t_def by (simp add: kick_def put_proc_def)
  show "run_it wake p s = obind (if runout s \<noteq> 0 then wake t else Ok t)
      (\<lambda>u. Ok (u\<lparr>wantin := int32 (wantin u + 1)\<rparr>))"
  proof (cases "runout s = 0")
    case True
    then show ?thesis using ld r0 by (simp add: run_it_def Let_def)
  next
    case False
    then show ?thesis using ld by (simp add: run_it_def Let_def t_def)
  qed
qed

lemma woken_as_step:
  assumes "procs s1 = (procs s)[p := woken (procs s ! p)]" and "p < length (procs s)"
    and "woken_as W s1 s'" and "p \<notin> W"
  shows "woken_as (insert p W) s s'"
  unfolding woken_as_def
proof (intro conjI allI impI)
  show "length (procs s') = length (procs s)" using assms(1,3) by (simp add: woken_as_def)
  fix r assume r: "r < length (procs s)"
  then have "procs s' ! r = (if r \<in> W then woken (procs s1 ! r) else procs s1 ! r)"
    using assms(1,3) by (simp add: woken_as_def)
  then show "procs s' ! r = (if r \<in> insert p W then woken (procs s ! r) else procs s ! r)"
    using assms r by (cases "r = p") auto
qed

lemma woken_as_trans:
  assumes "woken_as W s s1" and "woken_as V s1 s2" and "W \<inter> V = {}"
  shows "woken_as (W \<union> V) s s2"
  unfolding woken_as_def
proof (intro conjI allI impI)
  show "length (procs s2) = length (procs s)" using assms(1,2) by (simp add: woken_as_def)
  fix r assume r: "r < length (procs s)"
  have "procs s1 ! r = (if r \<in> W then woken (procs s ! r) else procs s ! r)"
    "procs s2 ! r = (if r \<in> V then woken (procs s1 ! r) else procs s1 ! r)"
    using assms(1,2) r by (simp_all add: woken_as_def)
  then show "procs s2 ! r = (if r \<in> W \<union> V then woken (procs s ! r) else procs s ! r)"
    using assms(3) by auto
qed

lemma woken_as_procs: "woken_as W s s' \<Longrightarrow> procs t = procs s' \<Longrightarrow> woken_as W s t"
  by (simp add: woken_as_def)

lemma woken_as_from: "woken_as W t s' \<Longrightarrow> procs t = procs s \<Longrightarrow> woken_as W s s'"
  by (simp add: woken_as_def)

lemma waits_on_woken:
  assumes "woken_as W s s'" and "c \<noteq> 0"
  shows "waits_on c s' = waits_on c s - W"
  using assms by (auto simp: waits_on_def woken_as_def)

lemma waits_on_queue:
  assumes "sched_inv_x X s" and "c \<noteq> 0"
  shows "waits_on c s \<subseteq> set (slpque s ! HASH c)"
proof
  fix p assume "p \<in> waits_on c s"
  then have p: "p < length (procs s)" "p_wchan (procs s ! p) = c" by (simp_all add: waits_on_def)
  have "sq_ok (procs s) (slpque s)" using assms(1) by (simp add: sched_inv_x_def)
  then have "\<forall>p. p \<in> set (slpque s ! HASH c) \<longleftrightarrow>
      p < length (procs s) \<and> p_wchan (procs s ! p) \<noteq> 0 \<and> HASH (p_wchan (procs s ! p)) = HASH c"
    unfolding sq_ok_def using HASH_less[of c] by blast
  then show "p \<in> set (slpque s ! HASH c)" using p assms(2) by blast
qed

lemma queue_distinct: "sched_inv_x X s \<Longrightarrow> distinct (slpque s ! HASH c)"
  using HASH_less[of c] by (simp add: sched_inv_x_def sq_ok_def)

lemma queue_wake_out:
  assumes "sched_inv_x X s" and "p < length (procs s)" and "set q \<subseteq> set (slpque s ! HASH c)" and "p \<notin> set q"
  shows "set q \<subseteq> set (slpque (wake_out p s) ! HASH c)"
proof -
  have "HASH c < length (slpque s)" using assms(1) by (simp add: sched_inv_x_def sq_ok_def)
  then show ?thesis using assms(2-4) by auto
qed

lemma swaps_in_0: "runout s = 0 \<Longrightarrow> \<not> swaps_in c s"
  by (simp add: swaps_in_def)

lemma swaps_in_step:
  assumes "procs s1 = (procs s)[p := woken (procs s ! p)]" and "p < length (procs s)" "chan \<noteq> 0"
    and "runout s1 = runout s" and "p_stat (procs s ! p) \<noteq> SSLEEP \<or> loaded (procs s ! p)"
  shows "swaps_in chan s1 \<longleftrightarrow> swaps_in chan s"
proof -
  have "r \<in> waits_on chan s1 \<and> p_stat (procs s1 ! r) = SSLEEP \<and> \<not> loaded (procs s1 ! r) \<longleftrightarrow>
      r \<in> waits_on chan s \<and> p_stat (procs s ! r) = SSLEEP \<and> \<not> loaded (procs s ! r)" for r
    using assms(1,2,3,5) by (cases "r = p") (auto simp: waits_on_def)
  then show ?thesis unfolding swaps_in_def assms(4) by blast
qed

lemma wakes_step:
  assumes "procs s1 = (procs s)[p := woken (procs s ! p)]" and "p < length (procs s)" "chan \<noteq> 0"
    and "a_runout s1 = a_runout s" "a_runout s \<noteq> 0" and "swaps_in chan s1 \<longleftrightarrow> swaps_in chan s"
  shows "wakes chan s1 = wakes chan s - {p}"
proof -
  have "waits_on c s1 = waits_on c s - {p}" if "c \<noteq> 0" for c
    using assms(1,2) that by (auto simp: waits_on_def nth_list_update)
  then show ?thesis using assms(3-6) by (auto simp: wakes_def)
qed

text \<open>The result of a call of \<open>wakeup\<close>.\<close>

definition wakeup_result :: "int \<Rightarrow> 'a sched_scheme \<Rightarrow> 'a sched_scheme \<Rightarrow> bool" where
  "wakeup_result chan s s' \<longleftrightarrow> sched_inv s' \<and> sched_frame s s' \<and> sleepers s' \<le> sleepers s \<and>
     woken_as (wakes chan s) s s' \<and> runout s' = (if swaps_in chan s then 0 else runout s) \<and>
     (running_ok s \<longrightarrow> running_ok s')"

lemma wakeup_from_step:
  assumes inv: "sched_inv s" and p: "p < length (procs s)" "p_wchan (procs s ! p) = chan" "chan \<noteq> 0"
    and s1: "procs s1 = (procs s)[p := woken (procs s ! p)]" "runout s1 = runout s"
      "sched_frame s s1" "sleepers s1 \<le> sleepers s" "running_ok s \<longrightarrow> running_ok s1"
    and st: "p_stat (procs s ! p) \<noteq> SSLEEP \<or> loaded (procs s ! p)"
    and r: "wakeup_result chan s1 s'"
  shows "wakeup_result chan s s'"
proof -
  have a: "a_runout s1 = a_runout s" "a_runout s \<noteq> 0"
    using s1(3) inv by (simp_all add: sched_frame_def sched_inv_x_def)
  have sw: "swaps_in chan s1 \<longleftrightarrow> swaps_in chan s"
    by (rule swaps_in_step[OF s1(1) p(1,3) s1(2) st])
  have w: "wakes chan s1 = wakes chan s - {p}"
    by (rule wakes_step[OF s1(1) p(1,3) a sw])
  have "woken_as (insert p (wakes chan s1)) s s'"
    using r w by (intro woken_as_step[OF s1(1) p(1)]) (auto simp: wakeup_result_def)
  moreover have "p \<in> wakes chan s" using p by (simp add: wakes_def waits_on_def)
  ultimately have "woken_as (wakes chan s) s s'" using w by (simp add: insert_absorb)
  then show ?thesis using r s1 sw sched_frame_trans[OF s1(3)] by (auto simp: wakeup_result_def)
qed

lemma wakeup_from_spec:
  "sched_inv s \<Longrightarrow> sleepers s < n \<Longrightarrow> set q \<subseteq> set (slpque s ! HASH chan) \<Longrightarrow> distinct q \<Longrightarrow>
     waits_on chan s \<subseteq> set q \<Longrightarrow> \<exists>s'. wakeup_from n chan q s = Ok s' \<and> wakeup_result chan s s'"
proof (induction n arbitrary: s chan q)
  case 0
  then show ?case by simp
next
  case (Suc n)
  note inv = Suc.prems(1)
  from wscan_found[OF inv Suc.prems(3-5), of "''wakeup''"]
  consider (none) "wscan ''wakeup'' (procs s) chan q = Ok None" "waits_on chan s = {}"
    | (some) p q' where "wscan ''wakeup'' (procs s) chan q = Ok (Some (p, q'))" "p < length (procs s)"
      "p_wchan (procs s ! p) = chan" "chan \<noteq> 0" "set q' \<subseteq> set q - {p}" "distinct q'"
      "waits_on chan s \<subseteq> insert p (set q')"
    by blast
  then show ?case
  proof cases
    case none
    then have "wakes chan s = {}" "\<not> swaps_in chan s" by (auto simp: wakes_def swaps_in_def)
    then show ?thesis using none inv by (simp add: wakeup_result_def woken_as_def)
  next
    case some
    let ?s1 = "wake_out p s"
    note p = some(2-4)
    have w0: "p_wchan (procs s ! p) \<noteq> 0" using p by simp
    have i1: "sched_inv ?s1" by (rule wake_out_inv[OF inv p(1) w0])
    have l1: "sleepers ?s1 < n" using sleepers_wake_out[OF inv p(1) w0] Suc.prems(2) by simp
    have l1': "sleepers ?s1 \<le> sleepers s" using sleepers_wake_out[OF inv p(1) w0] by simp
    have nrun: "p_stat (procs s ! p) \<noteq> SRUN"
      using inv p(1) w0 by (auto simp: sched_inv_x_def proc_ok_def stat_defs)
    have ro1: "running_ok s \<longrightarrow> running_ok ?s1" using wake_out_running[OF p(1) nrun] by blast
    have f1: "sched_frame s ?s1" by (rule wake_out_frame[OF p(1)])
    have stat1: "p_stat (procs ?s1 ! p) = p_stat (procs s ! p)" using p(1) by simp
    have loop: "wakeup_from (Suc n) chan q s =
        (if p_stat (procs s ! p) = SSLEEP
         then obind (run_it (\<lambda>t. wakeup_from n (a_runout t) (slpque t ! HASH (a_runout t)) t) p ?s1)
                (\<lambda>s2. wakeup_from n chan (slpque s2 ! HASH chan) s2)
         else wakeup_from n chan q' ?s1)"
      using some(1) stat1 by simp
    show ?thesis
    proof (cases "p_stat (procs s ! p) = SSLEEP")
      case False
      have pr: "procs ?s1 = (procs s)[p := woken (procs s ! p)]" using p(1) False by (simp add: woken_def)
      have "\<exists>s'. wakeup_from n chan q' ?s1 = Ok s' \<and> wakeup_result chan ?s1 s'"
      proof (rule Suc.IH[OF i1 l1 _ some(6)])
        show "set q' \<subseteq> set (slpque ?s1 ! HASH chan)"
          using Suc.prems(3) some(5) by (intro queue_wake_out[OF inv p(1)]) auto
        show "waits_on chan ?s1 \<subseteq> set q'"
          using some(7) p(1,3) pr by (auto simp: waits_on_def nth_list_update split: if_splits)
      qed
      then show ?thesis
        using wakeup_from_step[OF inv p pr _ f1 l1' ro1] p(1) False loop by auto
    next
      case True
      let ?wake = "\<lambda>t. wakeup_from n (a_runout t) (slpque t ! HASH (a_runout t)) t"
      have st1: "p < length (procs ?s1)" "p_wchan (procs ?s1 ! p) = 0" "p_stat (procs ?s1 ! p) \<noteq> SRUN"
        using p(1) True by (simp_all add: stat_defs)
      have pr: "(procs ?s1)[p := (procs ?s1 ! p)\<lparr>p_stat := SRUN\<rparr>] = (procs s)[p := woken (procs s ! p)]"
        using p(1) True by (simp add: woken_def)
      have full: "\<exists>s'. wakeup_from n c (slpque t ! HASH c) t = Ok s' \<and> wakeup_result c t s'"
        if "sched_inv t" "sleepers t < n" "c \<noteq> 0" for t :: "'a sched_scheme" and c
        using Suc.IH[OF that(1,2) order_refl queue_distinct[OF that(1)] waits_on_queue[OF that(1,3)]] .
      show ?thesis
      proof (cases "loaded (procs s ! p)")
        case ld: True
        then obtain s2 where s2: "run_it ?wake p ?s1 = Ok s2" "sched_inv s2" "sched_frame ?s1 s2"
          "slpque s2 = slpque ?s1" "runout s2 = runout ?s1"
          "procs s2 = (procs s)[p := woken (procs s ! p)]" "running_ok ?s1 \<longrightarrow> running_ok s2"
          using run_it_loaded[OF i1 st1, of ?wake] p(1) unfolding pr by auto
        have l2: "sleepers s2 = sleepers ?s1" using s2(4) by (simp add: sleepers_def)
        obtain s' where s': "wakeup_from n chan (slpque s2 ! HASH chan) s2 = Ok s'" "wakeup_result chan s2 s'"
          using full[OF s2(2) _ p(3)] l1 l2 by auto
        have "wakeup_result chan s s'"
          by (rule wakeup_from_step[OF inv p s2(6) _ sched_frame_trans[OF f1 s2(3)] _ _ _ s'(2)])
            (use s2(5,7) ro1 p(1) ld l2 l1' in auto)
        moreover have "wakeup_from (Suc n) chan q s = Ok s'"
          unfolding loop using True s2(1) s'(1) by (simp only: if_True obind.simps refl)
        ultimately show ?thesis by blast
      next
        case ld: False
        let ?t = "(kick (p_pri (procs ?s1 ! p)) (put_proc p ((procs ?s1 ! p)\<lparr>p_stat := SRUN\<rparr>) ?s1))\<lparr>runout := 0\<rparr>"
        have nl: "\<not> loaded (procs ?s1 ! p)" using ld p(1) by simp
        note t = run_it_swapped(1-6)[OF i1 st1 nl]
        note t6 = run_it_swapped(7)[OF i1 st1 nl, of ?wake]
        have ao: "a_runout ?t = a_runout s" "a_runout s \<noteq> 0"
          using t(2) f1 inv by (simp_all add: sched_frame_def sched_inv_x_def)
        have lt: "sleepers ?t = sleepers ?s1" using t(3) by (simp only: sleepers_def)
        have prt: "procs ?t = (procs s)[p := woken (procs s ! p)]" using t(6) pr by simp
        have wt: "woken_as {p} s ?t" using woken_as_step[OF prt p(1), of "{}" ?t] by (simp add: woken_as_def)
        have r: "swaps_in chan s \<longleftrightarrow> runout s \<noteq> 0"
          using p True ld by (auto simp: swaps_in_def waits_on_def)
        obtain u where u: "(if runout ?s1 \<noteq> 0 then ?wake ?t else Ok ?t) = Ok u" "sched_inv u"
          "sched_frame ?t u" "sleepers u \<le> sleepers ?t" "runout u = 0" "running_ok ?t \<longrightarrow> running_ok u"
          "woken_as (if swaps_in chan s then waits_on (a_runout s) ?t else {}) ?t u"
        proof (cases "runout ?s1 = 0")
          case True
          then show ?thesis using that[of ?t] t(1,4) r p(1) by (simp add: woken_as_def)
        next
          case False
          obtain u where u: "?wake ?t = Ok u" "wakeup_result (a_runout ?t) ?t u"
            using full[OF t(1), of "a_runout ?t"] ao l1 lt by auto
          have "\<not> swaps_in (a_runout ?t) ?t" by (rule swaps_in_0[OF t(4)])
          then show ?thesis using that[of u] u False r p(1) ao t(4)
            by (simp add: wakeup_result_def wakes_def)
        qed
        let ?v = "u\<lparr>wantin := int32 (wantin u + 1)\<rparr>"
        have v: "sched_inv ?v" "sleepers ?v = sleepers u" "procs ?v = procs u" "runout ?v = 0"
          "sched_frame u ?v" "slpque ?v = slpque u" "running_ok u \<longrightarrow> running_ok ?v"
          using u(2,5) by (auto intro: sched_inv_fields running_fields simp: sleepers_def sched_frame_def)
        have run: "run_it ?wake p ?s1 = Ok ?v" using t6 u(1) by simp
        have lv: "sleepers ?v < n" using v(2) u(4) lt l1 by linarith
        obtain s' where s': "wakeup_from n chan (slpque ?v ! HASH chan) ?v = Ok s'" "wakeup_result chan ?v s'"
          using full[OF v(1) lv p(3)] by blast
        have nsw: "\<not> swaps_in chan ?v" by (rule swaps_in_0[OF v(4)])
        let ?R = "if swaps_in chan s then waits_on (a_runout s) ?t else {}"
        have wu: "woken_as ({p} \<union> ?R) s u"
        proof (rule woken_as_trans[OF wt u(7)])
          have "p \<notin> waits_on (a_runout s) ?t" using prt p(1) ao by (simp add: waits_on_def)
          then show "{p} \<inter> ?R = {}" by simp
        qed
        have wv: "woken_as ({p} \<union> ?R) s ?v" by (rule woken_as_procs[OF wu v(3)])
        have rest: "woken_as (waits_on chan ?v) ?v s'"
          using s'(2) nsw by (simp add: wakeup_result_def wakes_def)
        have eq: "waits_on chan ?v = waits_on chan s - ({p} \<union> ?R)"
          by (rule waits_on_woken[OF wv p(3)])
        have eqt: "waits_on (a_runout s) ?t = waits_on (a_runout s) s - {p}"
          by (rule waits_on_woken[OF wt ao(2)])
        have "woken_as (({p} \<union> ?R) \<union> waits_on chan ?v) s s'"
          by (rule woken_as_trans[OF wv rest]) (use eq in blast)
        moreover have "({p} \<union> ?R) \<union> waits_on chan ?v = wakes chan s"
        proof -
          have "p \<in> waits_on chan s" using p by (simp add: waits_on_def)
          then show ?thesis unfolding eq eqt wakes_def by auto
        qed
        ultimately have "woken_as (wakes chan s) s s'" by (simp only:)
        moreover have "sched_frame s s'"
          using f1 t(2) u(3) v(5) s'(2) sched_frame_trans unfolding wakeup_result_def by blast
        moreover have "sleepers s' \<le> sleepers s"
          using s'(2) v(2) u(4) lt l1' unfolding wakeup_result_def by linarith
        moreover have "runout s' = (if swaps_in chan s then 0 else runout s)"
          using s'(2) nsw v(4) r by (simp add: wakeup_result_def)
        moreover have "running_ok s \<longrightarrow> running_ok s'"
          using ro1 t(5) u(6) v(7) s'(2) unfolding wakeup_result_def by blast
        ultimately have "wakeup_result chan s s'" using s'(2) by (simp add: wakeup_result_def)
        moreover have "wakeup_from (Suc n) chan q s = Ok s'"
          unfolding loop using True run s'(1) by (simp only: if_True obind.simps refl)
        ultimately show ?thesis by blast
      qed
    qed
  qed
qed

lemma wakeup_spec:
  assumes "sched_inv s" and "chan \<noteq> 0"
  shows "\<exists>s'. wakeup chan s = Ok s' \<and> wakeup_result chan s s'"
  unfolding wakeup_def
  by (rule wakeup_from_spec[OF assms(1) lessI order_refl queue_distinct[OF assms(1)] waits_on_queue[OF assms]])

section \<open>The other operations\<close>

lemma sched_inv_D:
  assumes "sched_inv_x X s"
  shows "rq_ok (procs s) (qs s) (whichqs s)" "sq_ok (procs s) (slpque s)" "ready_ok X s" "a_runout s \<noteq> 0"
    "p < length (procs s) \<Longrightarrow> proc_ok (procs s ! p)"
  using assms by (simp_all add: sched_inv_x_def)

lemma waiting_stat:
  assumes "sched_inv_x X s" and "p < length (procs s)" and "p_stat (procs s ! p) = SRUN \<or> p_stat (procs s ! p) = SIDL"
  shows "p_wchan (procs s ! p) = 0"
  using sched_inv_D(5)[OF assms(1,2)] assms(3) by (auto simp: proc_ok_def stat_defs)

lemma woken_as_other:
  "woken_as W s s' \<Longrightarrow> r < length (procs s) \<Longrightarrow> r \<notin> W \<Longrightarrow> procs s' ! r = procs s ! r"
  by (simp add: woken_as_def)

lemma run_it_spec:
  assumes inv: "sched_inv s" and p: "p < length (procs s)" and w: "p_wchan (procs s ! p) = 0"
    and st: "p_stat (procs s ! p) \<noteq> SRUN"
  shows "\<exists>s'. run_it (\<lambda>t. wakeup (a_runout t) t) p s = Ok s' \<and> sched_inv s' \<and> sched_frame s s' \<and>
    (running_ok s \<longrightarrow> running_ok s') \<and> procs s' ! p = (procs s ! p)\<lparr>p_stat := SRUN\<rparr> \<and>
    (loaded (procs s ! p) \<longrightarrow> p \<in> set (concat (qs s'))) \<and>
    (\<forall>r<length (procs s). r \<noteq> p \<longrightarrow> procs s' ! r = procs s ! r \<or>
       p_wchan (procs s ! r) = a_runout s \<and> procs s' ! r = woken (procs s ! r))"
proof (cases "loaded (procs s ! p)")
  case True
  obtain s' where "run_it (\<lambda>t. wakeup (a_runout t) t) p s = Ok s'" "sched_inv s'" "sched_frame s s'"
    "procs s' = (procs s)[p := (procs s ! p)\<lparr>p_stat := SRUN\<rparr>]" "p \<in> set (concat (qs s'))"
    "running_ok s \<longrightarrow> running_ok s'"
    using run_it_loaded[OF inv p w st True, of "\<lambda>t. wakeup (a_runout t) t"] by (elim exE conjE) (rule that)
  then show ?thesis using p by auto
next
  case False
  obtain t where t: "sched_inv t" "sched_frame s t" "slpque t = slpque s" "runout t = 0"
    "running_ok s \<longrightarrow> running_ok t" "procs t = (procs s)[p := (procs s ! p)\<lparr>p_stat := SRUN\<rparr>]"
    and run: "run_it (\<lambda>t. wakeup (a_runout t) t) p s =
      obind (if runout s \<noteq> 0 then wakeup (a_runout t) t else Ok t) (\<lambda>u. Ok (u\<lparr>wantin := int32 (wantin u + 1)\<rparr>))"
    using run_it_swapped[OF inv p w st False] by (rule that)
  have ao: "a_runout t = a_runout s" using t(2) by (simp only: sched_frame_def)
  have an: "a_runout t \<noteq> 0" using sched_inv_D(4)[OF t(1)] .
  obtain u where u: "(if runout s \<noteq> 0 then wakeup (a_runout t) t else Ok t) = Ok u"
    "sched_inv u" "sched_frame t u" "running_ok t \<longrightarrow> running_ok u"
    "\<forall>r<length (procs t). procs u ! r = procs t ! r \<or>
       p_wchan (procs t ! r) = a_runout s \<and> procs u ! r = woken (procs t ! r)"
  proof (cases "runout s = 0")
    case True
    then show ?thesis using that[of t] t(1) by simp
  next
    case r: False
    obtain u where u: "wakeup (a_runout t) t = Ok u" "wakeup_result (a_runout t) t u"
      using wakeup_spec[OF t(1) an] by blast
    have "wakes (a_runout t) t = waits_on (a_runout s) t"
      using swaps_in_0[OF t(4)] ao by (simp only: wakes_def if_False)
    then have w: "woken_as (waits_on (a_runout s) t) t u" using u(2) by (simp only: wakeup_result_def)
    have "\<forall>r<length (procs t). procs u ! r = procs t ! r \<or>
        p_wchan (procs t ! r) = a_runout s \<and> procs u ! r = woken (procs t ! r)"
      using w by (simp add: woken_as_def waits_on_def)
    then show ?thesis using that[of u] u r unfolding wakeup_result_def by simp
  qed
  let ?v = "u\<lparr>wantin := int32 (wantin u + 1)\<rparr>"
  have run': "run_it (\<lambda>t. wakeup (a_runout t) t) p s = Ok ?v" unfolding run u(1) by simp
  have iv: "sched_inv ?v" by (rule sched_inv_fields[OF u(2)]) simp_all
  have rv: "running_ok s \<longrightarrow> running_ok ?v"
  proof
    assume "running_ok s"
    then have "running_ok u" using t(5) u(4) by blast
    then show "running_ok ?v" by (rule running_fields) simp_all
  qed
  have fv: "sched_frame s ?v"
    using sched_frame_trans[OF t(2) u(3)] by (simp add: sched_frame_def)
  have lt: "length (procs t) = length (procs s)" unfolding t(6) by simp
  have pp: "procs t ! p = (procs s ! p)\<lparr>p_stat := SRUN\<rparr>" unfolding t(6) using p by simp
  have "procs u ! p = procs t ! p"
    using u(5) p lt pp w sched_inv_D(4)[OF inv] by fastforce
  moreover have "procs u ! r = procs s ! r \<or>
      p_wchan (procs s ! r) = a_runout s \<and> procs u ! r = woken (procs s ! r)"
    if "r < length (procs s)" "r \<noteq> p" for r
  proof -
    have "procs t ! r = procs s ! r" unfolding t(6) using that by simp
    moreover have "r < length (procs t)" using that lt by simp
    ultimately show ?thesis using u(5) by metis
  qed
  ultimately show ?thesis using run' iv rv fv pp False by simp
qed

lemma unsleep_spec:
  assumes inv: "sched_inv_x X s" and p: "p < length (procs s)"
  shows "\<exists>s'. unsleep p s = Ok s' \<and> sched_inv_x X s' \<and> sched_frame s s' \<and>
    procs s' = (procs s)[p := (procs s ! p)\<lparr>p_wchan := 0\<rparr>] \<and> (running_ok s \<longrightarrow> running_ok s') \<and>
    runout s' = runout s \<and> qs s' = qs s"
proof (cases "p_wchan (procs s ! p) = 0")
  case True
  then have "(procs s)[p := (procs s ! p)\<lparr>p_wchan := 0\<rparr>] = procs s" by (simp add: list_update_same_conv p)
  then show ?thesis using p True inv by (simp add: unsleep_def with_proc_def)
next
  case False
  let ?x = "(procs s ! p)\<lparr>p_wchan := 0\<rparr>"
  have ok: "proc_ok (procs s ! p)" by (rule sched_inv_D(5)[OF inv p])
  have q: "p \<in> set (concat (slpque s))"
    using mem_slpque_iff[OF sched_inv_D(2)[OF inv]] p False by blast
  have st: "p_stat (procs s ! p) \<noteq> SRUN" using ok False by (auto simp: proc_ok_def stat_defs)
  have "sched_inv_x X (put_proc p ?x (s\<lparr>slpque := map (removeAll p) (slpque s)\<rparr>))"
    using ok st by (intro detach_put[OF inv p False]) (simp_all add: proc_ok_def)
  moreover have "unsleep p s = Ok (put_proc p ?x (s\<lparr>slpque := map (removeAll p) (slpque s)\<rparr>))"
    using p False q by (simp add: unsleep_def with_proc_def detach_def)
  moreover have "running_ok (put_proc p ?x (s\<lparr>slpque := map (removeAll p) (slpque s)\<rparr>))" if "running_ok s"
    by (rule running_put) (use st that in \<open>auto simp: running_ok_def\<close>)
  moreover have "sched_frame s (put_proc p ?x (s\<lparr>slpque := map (removeAll p) (slpque s)\<rparr>))"
    by (simp add: put_proc_def sched_frame_def)
  ultimately show ?thesis by simp
qed

lemma setrun_spec:
  assumes inv: "sched_inv s" and p: "p < length (procs s)"
    and st: "p_stat (procs s ! p) \<in> {SSTOP, SSLEEP, SIDL}"
  shows "\<exists>s'. setrun p s = Ok s' \<and> sched_inv s' \<and> sched_frame s s' \<and>
    (running_ok s \<longrightarrow> running_ok s') \<and> procs s' ! p = (procs s ! p)\<lparr>p_wchan := 0, p_stat := SRUN\<rparr> \<and>
    (loaded (procs s ! p) \<longrightarrow> p \<in> set (concat (qs s'))) \<and>
    (\<forall>r<length (procs s). r \<noteq> p \<longrightarrow> procs s' ! r = procs s ! r \<or>
       p_wchan (procs s ! r) = a_runout s \<and> procs s' ! r = woken (procs s ! r))"
proof -
  obtain s1 where s1: "(if p_stat (procs s ! p) = SSTOP \<or> p_stat (procs s ! p) = SSLEEP then unsleep p s
      else if p_stat (procs s ! p) = SIDL then Ok s else Panic ''setrun'') = Ok s1"
    "sched_inv s1" "sched_frame s s1" "running_ok s \<longrightarrow> running_ok s1"
    "procs s1 = (procs s)[p := (procs s ! p)\<lparr>p_wchan := 0\<rparr>]"
  proof (cases "p_stat (procs s ! p) = SIDL")
    case True
    then have "p_wchan (procs s ! p) = 0" using waiting_stat[OF inv p] by blast
    then have "(procs s)[p := (procs s ! p)\<lparr>p_wchan := 0\<rparr>] = procs s" by (simp add: list_update_same_conv p)
    then show ?thesis using that[of s] True inv by (simp add: stat_defs)
  next
    case False
    then show ?thesis using unsleep_spec[OF inv p] st that by auto
  qed
  have p1: "p < length (procs s1)" "p_wchan (procs s1 ! p) = 0" "p_stat (procs s1 ! p) \<noteq> SRUN"
    using s1(5) p st by (auto simp: stat_defs)
  obtain s' where s': "run_it (\<lambda>t. wakeup (a_runout t) t) p s1 = Ok s'" "sched_inv s'" "sched_frame s1 s'"
    "running_ok s1 \<longrightarrow> running_ok s'" "procs s' ! p = (procs s1 ! p)\<lparr>p_stat := SRUN\<rparr>"
    "loaded (procs s1 ! p) \<longrightarrow> p \<in> set (concat (qs s'))"
    "\<forall>r<length (procs s1). r \<noteq> p \<longrightarrow> procs s' ! r = procs s1 ! r \<or>
       p_wchan (procs s1 ! r) = a_runout s1 \<and> procs s' ! r = woken (procs s1 ! r)"
    using run_it_spec[OF s1(2) p1] by blast
  have "setrun p s = Ok s'" using p s1(1) s'(1) by (simp add: setrun_def with_proc_def)
  moreover have "loaded (procs s1 ! p) = loaded (procs s ! p)" using s1(5) p by (simp add: loaded_def)
  moreover have "a_runout s1 = a_runout s" using s1(3) by (simp add: sched_frame_def)
  moreover have "procs s1 ! r = procs s ! r" if "r \<noteq> p" for r using s1(5) that by simp
  moreover have "procs s' ! p = (procs s ! p)\<lparr>p_wchan := 0, p_stat := SRUN\<rparr>" using s'(5) s1(5) p by simp
  ultimately show ?thesis using s'(2-4,6,7) s1(3,4,5) sched_frame_trans[OF s1(3) s'(3)] by auto
qed

text \<open>The choice of the next process.\<close>

lemma first_bit_Some: "first_bit bs = Some i \<Longrightarrow> i < length bs \<and> bs ! i \<and> (\<forall>j<i. \<not> bs ! j)"
  by (induction bs arbitrary: i) (auto split: if_splits simp: nth_Cons' )

lemma first_bit_None: "first_bit bs = None \<Longrightarrow> j < length bs \<Longrightarrow> \<not> bs ! j"
  by (induction bs arbitrary: j) (auto split: if_splits simp: nth_Cons')

text \<open>A process that could run: ready and in core.\<close>

definition runnable :: "'a sched_scheme \<Rightarrow> nat \<Rightarrow> bool" where
  "runnable s p \<longleftrightarrow> p < length (procs s) \<and> p_stat (procs s ! p) = SRUN \<and> loaded (procs s ! p)"

lemma swtch_start_simps [simp]:
  "procs (swtch_start s) = procs s" "qs (swtch_start s) = qs s" "whichqs (swtch_start s) = whichqs s"
  "slpque (swtch_start s) = slpque s" "noproc (swtch_start s)" "runrun (swtch_start s) = 0"
  "a_runout (swtch_start s) = a_runout s"
  by (simp_all add: swtch_start_def)

lemma runnable_queued:
  assumes "sched_inv (swtch_start s)" and "runnable s p"
  shows "\<exists>d<32. p \<in> set (qs s ! (31 - d)) \<and> p_pri (procs s ! p) div 4 = int d"
proof -
  have "ready_ok {} (swtch_start s)" and rq: "rq_ok (procs s) (qs s) (whichqs s)"
    using assms(1) by (simp_all add: sched_inv_x_def)
  then obtain d where "d < 32" "p \<in> set (qs s ! (31 - d))"
    using assms(2) by (auto simp: ready_ok_def runnable_def)
  moreover from this have "rq_fits (procs s ! p) d" using rq by (simp add: rq_ok_def)
  ultimately show ?thesis by (auto simp: rq_fits_def)
qed

lemma swtch_idle:
  assumes inv: "sched_inv (swtch_start s)" and "first_bit (whichqs s) = None"
  shows "swtch s = Ok (swtch_start s, None)" and "\<not> runnable s p"
proof -
  show "swtch s = Ok (swtch_start s, None)" using assms(2) by (simp add: swtch_def Let_def)
  have rq: "rq_ok (procs s) (qs s) (whichqs s)" using inv by (simp add: sched_inv_x_def)
  show "\<not> runnable s p"
  proof
    assume "runnable s p"
    then obtain d where d: "d < 32" "p \<in> set (qs s ! (31 - d))" using runnable_queued[OF inv] by blast
    then have "whichqs s ! d" using rq by (force simp: rq_ok_def)
    then show False using first_bit_None[OF assms(2)] rq d(1) by (simp add: rq_ok_def)
  qed
qed

lemma swtch_picks:
  assumes inv: "sched_inv (swtch_start s)" and fb: "first_bit (whichqs s) = Some d"
  shows "\<exists>p q s'. qs s ! (31 - d) = p # q \<and> d < 32 \<and> swtch s = Ok (s', Some p) \<and> sched_inv s' \<and> running_ok s' \<and>
    u_procp s' = p \<and> \<not> noproc s' \<and> procs s' = procs s \<and> qs s' = (qs s)[31 - d := q] \<and> runrun s' = 0 \<and> runnable s p \<and>
    (\<forall>r. runnable s r \<longrightarrow> p_pri (procs s ! p) div 4 \<le> p_pri (procs s ! r) div 4)"
proof -
  have rq: "rq_ok (procs s) (qs s) (whichqs s)" and rd: "ready_ok {} (swtch_start s)"
    using inv by (simp_all add: sched_inv_x_def)
  then have l: "length (qs s) = 32" "length (whichqs s) = 32" by (simp_all add: rq_ok_def)
  have d: "d < 32" "whichqs s ! d" "\<forall>e<d. \<not> whichqs s ! e"
    using first_bit_Some[OF fb] l by auto
  then have "qs s ! (31 - d) \<noteq> []" "distinct (qs s ! (31 - d))" using rq by (auto simp: rq_ok_def)
  then obtain p q where pq: "qs s ! (31 - d) = p # q" "p \<notin> set q" "distinct q"
    by (cases "qs s ! (31 - d)") auto
  have p: "p < length (procs s)" "rq_fits (procs s ! p) d"
    using rq d(1) pq(1) by (auto simp: rq_ok_def)
  let ?qs = "(qs s)[31 - d := q]"
  let ?w = "(whichqs s)[d := q \<noteq> []]"
  let ?s' = "(swtch_start s)\<lparr>qs := ?qs, whichqs := ?w, noproc := False, u_procp := p\<rparr>"
  have sw: "swtch s = Ok (?s', Some p)"
    using fb pq(1) p by (simp add: swtch_def Let_def with_proc_def rq_fits_def)
  have idx: "31 - e = 31 - d \<longleftrightarrow> e = d" if "e < 32" for e using that d(1) by linarith
  have q31: "?qs ! (31 - e) = (if e = d then q else qs s ! (31 - e))"
    "?w ! e = (if e = d then q \<noteq> [] else whichqs s ! e)" if "e < 32" for e
    using l idx[OF that] that d(1) by (auto simp: nth_list_update)
  have rqe: "(whichqs s ! e \<longleftrightarrow> qs s ! (31 - e) \<noteq> []) \<and> distinct (qs s ! (31 - e)) \<and>
      (\<forall>r\<in>set (qs s ! (31 - e)). r < length (procs s) \<and> rq_fits (procs s ! r) e)" if "e < 32" for e
    using rq that unfolding rq_ok_def by blast
  have "rq_ok (procs s) ?qs ?w"
    unfolding rq_ok_def
  proof (intro conjI allI impI)
    show "length ?qs = 32" "length ?w = 32" using l by simp_all
    fix e :: nat assume e: "e < 32"
    show "?w ! e = (?qs ! (31 - e) \<noteq> [])" "distinct (?qs ! (31 - e))"
      using rqe[OF e] pq(3) unfolding q31[OF e] by auto
    show "\<forall>r\<in>set (?qs ! (31 - e)). r < length (procs s) \<and> rq_fits (procs s ! r) e"
      using rqe[OF e] pq(1) unfolding q31[OF e] by auto
  qed
  then have rq': "rq_ok (procs ?s') (qs ?s') (whichqs ?s')" by simp
  have "ready_ok {} ?s'"
    unfolding ready_ok_def
  proof (intro allI impI)
    fix r assume r: "r < length (procs ?s')" "p_stat (procs ?s' ! r) = SRUN" "loaded (procs ?s' ! r)"
    then obtain e where e: "e < 32" "r \<in> set (qs s ! (31 - e))"
      using runnable_queued[OF inv, of r] by (auto simp: runnable_def)
    have "r = p \<or> r \<in> set (?qs ! (31 - e))" using e pq(1) unfolding q31[OF e(1)] by auto
    then show "r \<in> {} \<or> \<not> noproc ?s' \<and> r = u_procp ?s' \<or> (\<exists>d<32. r \<in> set (qs ?s' ! (31 - d)))"
      using e(1) by auto
  qed
  then have inv': "sched_inv ?s'" using inv rq' by (simp add: sched_inv_x_def)
  have only: "e = d" if "e < 32" "p \<in> set (qs s ! (31 - e))" for e
  proof -
    have "rq_fits (procs s ! p) e" using rqe[OF that(1)] that(2) by blast
    then show ?thesis using p(2) by (simp add: rq_fits_def)
  qed
  have "p \<notin> set (concat ?qs)"
    using mem_qs_iff[OF rq'] q31 only pq(2) by auto
  then have run: "running_ok ?s'" using p by (simp add: running_ok_def rq_fits_def)
  have best: "p_pri (procs s ! p) div 4 \<le> p_pri (procs s ! r) div 4" if "runnable s r" for r
  proof -
    obtain e where e: "e < 32" "r \<in> set (qs s ! (31 - e))" "p_pri (procs s ! r) div 4 = int e"
      using runnable_queued[OF inv \<open>runnable s r\<close>] by blast
    then have "whichqs s ! e" using rqe[OF e(1)] by force
    then have "d \<le> e" using d(3) by (meson not_le)
    then show ?thesis using e(3) p(2) by (simp add: rq_fits_def)
  qed
  have "runnable s p" using p by (simp add: runnable_def rq_fits_def)
  then show ?thesis using pq(1) d(1) sw inv' run best by (intro exI[of _ p] exI[of _ q] exI[of _ ?s']) simp
qed

lemma and_mask7: "x AND 127 = x mod (128::int)"
  using take_bit_eq_mask[of 7 x] by (simp add: take_bit_eq_mod mask_eq_exp_minus_1)

text \<open>Going to sleep.\<close>

lemma sleep_spec:
  assumes inv: "sched_inv s" and run: "running_ok s" "\<not> noproc s" and "chan \<noteq> 0" "\<not> panicstr s"
  shows "\<exists>s' r. sleep False sig chan pri s = Ok (s', r) \<and> sched_inv s' \<and> sched_frame s s' \<and>
    (\<forall>p<length (procs s). p \<noteq> u_procp s \<longrightarrow> procs s' ! p = procs s ! p) \<and> qs s' = qs s \<and>
    (if PZERO < pri AND PMASK \<and> sig
     then r = slept_sig pri \<and> running_ok s' \<and> p_wchan (procs s' ! u_procp s) = 0
     else r = Switch \<and> p_stat (procs s' ! u_procp s) = SSLEEP \<and> p_wchan (procs s' ! u_procp s) = chan \<and>
       slpque s' = (slpque s)[HASH chan := slpque s ! HASH chan @ [u_procp s]])"
proof -
  let ?p = "u_procp s"
  have p: "?p < length (procs s)" "p_stat (procs s ! ?p) = SRUN" "?p \<notin> set (concat (qs s))"
    using run by (simp_all add: running_ok_def)
  have w0: "p_wchan (procs s ! ?p) = 0" using waiting_stat[OF inv p(1)] p(2) by blast
  let ?x = "(procs s ! ?p)\<lparr>p_wchan := chan, p_slptime := 0, p_pri := pri AND PMASK\<rparr>"
  let ?sl = "(slpque s)[HASH chan := slpque s ! HASH chan @ [?p]]"
  let ?s1 = "put_proc ?p ?x (s\<lparr>slpque := ?sl\<rparr>)"
  let ?s2 = "put_proc ?p (?x\<lparr>p_stat := SSLEEP\<rparr>) ?s1"
  have pri: "0 \<le> pri AND PMASK" "pri AND PMASK \<le> 127"
    unfolding PMASK_def using and_mask7[of pri] pos_mod_bound[of 128 pri] by simp_all
  have ok: "proc_ok (procs s ! ?p)" by (rule sched_inv_D(5)[OF inv p(1)])
  have sq: "sq_ok (procs s) (slpque s)" by (rule sched_inv_D(2)[OF inv])
  have sl: "length (slpque s) = 64" using sq by (simp add: sq_ok_def)
  have mem: "r \<in> set (slpque s ! h) \<longleftrightarrow> r < length (procs s) \<and> p_wchan (procs s ! r) \<noteq> 0 \<and>
      HASH (p_wchan (procs s ! r)) = h" "distinct (slpque s ! h)" if "h < 64" for r h
    using sq that unfolding sq_ok_def by blast+
  have sq2: "sq_ok ((procs s)[?p := y]) ?sl" if "p_wchan y = chan" for y
    unfolding sq_ok_def
  proof (intro conjI allI impI)
    show "length ?sl = 64" using sl by simp
    fix h :: nat assume h: "h < 64"
    have np: "?p \<notin> set (slpque s ! h)" using mem(1)[OF h] w0 by blast
    show "distinct (?sl ! h)" using mem(2)[OF h] np sl h by (cases "h = HASH chan") auto
    fix r
    show "r \<in> set (?sl ! h) \<longleftrightarrow> r < length ((procs s)[?p := y]) \<and> p_wchan ((procs s)[?p := y] ! r) \<noteq> 0 \<and>
        HASH (p_wchan ((procs s)[?p := y] ! r)) = h"
    proof (cases "r = ?p")
      case True
      then show ?thesis using np sl h p(1) that assms(4) by (cases "h = HASH chan") auto
    next
      case False
      then show ?thesis using mem(1)[OF h, of r] sl h by (cases "h = HASH chan") auto
    qed
  qed
  have inv2: "sched_inv (put_proc ?p y (s\<lparr>slpque := ?sl\<rparr>))"
    if "p_wchan y = chan" "p_stat y = SSLEEP" "p_pri y = pri AND PMASK" "p_usrpri y = p_usrpri (procs s ! ?p)" for y
    unfolding sched_inv_x_def
  proof (intro conjI)
    show "rq_ok (procs (put_proc ?p y (s\<lparr>slpque := ?sl\<rparr>))) (qs (put_proc ?p y (s\<lparr>slpque := ?sl\<rparr>)))
        (whichqs (put_proc ?p y (s\<lparr>slpque := ?sl\<rparr>)))"
      using rq_ok_update_off[OF sched_inv_D(1)[OF inv] p(3)] by simp
    show "sq_ok (procs (put_proc ?p y (s\<lparr>slpque := ?sl\<rparr>))) (slpque (put_proc ?p y (s\<lparr>slpque := ?sl\<rparr>)))"
      using sq2[OF that(1)] by simp
    have "proc_ok y" using that ok pri by (simp add: proc_ok_def)
    then show "\<forall>x\<in>set (procs (put_proc ?p y (s\<lparr>slpque := ?sl\<rparr>))). proc_ok x"
      using inv proc_ok_update[of "procs s" y ?p] by (simp add: sched_inv_x_def)
    show "ready_ok {} (put_proc ?p y (s\<lparr>slpque := ?sl\<rparr>))"
      using sched_inv_D(3)[OF inv] that(2) p(1) by (auto simp: ready_ok_def nth_list_update stat_defs)
    show "a_runout (put_proc ?p y (s\<lparr>slpque := ?sl\<rparr>)) \<noteq> 0" using sched_inv_D(4)[OF inv] by simp
  qed
  have i2: "sched_inv ?s2"
  proof -
    have "?s2 = put_proc ?p (?x\<lparr>p_stat := SSLEEP\<rparr>) (s\<lparr>slpque := ?sl\<rparr>)" by (simp add: put_proc_def)
    then show ?thesis using inv2[of "?x\<lparr>p_stat := SSLEEP\<rparr>"] by simp
  qed
  show ?thesis
  proof (cases "PZERO < pri AND PMASK \<and> sig")
    case False
    have "sleep False sig chan pri s = Ok (count_switch ?s2, Switch)"
      using p(1,2) assms(4,5) False by (auto simp: sleep_def Let_def with_proc_def)
    moreover have "sched_inv (count_switch ?s2)"
      by (rule sched_inv_fields[OF i2]) (simp_all add: count_switch_def)
    ultimately show ?thesis using False p(1)
      by (intro exI[of _ "count_switch ?s2"] exI[of _ Switch])
        (auto simp: sched_frame_def put_proc_def count_switch_def)
  next
    case True
    have mapid: "map (removeAll ?p) ?sl = slpque s"
    proof (rule nth_equalityI)
      show "length (map (removeAll ?p) ?sl) = length (slpque s)" by simp
      fix h assume "h < length (map (removeAll ?p) ?sl)"
      then have h: "h < 64" using sl by simp
      then have "?p \<notin> set (slpque s ! h)" using mem(1)[OF h] w0 by blast
      then show "map (removeAll ?p) ?sl ! h = slpque s ! h"
        using sl h by (cases "h = HASH chan") auto
    qed
    have q: "?p \<in> set (concat ?sl)" using sl by (intro in_concat_update) auto
    let ?y = "?x\<lparr>p_wchan := 0\<rparr>"
    have un: "unsleep ?p ?s1 = Ok (put_proc ?p ?y s)"
      using p(1) assms(4) q mapid by (simp add: unsleep_def with_proc_def detach_def put_proc_def)
    let ?s3 = "put_proc ?p (?y\<lparr>p_stat := SRUN\<rparr>) (put_proc ?p ?y s)"
    have e: "sleep False sig chan pri s = Ok (?s3, slept_sig pri)"
      using p(1,2) assms(4,5) True un by (simp add: sleep_def Let_def with_proc_def)
    have s3: "?s3 = put_proc ?p (?y\<lparr>p_stat := SRUN\<rparr>) s" by (simp add: put_proc_def)
    have "sched_inv ?s3"
      unfolding s3 sched_inv_x_def
    proof (intro conjI)
      show "rq_ok (procs (put_proc ?p (?y\<lparr>p_stat := SRUN\<rparr>) s)) (qs (put_proc ?p (?y\<lparr>p_stat := SRUN\<rparr>) s))
          (whichqs (put_proc ?p (?y\<lparr>p_stat := SRUN\<rparr>) s))"
        using rq_ok_update_off[OF sched_inv_D(1)[OF inv] p(3)] by simp
      show "sq_ok (procs (put_proc ?p (?y\<lparr>p_stat := SRUN\<rparr>) s)) (slpque (put_proc ?p (?y\<lparr>p_stat := SRUN\<rparr>) s))"
        using sq_ok_update[OF sq p(1)] w0 by simp
      have "proc_ok (?y\<lparr>p_stat := SRUN\<rparr>)" using ok pri by (simp add: proc_ok_def)
      then show "\<forall>x\<in>set (procs (put_proc ?p (?y\<lparr>p_stat := SRUN\<rparr>) s)). proc_ok x"
        using inv proc_ok_update[of "procs s" "?y\<lparr>p_stat := SRUN\<rparr>" ?p] by (simp add: sched_inv_x_def)
      show "ready_ok {} (put_proc ?p (?y\<lparr>p_stat := SRUN\<rparr>) s)"
        using sched_inv_D(3)[OF inv] p(1) run(2) by (auto simp: ready_ok_def nth_list_update)
      show "a_runout (put_proc ?p (?y\<lparr>p_stat := SRUN\<rparr>) s) \<noteq> 0" using sched_inv_D(4)[OF inv] by simp
    qed
    moreover have "running_ok ?s3" unfolding s3 by (rule running_put[OF run(1)]) (use run(1) in \<open>auto simp: running_ok_def\<close>)
    moreover have "sched_frame s ?s3" unfolding s3 by simp
    ultimately show ?thesis using e True p(1) by (intro exI[of _ ?s3] exI[of _ "slept_sig pri"]) simp
  qed
qed

text \<open>\<open>wakeup_one\<close> wakes one sleeper of the channel.\<close>

definition woke_one :: "int \<Rightarrow> 'a sched_scheme \<Rightarrow> 'a sched_scheme \<Rightarrow> bool" where
  "woke_one chan s s' \<longleftrightarrow> sched_inv s' \<and> sched_frame s s' \<and> (running_ok s \<longrightarrow> running_ok s') \<and>
     ((\<exists>p\<in>waits_on chan s. p_stat (procs s ! p) = SSLEEP) \<longrightarrow>
        (\<exists>p\<in>waits_on chan s. p_stat (procs s ! p) = SSLEEP \<and> procs s' ! p = woken (procs s ! p) \<and>
           (\<forall>r<length (procs s). r \<noteq> p \<longrightarrow> p_stat (procs s ! r) = SSLEEP \<longrightarrow>
              p_wchan (procs s ! r) \<noteq> a_runout s \<longrightarrow> procs s' ! r = procs s ! r)))"

lemma wakeup_one_from_spec:
  "sched_inv s \<Longrightarrow> sleepers s < n \<Longrightarrow> set q \<subseteq> set (slpque s ! HASH chan) \<Longrightarrow> distinct q \<Longrightarrow>
     waits_on chan s \<subseteq> set q \<Longrightarrow> \<exists>s'. wakeup_one_from n chan q s = Ok s' \<and> woke_one chan s s'"
proof (induction n arbitrary: s q)
  case 0
  then show ?case by simp
next
  case (Suc n)
  note inv = Suc.prems(1)
  from wscan_found[OF inv Suc.prems(3-5), of "''wakeup_one''"]
  consider (none) "wscan ''wakeup_one'' (procs s) chan q = Ok None" "waits_on chan s = {}"
    | (some) p q' where "wscan ''wakeup_one'' (procs s) chan q = Ok (Some (p, q'))" "p < length (procs s)"
      "p_wchan (procs s ! p) = chan" "chan \<noteq> 0" "set q' \<subseteq> set q - {p}" "distinct q'"
      "waits_on chan s \<subseteq> insert p (set q')"
    by blast
  then show ?case
  proof cases
    case none
    then show ?thesis using inv by (simp add: woke_one_def)
  next
    case some
    let ?s1 = "wake_out p s"
    note p = some(2-4)
    have w0: "p_wchan (procs s ! p) \<noteq> 0" using p by simp
    have pw: "p \<in> waits_on chan s" using p by (simp add: waits_on_def)
    have i1: "sched_inv ?s1" by (rule wake_out_inv[OF inv p(1) w0])
    have l1: "sleepers ?s1 < n" using sleepers_wake_out[OF inv p(1) w0] Suc.prems(2) by simp
    have f1: "sched_frame s ?s1" by (rule wake_out_frame[OF p(1)])
    have nrun: "p_stat (procs s ! p) \<noteq> SRUN"
      using sched_inv_D(5)[OF inv p(1)] w0 by (auto simp: proc_ok_def stat_defs)
    have ro1: "running_ok s \<Longrightarrow> running_ok ?s1" by (rule wake_out_running[OF p(1) nrun])
    have a1: "a_runout ?s1 = a_runout s" using p(1) by simp
    have loop: "wakeup_one_from (Suc n) chan q s =
        (if p_stat (procs s ! p) = SSLEEP then run_it (\<lambda>t. wakeup (a_runout t) t) p ?s1
         else wakeup_one_from n chan q' ?s1)"
      using some(1) p(1) by simp
    have pr: "procs ?s1 ! r = (if r = p then asleep (procs s ! p) else procs s ! r)" for r
      using p(1) by simp
    have len: "length (procs ?s1) = length (procs s)" using p(1) by simp
    show ?thesis
    proof (cases "p_stat (procs s ! p) = SSLEEP")
      case True
      have st1: "p < length (procs ?s1)" "p_wchan (procs ?s1 ! p) = 0" "p_stat (procs ?s1 ! p) \<noteq> SRUN"
        using p(1) True by (simp_all add: stat_defs)
      obtain s' where s': "run_it (\<lambda>t. wakeup (a_runout t) t) p ?s1 = Ok s'" "sched_inv s'"
        "sched_frame ?s1 s'" "running_ok ?s1 \<longrightarrow> running_ok s'" "procs s' ! p = (procs ?s1 ! p)\<lparr>p_stat := SRUN\<rparr>"
        "\<forall>r<length (procs ?s1). r \<noteq> p \<longrightarrow> procs s' ! r = procs ?s1 ! r \<or>
           p_wchan (procs ?s1 ! r) = a_runout ?s1 \<and> procs s' ! r = woken (procs ?s1 ! r)"
        using run_it_spec[OF i1 st1] by blast
      have "procs s' ! p = woken (procs s ! p)" using s'(5) True unfolding pr by (simp add: woken_def)
      moreover have "procs s' ! r = procs s ! r"
        if "r < length (procs s)" "r \<noteq> p" "p_wchan (procs s ! r) \<noteq> a_runout s" for r
        using s'(6) that a1 len pr by auto
      ultimately have "woke_one chan s s'"
        using s'(2,4) sched_frame_trans[OF f1 s'(3)] ro1 pw True unfolding woke_one_def by blast
      then show ?thesis using loop True s'(1) by auto
    next
      case False
      have "\<exists>s'. wakeup_one_from n chan q' ?s1 = Ok s' \<and> woke_one chan ?s1 s'"
      proof (rule Suc.IH[OF i1 l1 _ some(6)])
        show "set q' \<subseteq> set (slpque ?s1 ! HASH chan)"
          using Suc.prems(3) some(5) by (intro queue_wake_out[OF inv p(1)]) auto
        show "waits_on chan ?s1 \<subseteq> set q'"
          using some(7) p(3) unfolding waits_on_def len pr by (auto split: if_splits)
      qed
      then obtain s' where s': "wakeup_one_from n chan q' ?s1 = Ok s'" "woke_one chan ?s1 s'" by blast
      have same: "r \<in> waits_on chan ?s1 \<and> p_stat (procs ?s1 ! r) = SSLEEP \<longleftrightarrow>
          r \<in> waits_on chan s \<and> p_stat (procs s ! r) = SSLEEP" for r
        using False p(3) unfolding waits_on_def len pr by (cases "r = p") auto
      have "woke_one chan s s'"
        unfolding woke_one_def
      proof (intro conjI impI)
        show "sched_inv s'" "sched_frame s s'"
          using s'(2) sched_frame_trans[OF f1] unfolding woke_one_def by blast+
        show "running_ok s'" if "running_ok s" using s'(2) ro1[OF that] unfolding woke_one_def by blast
        assume "\<exists>p\<in>waits_on chan s. p_stat (procs s ! p) = SSLEEP"
        then have "\<exists>p\<in>waits_on chan ?s1. p_stat (procs ?s1 ! p) = SSLEEP" using same by blast
        then obtain r where r: "r \<in> waits_on chan ?s1" "p_stat (procs ?s1 ! r) = SSLEEP"
          "procs s' ! r = woken (procs ?s1 ! r)"
          "\<forall>t<length (procs ?s1). t \<noteq> r \<longrightarrow> p_stat (procs ?s1 ! t) = SSLEEP \<longrightarrow>
              p_wchan (procs ?s1 ! t) \<noteq> a_runout ?s1 \<longrightarrow> procs s' ! t = procs ?s1 ! t"
          using s'(2) unfolding woke_one_def by blast
        have "r \<noteq> p" using r(2) False pr[of r] by auto
        then have "r \<in> waits_on chan s \<and> p_stat (procs s ! r) = SSLEEP \<and> procs s' ! r = woken (procs s ! r)"
          using r(1-3) same[of r] pr[of r] by simp
        moreover have "procs s' ! t = procs s ! t"
          if "t < length (procs s)" "t \<noteq> r" "p_stat (procs s ! t) = SSLEEP" "p_wchan (procs s ! t) \<noteq> a_runout s" for t
        proof -
          have "t \<noteq> p" using that(3) False by auto
          then show ?thesis using r(4) that len a1 pr[of t] by simp
        qed
        ultimately show "\<exists>p\<in>waits_on chan s. p_stat (procs s ! p) = SSLEEP \<and> procs s' ! p = woken (procs s ! p) \<and>
           (\<forall>r<length (procs s). r \<noteq> p \<longrightarrow> p_stat (procs s ! r) = SSLEEP \<longrightarrow>
              p_wchan (procs s ! r) \<noteq> a_runout s \<longrightarrow> procs s' ! r = procs s ! r)"
          by blast
      qed
      then show ?thesis using loop False s'(1) by auto
    qed
  qed
qed

lemma wakeup_one_spec:
  assumes "sched_inv s" and "chan \<noteq> 0"
  shows "\<exists>s'. wakeup_one chan s = Ok s' \<and> woke_one chan s s'"
  unfolding wakeup_one_def
  by (rule wakeup_one_from_spec[OF assms(1) lessI order_refl queue_distinct[OF assms(1)] waits_on_queue[OF assms]])

text \<open>Priorities.\<close>

lemma setpri_spec:
  assumes inv: "sched_inv s" and p: "p < length (procs s)"
  shows "\<exists>s' v. setpri p s = Ok (s', v) \<and> 1 \<le> v \<and> v \<le> 127 \<and> sched_inv s' \<and> sched_frame s s' \<and>
    procs s' = (procs s)[p := (procs s ! p)\<lparr>p_usrpri := v\<rparr>] \<and> qs s' = qs s \<and> slpque s' = slpque s \<and>
    (running_ok s \<longrightarrow> running_ok s')"
proof -
  obtain v where e: "setpri p s = Ok (put_proc p ((procs s ! p)\<lparr>p_usrpri := v\<rparr>) (kick v s), v)" "1 \<le> v" "v \<le> 127"
    using p by (simp add: setpri_def with_proc_def Let_def)
  let ?x = "(procs s ! p)\<lparr>p_usrpri := v\<rparr>"
  have "proc_ok ?x" using sched_inv_D(5)[OF inv p] e(2,3) by (simp add: proc_ok_def)
  then have "sched_inv (put_proc p ?x (kick v s))"
    using inv p by (intro sched_inv_put) (simp_all add: loaded_def)
  moreover have "running_ok (put_proc p ?x (kick v s))" if "running_ok s"
  proof -
    have "running_ok (kick v s)" by (rule running_fields[OF that]) simp_all
    then show ?thesis using that by (intro running_put) (auto simp: running_ok_def)
  qed
  moreover have "sched_frame s (put_proc p ?x (kick v s))"
    by (rule sched_frame_trans[of _ "kick v s"]) simp_all
  ultimately show ?thesis using e by (intro exI conjI) (assumption | simp)+
qed

lemma decay_times_simps [simp]:
  "p_stat (decay_times x) = p_stat x" "p_wchan (decay_times x) = p_wchan x" "p_flag (decay_times x) = p_flag x"
  "p_pri (decay_times x) = p_pri x" "p_usrpri (decay_times x) = p_usrpri x" "p_nice (decay_times x) = p_nice x"
  "p_cpu (decay_times x) = p_cpu x"
  by (simp_all add: decay_times_def Let_def)

lemma decay_pct_simps [simp]:
  "p_stat (decay_pct hz x) = p_stat x" "p_wchan (decay_pct hz x) = p_wchan x" "p_flag (decay_pct hz x) = p_flag x"
  "p_pri (decay_pct hz x) = p_pri x" "p_usrpri (decay_pct hz x) = p_usrpri x" "p_nice (decay_pct hz x) = p_nice x"
  "p_cpu (decay_pct hz x) = p_cpu x"
  by (simp_all add: decay_pct_def)

lemma decay_simps [simp]:
  "p_stat (decay hz av x) = p_stat x" "p_wchan (decay hz av x) = p_wchan x" "loaded (decay hz av x) = loaded x"
  "p_pri (decay hz av x) = p_pri x" "p_usrpri (decay hz av x) = p_usrpri x" "p_flag (decay hz av x) = p_flag x"
  "p_nice (decay hz av x) = p_nice x"
  by (simp_all add: decay_def Let_def loaded_def)

lemma schedcpu_one_spec:
  assumes inv: "sched_inv s" and run: "running_ok s" and p: "p < length (procs s)"
    and "hz \<noteq> 0" "int32 (int32 (avenrun0 s * nrscale) + FSCALE) \<noteq> 0"
  shows "\<exists>s'. schedcpu_one hz p s = Ok s' \<and> sched_inv s' \<and> running_ok s' \<and> sched_frame s s'"
proof (cases "p_stat (procs s ! p) = 0 \<or> p_stat (procs s ! p) = SZOMB")
  case True
  then show ?thesis using p inv run by (auto simp: schedcpu_one_def with_proc_def)
next
  case False
  let ?d = "decay hz (avenrun0 s) (procs s ! p)"
  let ?s0 = "put_proc p ?d s"
  have okd: "proc_ok ?d" using sched_inv_D(5)[OF inv p] by (simp add: proc_ok_def)
  have i0: "sched_inv ?s0" using okd by (intro sched_inv_put[OF inv p]) simp_all
  have r0: "running_ok ?s0" using run by (intro running_put) (auto simp: running_ok_def)
  have p0: "p < length (procs ?s0)" using p by simp
  obtain s1 v where s1: "setpri p ?s0 = Ok (s1, v)" "1 \<le> v" "v \<le> 127" "sched_inv s1" "sched_frame ?s0 s1"
    "procs s1 = (procs ?s0)[p := (procs ?s0 ! p)\<lparr>p_usrpri := v\<rparr>]" "running_ok ?s0 \<longrightarrow> running_ok s1"
    using setpri_spec[OF i0 p0] by blast
  have f1: "sched_frame s s1" by (rule sched_frame_trans[OF _ s1(5)]) simp
  have r1: "running_ok s1" using s1(7) r0 by blast
  have p1: "p < length (procs s1)" using s1(6) p by simp
  let ?y = "procs s1 ! p"
  let ?z = "?y\<lparr>p_pri := p_usrpri ?y\<rparr>"
  have oky: "proc_ok ?y" by (rule sched_inv_D(5)[OF s1(4) p1])
  then have okz: "proc_ok ?z" by (simp add: proc_ok_def)
  have unfold: "schedcpu_one hz p s = (if PUSER \<le> p_pri ?y then
         (if (p \<noteq> u_procp s1 \<or> noproc s1) \<and> p_stat ?y = SRUN \<and> loaded ?y \<and> p_pri ?y \<noteq> p_usrpri ?y
          then obind (remrq p s1) (\<lambda>s2. setrq p (put_proc p ?z s2))
          else Ok (put_proc p ?z s1))
       else Ok s1)"
    using False p assms(4,5) s1(1) by (simp add: schedcpu_one_def with_proc_def Let_def)
  show ?thesis
  proof (cases "PUSER \<le> p_pri ?y")
    case False
    then show ?thesis using unfold s1(4) r1 f1 by simp
  next
    case hi: True
    show ?thesis
    proof (cases "(p \<noteq> u_procp s1 \<or> noproc s1) \<and> p_stat ?y = SRUN \<and> loaded ?y \<and> p_pri ?y \<noteq> p_usrpri ?y")
      case True
      have nr: "noproc s1 \<or> p \<noteq> u_procp s1" using True by blast
      have "\<exists>d<32. p \<in> set (qs s1 ! (31 - d))"
        using sched_inv_D(3)[OF s1(4)] True p1 unfolding ready_ok_def by blast
      then have q: "p \<in> set (concat (qs s1))" using mem_qs_iff[OF sched_inv_D(1)[OF s1(4)]] by blast
      obtain s2 where s2: "remrq p s1 = Ok s2" "sched_inv_x {p} s2" "procs s2 = procs s1" "p \<notin> set (concat (qs s2))"
        "sched_frame s1 s2" "set (concat (qs s2)) \<subseteq> set (concat (qs s1))"
        using remrq_spec[OF s1(4) p1 q] by (elim exE conjE) (rule that)
      have f2: "noproc s2 = noproc s1" "u_procp s2 = u_procp s1" using s2(5) by (simp_all add: sched_frame_def)
      have "running_ok s2" using r1 s2(3,6) f2 unfolding running_ok_def by auto
      then have r2: "running_ok (put_proc p ?z s2)" using nr f2 by (intro running_put) auto
      have rq2: "rq_ok (procs s2) (qs s2) (whichqs s2)" by (rule sched_inv_D(1)[OF s2(2)])
      have i2: "sched_inv_x {p} (put_proc p ?z s2)"
        unfolding sched_inv_x_def
      proof (intro conjI)
        show "rq_ok (procs (put_proc p ?z s2)) (qs (put_proc p ?z s2)) (whichqs (put_proc p ?z s2))"
          using rq_ok_update_off[OF rq2 s2(4)] by simp
        show "sq_ok (procs (put_proc p ?z s2)) (slpque (put_proc p ?z s2))"
          using sq_ok_update[OF sched_inv_D(2)[OF s2(2)], of p ?z] p1 s2(3) by simp
        show "\<forall>x\<in>set (procs (put_proc p ?z s2)). proc_ok x"
          using s2(2) okz proc_ok_update[of "procs s2" ?z p] by (simp add: sched_inv_x_def)
        show "ready_ok {p} (put_proc p ?z s2)"
          using sched_inv_D(3)[OF s2(2)] by (auto simp: ready_ok_def nth_list_update)
        show "a_runout (put_proc p ?z s2) \<noteq> 0" using sched_inv_D(4)[OF s2(2)] by simp
      qed
      have z: "p_stat ?z = SRUN" "loaded ?z" "p_wchan ?z = 0"
        using True waiting_stat[OF s1(4) p1] by (simp_all add: loaded_def)
      obtain s3 where s3: "setrq p (put_proc p ?z s2) = Ok s3" "sched_inv_x ({p} - {p}) s3"
        "sched_frame (put_proc p ?z s2) s3"
        "noproc (put_proc p ?z s2) \<or> p \<noteq> u_procp (put_proc p ?z s2) \<longrightarrow> running_ok (put_proc p ?z s2) \<longrightarrow> running_ok s3"
        using setrq_spec[OF i2, of p] p1 s2(3,4) z by auto
      have "running_ok s3" using s3(4) r2 nr f2 by simp
      moreover have "sched_frame s s3"
        by (rule sched_frame_trans[OF f1 sched_frame_trans[OF s2(5) sched_frame_trans[OF _ s3(3)]]]) simp
      ultimately show ?thesis using unfold hi True s2(1) s3(1,2) by simp
    next
      case no: False
      have nq: "p \<notin> set (concat (qs s1)) \<or> p_pri ?y = p_usrpri ?y"
      proof (rule ccontr)
        assume a: "\<not> ?thesis"
        then obtain d where d: "d < 32" "p \<in> set (qs s1 ! (31 - d))" and ne: "p_pri ?y \<noteq> p_usrpri ?y"
          using mem_qs_iff[OF sched_inv_D(1)[OF s1(4)]] by blast
        then have "rq_fits ?y d" using sched_inv_D(1)[OF s1(4)] by (simp add: rq_ok_def)
        then have "p = u_procp s1 \<and> \<not> noproc s1" using no ne by (auto simp: rq_fits_def)
        then show False using r1 a by (auto simp: running_ok_def)
      qed
      have "sched_inv (put_proc p ?z s1)"
      proof (cases "p_pri ?y = p_usrpri ?y")
        case True
        then show ?thesis using okz by (intro sched_inv_put[OF s1(4) p1]) (simp_all add: loaded_def)
      next
        case False
        then have nq': "p \<notin> set (concat (qs s1))" using nq by blast
        show ?thesis unfolding sched_inv_x_def
        proof (intro conjI)
          show "rq_ok (procs (put_proc p ?z s1)) (qs (put_proc p ?z s1)) (whichqs (put_proc p ?z s1))"
            using rq_ok_update_off[OF sched_inv_D(1)[OF s1(4)] nq'] by simp
          show "sq_ok (procs (put_proc p ?z s1)) (slpque (put_proc p ?z s1))"
            using sq_ok_update[OF sched_inv_D(2)[OF s1(4)] p1, of ?z] by simp
          show "\<forall>x\<in>set (procs (put_proc p ?z s1)). proc_ok x"
            using s1(4) okz proc_ok_update[of "procs s1" ?z p] by (simp add: sched_inv_x_def)
          show "ready_ok {} (put_proc p ?z s1)"
            using sched_inv_D(3)[OF s1(4)] p1 by (auto simp: ready_ok_def nth_list_update loaded_def)
          show "a_runout (put_proc p ?z s1) \<noteq> 0" using sched_inv_D(4)[OF s1(4)] by simp
        qed
      qed
      moreover have "running_ok (put_proc p ?z s1)"
        using r1 by (intro running_put) (auto simp: running_ok_def)
      moreover have "sched_frame s (put_proc p ?z s1)" by (rule sched_frame_trans[OF f1]) simp
      moreover have "schedcpu_one hz p s = Ok (put_proc p ?z s1)"
        unfolding unfold using hi no by (simp only: if_True if_False)
      ultimately show ?thesis by blast
    qed
  qed
qed

lemma schedcpu_loop_spec:
  "sched_inv s \<Longrightarrow> running_ok s \<Longrightarrow> \<forall>p\<in>set l. p < length (procs s) \<Longrightarrow> hz \<noteq> 0 \<Longrightarrow>
     int32 (int32 (avenrun0 s * nrscale) + FSCALE) \<noteq> 0 \<Longrightarrow>
     \<exists>s'. schedcpu_loop hz l s = Ok s' \<and> sched_inv s' \<and> running_ok s' \<and> sched_frame s s'"
proof (induction l arbitrary: s)
  case Nil
  then show ?case by simp
next
  case (Cons p l)
  obtain s1 where s1: "schedcpu_one hz p s = Ok s1" "sched_inv s1" "running_ok s1" "sched_frame s s1"
    using schedcpu_one_spec[of s p hz] Cons.prems by auto
  have f: "length (procs s1) = length (procs s)" "avenrun0 s1 = avenrun0 s"
    using s1(4) by (simp_all add: sched_frame_def)
  have "\<exists>s'. schedcpu_loop hz l s1 = Ok s' \<and> sched_inv s' \<and> running_ok s' \<and> sched_frame s1 s'"
    by (rule Cons.IH[OF s1(2,3)]) (use Cons.prems f in auto)
  then show ?case using s1(1,4) sched_frame_trans by fastforce
qed

section \<open>Reachable states\<close>

lemma rqinit_inv:
  assumes "whichqs s = replicate 32 False" and "\<forall>x\<in>set (procs s). proc_ok x \<and> p_wchan x = 0"
    and "\<forall>p<length (procs s). p_stat (procs s ! p) = SRUN \<longrightarrow> \<not> noproc s \<and> p = u_procp s"
    and "a_runout s \<noteq> 0"
  shows "sched_inv (rqinit s)" and "linked p (rqinit s) = False"
proof -
  have "rq_ok (procs s) (replicate NQS []) (whichqs s)"
    using assms(1) by (simp add: rq_ok_def NQS_def)
  moreover have "sq_ok (procs s) (replicate SQSIZE [])"
    using assms(2) nth_mem[of _ "procs s"] by (fastforce simp: sq_ok_def SQSIZE_def)
  ultimately show "sched_inv (rqinit s)"
    using assms by (auto simp: sched_inv_x_def rqinit_def ready_ok_def)
  show "linked p (rqinit s) = False" by (simp add: linked_def rqinit_def NQS_def SQSIZE_def)
qed

text \<open>
  What happens to the queues between two points where a process runs undisturbed: events wake
  processes, a signal or a new process sets one running, the priorities are recomputed, and the
  running process blocks or is preempted, upon which \<open>swtch\<close> chooses another one.
\<close>

inductive sched_step :: "'a sched_scheme \<Rightarrow> 'a sched_scheme \<Rightarrow> bool" where
  Wakeup: "chan \<noteq> 0 \<Longrightarrow> wakeup chan s = Ok s' \<Longrightarrow> sched_step s s'"
| Wakeup_one: "chan \<noteq> 0 \<Longrightarrow> wakeup_one chan s = Ok s' \<Longrightarrow> sched_step s s'"
| Setrun: "setrun p s = Ok s' \<Longrightarrow> sched_step s s'"
| Priorities: "hz \<noteq> 0 \<Longrightarrow> int32 (int32 (avenrun0 s * nrscale) + FSCALE) \<noteq> 0 \<Longrightarrow>
    schedcpu_loop hz [0..<length (procs s)] s = Ok s' \<Longrightarrow> sched_step s s'"
| Block: "\<not> noproc s \<Longrightarrow> \<not> panicstr s \<Longrightarrow> sleep False sig chan pri s = Ok (s1, Switch) \<Longrightarrow>
    swtch s1 = Ok (s', r) \<Longrightarrow> sched_step s s'"
| Interrupted: "\<not> noproc s \<Longrightarrow> \<not> panicstr s \<Longrightarrow> sleep False sig chan pri s = Ok (s', r) \<Longrightarrow> r \<noteq> Switch \<Longrightarrow>
    sched_step s s'"
| Preempt: "\<not> noproc s \<Longrightarrow> setrq (u_procp s) s = Ok s1 \<Longrightarrow> swtch s1 = Ok (s', r) \<Longrightarrow> sched_step s s'"
| Idle: "noproc s \<Longrightarrow> swtch s = Ok (s', r) \<Longrightarrow> sched_step s s'"

lemma swtch_inv:
  assumes "sched_inv (swtch_start s)"
  shows "\<exists>s' r. swtch s = Ok (s', r) \<and> sched_inv s' \<and> running_ok s'"
proof (cases "first_bit (whichqs s)")
  case None
  then show ?thesis using swtch_idle(1)[OF assms None] assms by (simp add: running_ok_def)
next
  case (Some d)
  then show ?thesis using swtch_picks[OF assms Some] by blast
qed

lemma sched_inv_start:
  assumes "sched_inv s" and "noproc s \<or> p_stat (procs s ! u_procp s) \<noteq> SRUN \<or> u_procp s \<in> set (concat (qs s))"
  shows "sched_inv (swtch_start s)"
proof -
  have "u_procp s \<in> set (concat (qs s)) \<longleftrightarrow> (\<exists>d<32. u_procp s \<in> set (qs s ! (31 - d)))"
    by (rule mem_qs_iff[OF sched_inv_D(1)[OF assms(1)]])
  then have "ready_ok {} (swtch_start s)"
    using sched_inv_D(3)[OF assms(1)] assms(2) by (auto simp: ready_ok_def)
  then show ?thesis using assms(1) by (simp add: sched_inv_x_def)
qed

lemma setrun_panic:
  "p_stat (procs s ! p) \<notin> {SSTOP, SSLEEP, SIDL} \<Longrightarrow> setrun p s \<noteq> Ok s'"
  by (auto simp: setrun_def with_proc_def)

lemma sleep_block_start:
  assumes inv: "sched_inv s" and run: "running_ok s" "\<not> noproc s" "\<not> panicstr s"
    and s1: "sleep False sig chan pri s = Ok (s1, r)"
  shows "chan \<noteq> 0" and "r \<noteq> Switch \<Longrightarrow> sched_inv s1 \<and> running_ok s1"
    and "r = Switch \<Longrightarrow> sched_inv (swtch_start s1)"
proof -
  show c: "chan \<noteq> 0"
    using s1 run by (auto simp: sleep_def Let_def with_proc_def running_ok_def)
  obtain t v where t: "sleep False sig chan pri s = Ok (t, v)" "sched_inv t" "sched_frame s t"
    "if PZERO < pri AND PMASK \<and> sig
     then v = slept_sig pri \<and> running_ok t \<and> p_wchan (procs t ! u_procp s) = 0
     else v = Switch \<and> p_stat (procs t ! u_procp s) = SSLEEP \<and> p_wchan (procs t ! u_procp s) = chan \<and>
       slpque t = (slpque s)[HASH chan := slpque s ! HASH chan @ [u_procp s]]"
    using sleep_spec[OF inv run(1,2) c run(3), of sig pri] by (elim exE conjE) (rule that)
  have e: "s1 = t" "r = v" using s1 t(1) by simp_all
  show "r \<noteq> Switch \<Longrightarrow> sched_inv s1 \<and> running_ok s1" using t(2,4) e by (auto split: if_splits)
  assume "r = Switch"
  moreover have "slept_sig pri \<noteq> Switch" by (simp add: slept_sig_def)
  ultimately have "p_stat (procs t ! u_procp s) = SSLEEP" using t(4) e by (auto split: if_splits)
  moreover have "u_procp t = u_procp s" using t(3) by (simp add: sched_frame_def)
  ultimately show "sched_inv (swtch_start s1)"
    unfolding e by (intro sched_inv_start t(2)) (simp add: stat_defs)
qed

lemma preempt_start:
  assumes inv: "sched_inv s" and run: "running_ok s" "\<not> noproc s" and ok: "setrq (u_procp s) s = Ok s1"
  shows "sched_inv (swtch_start s1)"
proof -
  let ?p = "u_procp s"
  have p: "?p < length (procs s)" "p_stat (procs s ! ?p) = SRUN" "?p \<notin> set (concat (qs s))"
    and ld: "loaded (procs s ! ?p)"
    using run by (simp_all add: running_ok_def)
  have w: "p_wchan (procs s ! ?p) = 0" using waiting_stat[OF inv p(1)] p(2) by blast
  obtain t where t: "setrq ?p s = Ok t" "sched_inv_x ({} - {?p}) t" "sched_frame s t" "?p \<in> set (concat (qs t))"
    using setrq_spec[OF inv p(1,2) w ld p(3)] by blast
  have "u_procp t = ?p" using t(3) by (simp add: sched_frame_def)
  then have "sched_inv (swtch_start t)" using t(2,4) by (intro sched_inv_start) simp_all
  then show ?thesis using t(1) ok by simp
qed

lemma sched_step_inv:
  assumes "sched_step s s'" and inv: "sched_inv s" and run: "running_ok s"
  shows "sched_inv s' \<and> running_ok s'"
  using assms(1)
proof (cases rule: sched_step.cases)
  case (Wakeup chan)
  then show ?thesis using wakeup_spec[OF inv, of chan] run by (auto simp: wakeup_result_def)
next
  case (Wakeup_one chan)
  then show ?thesis using wakeup_one_spec[OF inv, of chan] run by (auto simp: woke_one_def)
next
  case (Setrun p)
  then have "p < length (procs s)" by (auto simp: setrun_def with_proc_def split: if_splits)
  moreover have "p_stat (procs s ! p) \<in> {SSTOP, SSLEEP, SIDL}" using setrun_panic Setrun by blast
  ultimately show ?thesis using setrun_spec[OF inv, of p] Setrun run by auto
next
  case (Priorities hz)
  then show ?thesis using schedcpu_loop_spec[OF inv run, of "[0..<length (procs s)]" hz] by auto
next
  case (Block sig chan pri s1 r)
  then show ?thesis using sleep_block_start(3)[OF inv run Block(1-3)] swtch_inv[of s1] by auto
next
  case (Interrupted sig chan pri r)
  then show ?thesis using sleep_block_start(2)[OF inv run Interrupted(1-3)] by blast
next
  case (Preempt s1 r)
  then show ?thesis using preempt_start[OF inv run Preempt(1,2)] swtch_inv[of s1] by auto
next
  case (Idle r)
  then show ?thesis using sched_inv_start[OF inv] swtch_inv[of s] by auto
qed

text \<open>
  C6: the queues of processes stay consistent.  In every state reached by waking, setting
  running, recomputing priorities, blocking, preempting and switching, every sleeper is on the
  queue of its channel and no other process is, every ready process in core but the running one
  is on the run queue of its priority, \<open>whichqs\<close> names the non-empty queues, and the running
  process is on no queue.
\<close>
theorem sched_reachable_consistent:
  assumes "sched_step\<^sup>*\<^sup>* s s'" and "sched_inv s" and "running_ok s"
  shows "sched_inv s' \<and> running_ok s'"
  using assms by (induction rule: rtranclp_induct) (auto dest: sched_step_inv)


text \<open>
  C17: \<open>swtch\<close> runs a best process.  It takes the first process of the best non-empty run queue,
  so that no runnable process has a better priority class; if it takes none, nothing can run.
\<close>
theorem swtch_best:
  assumes "sched_inv (swtch_start s)"
  shows "(swtch s = Ok (swtch_start s, None) \<and> (\<forall>p. \<not> runnable s p)) \<or>
    (\<exists>s' d p q. swtch s = Ok (s', Some p) \<and> qs s ! (31 - d) = p # q \<and> qs s' = (qs s)[31 - d := q] \<and>
       u_procp s' = p \<and> runnable s p \<and>
       (\<forall>r. \<not> runnable s r \<or> p_pri (procs s ! p) div 4 \<le> p_pri (procs s ! r) div 4))"
proof (cases "first_bit (whichqs s)")
  case None
  then show ?thesis using swtch_idle[OF assms None] by blast
next
  case (Some d)
  then show ?thesis using swtch_picks[OF assms Some] by (intro disjI2) fast
qed

lemma decay_cpu_cong: "p_cpu y = p_cpu x \<Longrightarrow> p_nice y = p_nice x \<Longrightarrow> decay_cpu av y = decay_cpu av x"
  by (simp only: decay_cpu_def)

lemma decay_div: "0 \<le> c \<Longrightarrow> 0 \<le> b \<Longrightarrow> c * b div (b + 256) \<le> (c::int)"
proof -
  assume "0 \<le> c" "0 \<le> b"
  then have "c * b \<le> c * (b + 256)" by (simp add: mult_left_mono)
  then have "c * b div (b + 256) \<le> c * (b + 256) div (b + 256)" using \<open>0 \<le> b\<close> by (intro zdiv_mono1) simp_all
  then show ?thesis using \<open>0 \<le> b\<close> by simp
qed


section \<open>Witnesses\<close>

definition demo_proc :: "int \<Rightarrow> int \<Rightarrow> proc" where
  "demo_proc st pri = \<lparr>p_stat = st, p_flag = 1, p_pri = pri, p_usrpri = 60, p_cpu = 40, p_time = 0,
     p_nice = 20, p_slptime = 0, p_wchan = 0, p_rssize = 0, p_maxrss = 100, p_textp = None,
     p_cpticks = 5, p_pctcpu = 0, p_sig = 0, p_sigmask = 0, p_sigignore = 0, p_sigcatch = 0,
     p_cursig = 0, p_pptr = Some 0, p_tptr = None, p_pid = 10, p_ppid = 1, p_pgrp = 10, p_uid = 0,
     p_idhash = 0,
     p_realtimer = \<lparr>it_interval = timerclear, it_value = timerclear\<rparr>\<rparr>"

definition demo_sched_of :: "proc list \<Rightarrow> sched" where
  "demo_sched_of ps = rqinit \<lparr>calltodo = [], callfree = replicate 4 \<lparr>c_time = 0, c_arg = 0, c_func = Driver 0\<rparr>,
     procs = ps, slpque = [], qs = [], whichqs = replicate 32 False,
     u_procp = 1, noproc = False, runrun = 0, astpend = False, curpri = 60, runin = 0, runout = 0,
     wantin = 0, freemem = 10, desfree = 5, avenrun0 = 256, bclnlist = False, panicstr = False, ru_nvcsw = 0,
     a_lbolt = 1024, a_runin = 2048, a_runout = 4096, a_proc = (\<lambda>i. 8192 + int i)\<rparr>"

definition demo_sched :: sched where
  "demo_sched = demo_sched_of [demo_proc SIDL 50, demo_proc SRUN 60]"

lemma demo_sched_inv: "sched_inv demo_sched" "running_ok demo_sched"
proof -
  show "sched_inv demo_sched" unfolding demo_sched_def demo_sched_of_def
    by (rule rqinit_inv(1)) (auto simp: demo_proc_def proc_ok_def stat_defs less_Suc_eq)
  show "running_ok demo_sched"
    by (simp add: running_ok_def demo_sched_def demo_sched_of_def rqinit_def demo_proc_def loaded_def SLOAD_def NQS_def)
qed

text \<open>The running process sleeps on channel 64; then a wakeup of the channel finds it.\<close>

lemma demo_sleep:
  obtains s1 where "sleep False False 64 20 demo_sched = Ok (s1, Switch)" "sched_inv s1"
    "waits_on 64 s1 = {1}" "p_stat (procs s1 ! 1) = SSLEEP"
proof -
  have d: "u_procp demo_sched = 1" "\<not> noproc demo_sched" "\<not> panicstr demo_sched"
    "length (procs demo_sched) = 2" "p_wchan (procs demo_sched ! 0) = 0"
    by (simp_all add: demo_sched_def demo_sched_of_def rqinit_def demo_proc_def)
  obtain s1 r where s1: "sleep False False 64 20 demo_sched = Ok (s1, r)" "sched_inv s1"
    "sched_frame demo_sched s1"
    "\<forall>p<length (procs demo_sched). p \<noteq> u_procp demo_sched \<longrightarrow> procs s1 ! p = procs demo_sched ! p"
    "r = Switch" "p_stat (procs s1 ! u_procp demo_sched) = SSLEEP" "p_wchan (procs s1 ! u_procp demo_sched) = 64"
    using sleep_spec[OF demo_sched_inv d(2) _ d(3), of 64 False 20] by auto
  have "p_wchan (procs s1 ! 0) = 0" using s1(4) d by simp
  moreover have "length (procs s1) = 2" using s1(3) d by (simp add: sched_frame_def)
  moreover have "p_wchan (procs s1 ! 1) = 64" using s1(7) d by simp
  ultimately have "waits_on 64 s1 = {1}"
    by (auto simp: waits_on_def less_Suc_eq numeral_2_eq_2)
  then show ?thesis using that s1 d by simp
qed


lemma sched_reachable_consistent_witness:
  "\<exists>s1. setrun 0 demo_sched = Ok s1 \<and> sched_inv s1 \<and> running_ok s1"
proof -
  have "0 < length (procs demo_sched)" "p_stat (procs demo_sched ! 0) \<in> {SSTOP, SSLEEP, SIDL}"
    by (simp_all add: demo_sched_def demo_sched_of_def rqinit_def demo_proc_def)
  then obtain s1 where s1: "setrun 0 demo_sched = Ok s1" using setrun_spec[OF demo_sched_inv(1)] by blast
  have "sched_step\<^sup>*\<^sup>* demo_sched s1" using Setrun[OF s1] by blast
  then show ?thesis using sched_reachable_consistent[OF _ demo_sched_inv] s1 by blast
qed

lemma swtch_best_witness:
  "case setrq 1 demo_sched of Ok s1 \<Rightarrow> (case swtch s1 of Ok (s2, r) \<Rightarrow> r = Some 1 | _ \<Rightarrow> False) | _ \<Rightarrow> False"
proof -
  have d: "\<not> noproc demo_sched" "u_procp demo_sched = 1" "p_wchan (procs demo_sched ! 1) = 0"
    "1 < length (procs demo_sched)" "p_stat (procs demo_sched ! 1) = SRUN" "loaded (procs demo_sched ! 1)"
    "1 \<notin> set (concat (qs demo_sched))" "p_stat (procs demo_sched ! 0) \<noteq> SRUN" "length (procs demo_sched) = 2"
    by (simp_all add: demo_sched_def demo_sched_of_def rqinit_def demo_proc_def loaded_def SLOAD_def NQS_def stat_defs)
  obtain s1 where s1: "setrq 1 demo_sched = Ok s1" "procs s1 = procs demo_sched"
    using setrq_spec[OF demo_sched_inv(1) d(4,5,3,6,7)] by blast
  have st: "sched_inv (swtch_start s1)"
    using preempt_start[OF demo_sched_inv d(1), of s1] s1(1) d(2) by simp
  have r: "runnable s1 p \<longleftrightarrow> p = 1" for p
    using d s1(2) by (auto simp: runnable_def less_2_cases_iff)
  obtain s2 q where "swtch s1 = Ok (s2, Some q)" "runnable s1 q"
    using swtch_best[OF st] r[of 1] by blast
  then show ?thesis using r[of q] s1(1) by simp
qed


end
