(* ===== verification/Signal.thy ===== *)
theory Signal
  imports Sched Ipc
begin

text \<open>
  Sending signals (\<open>sys/kern_sig.c\<close>: \<open>psignal\<close>, \<open>stop\<close>, \<open>gsignal\<close>, \<open>killpg1\<close>, \<open>killpg\<close>, \<open>kill\<close>,
  and the calls that set the dispositions and the mask; \<open>inferior\<close> and \<open>pfind\<close> of
  \<open>sys/kern_proc.c\<close>).  Signal sets are 32-bit words, read as signed integers.
\<close>

section \<open>State\<close>

definition NSIG :: int where "NSIG = 32"
definition SIGKILL :: int where "SIGKILL = 9"
definition SIGALRM :: int where "SIGALRM = 14"
definition SIGTERM :: int where "SIGTERM = 15"
definition SIGURG :: int where "SIGURG = 16"
definition SIGSTOP :: int where "SIGSTOP = 17"
definition SIGTSTP :: int where "SIGTSTP = 18"
definition SIGCONT :: int where "SIGCONT = 19"
definition SIGCHLD :: int where "SIGCHLD = 20"
definition SIGTTIN :: int where "SIGTTIN = 21"
definition SIGTTOU :: int where "SIGTTOU = 22"
definition SIGIO :: int where "SIGIO = 23"
definition SIGXCPU :: int where "SIGXCPU = 24"
definition SIGVTALRM :: int where "SIGVTALRM = 26"
definition SIGPROF :: int where "SIGPROF = 27"
definition SIGWINCH :: int where "SIGWINCH = 28"
definition SSYS :: int where "SSYS = 0x2"
definition SOMASK :: int where "SOMASK = 0x200"
definition ESRCH :: int where "ESRCH = 3"
definition EFAULT :: int where "EFAULT = 14"

lemmas sig_defs = SIGKILL_def SIGALRM_def SIGTERM_def SIGURG_def SIGSTOP_def SIGTSTP_def SIGCONT_def
  SIGCHLD_def SIGTTIN_def SIGTTOU_def SIGIO_def SIGXCPU_def SIGVTALRM_def SIGPROF_def SIGWINCH_def

text \<open>A shift by -1, for signal 0, gives 0: the machine takes the count modulo 64.\<close>

definition sigmask :: "int \<Rightarrow> int" where
  "sigmask m = (if m = 0 then 0 else push_bit (nat (m - 1)) 1)"

definition stops :: int where
  "stops = sigmask SIGSTOP OR sigmask SIGTSTP OR sigmask SIGTTIN OR sigmask SIGTTOU"

definition cantmask :: int where
  "cantmask = sigmask SIGKILL OR sigmask SIGCONT OR sigmask SIGSTOP"

definition is_stop_sig :: "int \<Rightarrow> bool" where
  "is_stop_sig sig \<longleftrightarrow> sig = SIGSTOP \<or> sig = SIGTSTP \<or> sig = SIGTTIN \<or> sig = SIGTTOU"

text \<open>The dispositions: \<open>SIG_DFL\<close>, \<open>SIG_IGN\<close> or the address of a handler.\<close>

definition SIG_DFL :: int where "SIG_DFL = 0"
definition SIG_IGN :: int where "SIG_IGN = 1"

record sigstate = sched +
  uarea :: uarea
  u_signal :: "int list"
  u_sigmask :: "int list"
  u_sigonstack :: int
  u_sigintr :: int
  u_sigreset :: int
  u_oldmask :: int
  pidhash :: "nat list"

section \<open>\<open>psignal\<close>\<close>

datatype sigaction = Sig_dfl | Sig_catch | Sig_hold

text \<open>The choice of the action; none if the signal is ignored.\<close>

definition psig_action :: "proc \<Rightarrow> int \<Rightarrow> sigaction option" where
  "psig_action x msk =
     (if p_flag x AND STRC \<noteq> 0 then Some Sig_dfl
      else if p_sigignore x AND msk \<noteq> 0 then None
      else if p_sigmask x AND msk \<noteq> 0 then Some Sig_hold
      else if p_sigcatch x AND msk \<noteq> 0 then Some Sig_catch
      else Some Sig_dfl)"

definition nice_down :: "proc \<Rightarrow> proc" where
  "nice_down x = (if NZERO < p_nice x then x\<lparr>p_nice := NZERO\<rparr> else x)"

definition psig_mark :: "proc \<Rightarrow> int \<Rightarrow> sigaction \<Rightarrow> proc" where
  "psig_mark x0 sig act =
     (let x = x0\<lparr>p_sig := p_sig x0 OR sigmask sig\<rparr> in
      if sig = SIGTERM then
        (if p_flag x AND STRC \<noteq> 0 \<or> act \<noteq> Sig_dfl then x else nice_down x)
      else if sig = SIGKILL then nice_down x
      else if sig = SIGCONT then x\<lparr>p_sig := p_sig x AND NOT stops\<rparr>
      else if is_stop_sig sig then x\<lparr>p_sig := p_sig x AND NOT (sigmask SIGCONT)\<rparr>
      else x)"

text \<open>The label \<open>run\<close>.\<close>

definition psig_run :: "nat \<Rightarrow> 'a sched_scheme \<Rightarrow> 'a sched_scheme outcome" where
  "psig_run p s = with_proc p s (\<lambda>x.
     obind (if PUSER < p_pri x then
              (if (p \<noteq> u_procp s \<or> noproc s) \<and> p_stat x = SRUN \<and> loaded x
               then obind (remrq p s) (\<lambda>s1. setrq p (put_proc p (x\<lparr>p_pri := PUSER\<rparr>) s1))
               else Ok (put_proc p (x\<lparr>p_pri := PUSER\<rparr>) s))
            else Ok s)
       (setrun p))"

text \<open>\<open>stop\<close>; \<open>chld\<close> is the call of \<open>psignal\<close> that sends \<open>SIGCHLD\<close> to the parent.\<close>

definition a_link :: "'a sched_scheme \<Rightarrow> nat option \<Rightarrow> int" where
  "a_link s q = (case q of None \<Rightarrow> 0 | Some i \<Rightarrow> a_proc s i)"

definition stop_with :: "(nat \<Rightarrow> 'a sched_scheme \<Rightarrow> 'a sched_scheme outcome) \<Rightarrow> nat \<Rightarrow>
    'a sched_scheme \<Rightarrow> 'a sched_scheme outcome" where
  "stop_with chld p s = with_proc p s (\<lambda>x.
     let x1 = x\<lparr>p_stat := SSTOP, p_flag := p_flag x AND NOT SWTED\<rparr>; s1 = put_proc p x1 s in
     if p_flag x1 AND STRC \<noteq> 0 then wakeup (a_link s1 (p_tptr x1)) s1
     else obind (wakeup (a_link s1 (p_pptr x1)) s1) (\<lambda>s2.
       case p_pptr (procs s2 ! p) of None \<Rightarrow> Fault | Some q \<Rightarrow> chld q s2))"

definition clear_sig :: "nat \<Rightarrow> int \<Rightarrow> 'a sched_scheme \<Rightarrow> 'a sched_scheme" where
  "clear_sig p msk s = put_proc p ((procs s ! p)\<lparr>p_sig := p_sig (procs s ! p) AND NOT msk\<rparr>) s"

text \<open>The case \<open>SSLEEP\<close>; \<open>kill\<close> is the call \<open>psignal(p, SIGKILL)\<close>.\<close>

definition psig_sleeping :: "(nat \<Rightarrow> 'a sched_scheme \<Rightarrow> 'a sched_scheme outcome) \<Rightarrow>
    (nat \<Rightarrow> 'a sched_scheme \<Rightarrow> 'a sched_scheme outcome) \<Rightarrow> sigaction \<Rightarrow> nat \<Rightarrow> int \<Rightarrow>
    'a sched_scheme \<Rightarrow> 'a sched_scheme outcome" where
  "psig_sleeping kill chld act p sig s = with_proc p s (\<lambda>x.
     if p_pri x \<le> PZERO then Ok s
     else if p_flag x AND STRC \<noteq> 0 then psig_run p s
     else if is_stop_sig sig then
       (if act \<noteq> Sig_dfl then psig_run p s
        else if sig \<noteq> SIGSTOP \<and> p_pptr x = Some 1 then
          obind (kill p s) (\<lambda>s1. Ok (clear_sig p (sigmask sig) s1))
        else if p_flag x AND SVFORK \<noteq> 0 then Ok s
        else stop_with chld p
          (put_proc p (x\<lparr>p_sig := p_sig x AND NOT (sigmask sig), p_cursig := sig\<rparr>) s))
     else if sig = SIGIO \<or> sig = SIGURG \<or> sig = SIGCHLD \<or> sig = SIGWINCH then
       (if act \<noteq> Sig_dfl then psig_run p s else Ok (clear_sig p (sigmask sig) s))
     else psig_run p s)"

text \<open>The case \<open>SSTOP\<close>.\<close>

definition psig_stopped :: "sigaction \<Rightarrow> nat \<Rightarrow> int \<Rightarrow> 'a sched_scheme \<Rightarrow> 'a sched_scheme outcome" where
  "psig_stopped act p sig s = with_proc p s (\<lambda>x.
     if p_flag x AND STRC \<noteq> 0 then Ok s
     else if sig = SIGKILL then psig_run p s
     else if sig = SIGCONT then
       (if act \<noteq> Sig_dfl \<or> p_wchan x = 0 then psig_run p s
        else Ok (put_proc p (x\<lparr>p_stat := SSLEEP\<rparr>) s))
     else if is_stop_sig sig then Ok (clear_sig p (sigmask sig) s)
     else if p_wchan x \<noteq> 0 \<and> PZERO < p_pri x then unsleep p s
     else Ok s)"

definition psignal_with :: "(nat \<Rightarrow> 'a sched_scheme \<Rightarrow> 'a sched_scheme outcome) \<Rightarrow>
    (nat \<Rightarrow> 'a sched_scheme \<Rightarrow> 'a sched_scheme outcome) \<Rightarrow> nat \<Rightarrow> int \<Rightarrow>
    'a sched_scheme \<Rightarrow> 'a sched_scheme outcome" where
  "psignal_with kill chld p sig s =
     (if sig < 0 \<or> NSIG \<le> sig then Ok s
      else with_proc p s (\<lambda>x.
        case psig_action x (sigmask sig) of
          None \<Rightarrow> Ok s
        | Some act \<Rightarrow>
            (let s1 = (if sig \<noteq> 0 then put_proc p (psig_mark x sig act) s else s) in
             if act = Sig_hold then Ok s1
             else if p_stat x = SSLEEP then psig_sleeping kill chld act p sig s1
             else if p_stat x = SSTOP then psig_stopped act p sig s1
             else Ok (if p = u_procp s1 \<and> \<not> noproc s1 then s1\<lparr>astpend := True\<rparr> else s1))))"

text \<open>
  \<open>psignal\<close> calls itself for \<open>SIGKILL\<close> and, in \<open>stop\<close>, for \<open>SIGCHLD\<close>; for these two signals it
  makes no further call, so that two levels are the whole routine (\<open>psignal_rec\<close> below).
\<close>

definition psignal_leaf :: "nat \<Rightarrow> int \<Rightarrow> 'a sched_scheme \<Rightarrow> 'a sched_scheme outcome" where
  "psignal_leaf = psignal_with (\<lambda>p s. Fault) (\<lambda>p s. Fault)"

definition psignal :: "nat \<Rightarrow> int \<Rightarrow> 'a sched_scheme \<Rightarrow> 'a sched_scheme outcome" where
  "psignal = psignal_with (\<lambda>p. psignal_leaf p SIGKILL) (\<lambda>p. psignal_leaf p SIGCHLD)"

definition stop :: "nat \<Rightarrow> 'a sched_scheme \<Rightarrow> 'a sched_scheme outcome" where
  "stop = stop_with (\<lambda>p. psignal p SIGCHLD)"

fun gsignal_loop :: "nat list \<Rightarrow> int \<Rightarrow> int \<Rightarrow> 'a sched_scheme \<Rightarrow> 'a sched_scheme outcome" where
  "gsignal_loop [] pgrp sig s = Ok s"
| "gsignal_loop (p # ps) pgrp sig s =
     obind (if p_pgrp (procs s ! p) = pgrp then psignal p sig s else Ok s) (gsignal_loop ps pgrp sig)"

definition gsignal :: "int \<Rightarrow> int \<Rightarrow> 'a sched_scheme \<Rightarrow> 'a sched_scheme outcome" where
  "gsignal pgrp sig s =
     (if pgrp = 0 then Ok s else gsignal_loop [0..<length (procs s)] pgrp sig s)"

section \<open>\<open>kill\<close> and \<open>killpg\<close>\<close>

text \<open>
  \<open>inferior\<close> follows the chain of parents and \<open>pfind\<close> a hash chain; both chains are no longer
  than the process table, and a longer walk is a loop in the table.
\<close>

fun inferior_loop :: "nat \<Rightarrow> nat option \<Rightarrow> 'a sched_scheme \<Rightarrow> bool outcome" where
  "inferior_loop 0 p s = Fault"
| "inferior_loop (Suc n) p s = (case p of
       None \<Rightarrow> Fault
     | Some q \<Rightarrow> (if q = u_procp s then Ok True
         else with_proc q s (\<lambda>x. if p_ppid x = 0 then Ok False else inferior_loop n (p_pptr x) s)))"

definition inferior :: "nat \<Rightarrow> 'a sched_scheme \<Rightarrow> bool outcome" where
  "inferior p s = inferior_loop (Suc (length (procs s))) (Some p) s"

definition PIDHASH :: "int \<Rightarrow> nat" where
  "PIDHASH pid = nat (pid smod 15)"

fun pfind_loop :: "nat \<Rightarrow> nat \<Rightarrow> int \<Rightarrow> proc list \<Rightarrow> nat option outcome" where
  "pfind_loop 0 p pid ps = Fault"
| "pfind_loop (Suc n) p pid ps =
     (if p = 0 then Ok None
      else if \<not> p < length ps then Fault
      else if p_pid (ps ! p) = pid then Ok (Some p)
      else pfind_loop n (p_idhash (ps ! p)) pid ps)"

definition pfind :: "int \<Rightarrow> 'a sigstate_scheme \<Rightarrow> nat option outcome" where
  "pfind pid s = obind (aget (pidhash s) (PIDHASH pid)) (\<lambda>p.
     pfind_loop (Suc (length (procs s))) p pid (procs s))"

text \<open>
  The loop of \<open>killpg1\<close>, with the error and the number of processes reached.  The test of
  \<open>inferior\<close> is made only if the other tests demand it.
\<close>

definition kill_skips :: "int \<Rightarrow> bool \<Rightarrow> nat \<Rightarrow> 'a sigstate_scheme \<Rightarrow> bool" where
  "kill_skips pgrp all p s =
     (let x = procs s ! p in
      p_pgrp x \<noteq> pgrp \<and> \<not> all \<or> p_ppid x = 0 \<or> p_flag x AND SSYS \<noteq> 0 \<or> all \<and> p = u_procp s)"

definition may_kill :: "int \<Rightarrow> nat \<Rightarrow> 'a sigstate_scheme \<Rightarrow> bool outcome" where
  "may_kill signo p s =
     (if u_uid (uarea s) \<noteq> 0 \<and> u_uid (uarea s) \<noteq> p_uid (procs s ! p) then
        (if signo \<noteq> SIGCONT then Ok False else inferior p s)
      else Ok True)"

fun killpg1_loop :: "nat list \<Rightarrow> int \<Rightarrow> int \<Rightarrow> bool \<Rightarrow> int \<Rightarrow> nat \<Rightarrow> 'a sigstate_scheme \<Rightarrow>
    ('a sigstate_scheme \<times> int \<times> nat) outcome" where
  "killpg1_loop [] signo pgrp all error f s = Ok (s, error, f)"
| "killpg1_loop (p # ps) signo pgrp all error f s =
     (if p_stat (procs s ! p) = 0 \<or> kill_skips pgrp all p s
      then killpg1_loop ps signo pgrp all error f s
      else obind (may_kill signo p s) (\<lambda>may.
        if \<not> may then killpg1_loop ps signo pgrp all (if all then error else EPERM) f s
        else obind (if signo \<noteq> 0 then psignal p signo s else Ok s)
               (killpg1_loop ps signo pgrp all error (Suc f))))"

definition killpg1 :: "int \<Rightarrow> int \<Rightarrow> bool \<Rightarrow> 'a sigstate_scheme \<Rightarrow> ('a sigstate_scheme \<times> int) outcome" where
  "killpg1 signo pgrp0 all s =
     (let pgrp = (if \<not> all \<and> pgrp0 = 0 then p_pgrp (procs s ! u_procp s) else pgrp0) in
      if \<not> all \<and> pgrp = 0 then Ok (s, ESRCH)
      else obind (killpg1_loop [0..<length (procs s)] signo pgrp all 0 0 s) (\<lambda>(s', error, f).
        Ok (s', if error \<noteq> 0 then error else if f = 0 then ESRCH else 0)))"

definition set_error :: "int \<Rightarrow> 'a sigstate_scheme \<Rightarrow> 'a sigstate_scheme" where
  "set_error e s = s\<lparr>uarea := (uarea s)\<lparr>u_error := e\<rparr>\<rparr>"

definition kill :: "int \<Rightarrow> int \<Rightarrow> 'a sigstate_scheme \<Rightarrow> 'a sigstate_scheme outcome" where
  "kill pid signo s =
     (if signo < 0 \<or> NSIG < signo then Ok (set_error EINVAL s)
      else if 0 < pid then
        obind (pfind pid s) (\<lambda>r. case r of
          None \<Rightarrow> Ok (set_error ESRCH s)
        | Some p \<Rightarrow>
            (if u_uid (uarea s) \<noteq> 0 \<and> u_uid (uarea s) \<noteq> p_uid (procs s ! p) then Ok (set_error EPERM s)
             else if signo \<noteq> 0 then psignal p signo s
             else Ok s))
      else obind (if pid = - 1 then killpg1 signo 0 True s
                  else if pid = 0 then killpg1 signo 0 False s
                  else killpg1 signo (int32 (- pid)) False s)
             (\<lambda>(s', e). Ok (set_error e s')))"

definition killpg :: "int \<Rightarrow> int \<Rightarrow> 'a sigstate_scheme \<Rightarrow> 'a sigstate_scheme outcome" where
  "killpg pgrp signo s =
     (if signo < 0 \<or> NSIG < signo then Ok (set_error EINVAL s)
      else obind (killpg1 signo pgrp False s) (\<lambda>(s', e). Ok (set_error e s')))"

section \<open>Dispositions and masks\<close>

record sigvec_t =
  sv_handler :: int
  sv_mask :: int
  sv_flags :: int

definition SV_ONSTACK :: int where "SV_ONSTACK = 1"
definition SV_INTERRUPT :: int where "SV_INTERRUPT = 2"
definition SV_RESETHAND :: int where "SV_RESETHAND = 4"

definition set_bit_if :: "bool \<Rightarrow> int \<Rightarrow> int \<Rightarrow> int" where
  "set_bit_if b m x = (if b then x OR m else x AND NOT m)"

definition setsigvec :: "int \<Rightarrow> sigvec_t \<Rightarrow> 'a sigstate_scheme \<Rightarrow> 'a sigstate_scheme" where
  "setsigvec sig sv s =
     (let m = sigmask sig; p = u_procp s; x = procs s ! p;
          s1 = s\<lparr>u_signal := (u_signal s)[nat sig := sv_handler sv],
                 u_sigmask := (u_sigmask s)[nat sig := sv_mask sv AND NOT cantmask],
                 u_sigintr := set_bit_if (sv_flags sv AND SV_INTERRUPT \<noteq> 0) m (u_sigintr s),
                 u_sigonstack := set_bit_if (sv_flags sv AND SV_ONSTACK \<noteq> 0) m (u_sigonstack s),
                 u_sigreset := set_bit_if (sv_flags sv AND SV_RESETHAND \<noteq> 0) m (u_sigreset s)\<rparr>
      in if sv_handler sv = SIG_IGN
         then put_proc p (x\<lparr>p_sig := p_sig x AND NOT m, p_sigignore := p_sigignore x OR m,
                            p_sigcatch := p_sigcatch x AND NOT m\<rparr>) s1
         else put_proc p (x\<lparr>p_sigignore := p_sigignore x AND NOT m,
                            p_sigcatch := set_bit_if (sv_handler sv \<noteq> SIG_DFL) m (p_sigcatch x)\<rparr>) s1)"

text \<open>
  \<open>sigvec\<close>: \<open>osv\<close> is the result of \<open>copyout\<close> if the old vector is asked for, \<open>nsv\<close> the error or
  the value that \<open>copyin\<close> brings if a new one is given.  The result holds the old vector.
\<close>

definition sigvec :: "int \<Rightarrow> int option \<Rightarrow> (int + sigvec_t) option \<Rightarrow> 'a sigstate_scheme \<Rightarrow>
    'a sigstate_scheme \<times> sigvec_t option" where
  "sigvec sig osv nsv s =
     (if sig \<le> 0 \<or> NSIG \<le> sig \<or> sig = SIGKILL \<or> sig = SIGSTOP then (set_error EINVAL s, None)
      else
        (let old = (case osv of None \<Rightarrow> None
              | Some e \<Rightarrow> Some \<lparr>sv_handler = u_signal s ! nat sig, sv_mask = u_sigmask s ! nat sig,
                  sv_flags = (if u_sigonstack s AND sigmask sig \<noteq> 0 then SV_ONSTACK else 0) OR
                    (if u_sigintr s AND sigmask sig \<noteq> 0 then SV_INTERRUPT else 0) OR
                    (if u_sigreset s AND sigmask sig \<noteq> 0 then SV_RESETHAND else 0)\<rparr>);
             s1 = (case osv of None \<Rightarrow> s | Some e \<Rightarrow> set_error e s)
         in if osv \<noteq> None \<and> osv \<noteq> Some 0 then (s1, old)
            else (case nsv of
                None \<Rightarrow> (s1, old)
              | Some (Inl e) \<Rightarrow> (set_error e s1, old)
              | Some (Inr sv) \<Rightarrow>
                  (if sig = SIGCONT \<and> sv_handler sv = SIG_IGN then (set_error EINVAL s1, old)
                   else (setsigvec sig sv (set_error 0 s1), old)))))"

definition set_rval :: "int \<Rightarrow> 'a sigstate_scheme \<Rightarrow> 'a sigstate_scheme" where
  "set_rval v s = s\<lparr>uarea := (uarea s)\<lparr>u_rval1 := v\<rparr>\<rparr>"

definition set_mask :: "int \<Rightarrow> 'a sigstate_scheme \<Rightarrow> 'a sigstate_scheme" where
  "set_mask m s = put_proc (u_procp s) ((procs s ! u_procp s)\<lparr>p_sigmask := m\<rparr>) s"

definition sigblock :: "int \<Rightarrow> 'a sigstate_scheme \<Rightarrow> 'a sigstate_scheme" where
  "sigblock m s =
     (let old = p_sigmask (procs s ! u_procp s)
      in set_mask (old OR (m AND NOT cantmask)) (set_rval old s))"

definition sigsetmask :: "int \<Rightarrow> 'a sigstate_scheme \<Rightarrow> 'a sigstate_scheme" where
  "sigsetmask m s = set_mask (m AND NOT cantmask) (set_rval (p_sigmask (procs s ! u_procp s)) s)"

text \<open>\<open>sigpause\<close> up to its endless sleep.\<close>

definition sigpause :: "int \<Rightarrow> 'a sigstate_scheme \<Rightarrow> 'a sigstate_scheme" where
  "sigpause m s =
     (let x = procs s ! u_procp s
      in set_mask (m AND NOT cantmask)
           (put_proc (u_procp s) (x\<lparr>p_flag := p_flag x OR SOMASK\<rparr>) (s\<lparr>u_oldmask := p_sigmask x\<rparr>)))"

section \<open>\<open>psignal\<close> keeps the queues consistent\<close>

lemma psignal_with_leaf:
  assumes "sig = SIGKILL \<or> sig = SIGCHLD"
  shows "psignal_with k c p sig s = psignal_with k' c' p sig s"
proof -
  have F: "is_stop_sig sig = False" using assms by (auto simp: is_stop_sig_def sig_defs)
  have "psig_sleeping k c act p sig s = psig_sleeping k' c' act p sig s" for act s
    by (simp only: psig_sleeping_def F if_False)
  then show ?thesis by (simp only: psignal_with_def)
qed

text \<open>The recursion of the code.\<close>

lemma psignal_rec:
  "psignal p sig s = psignal_with (\<lambda>p. psignal p SIGKILL) (\<lambda>p. psignal p SIGCHLD) p sig s"
proof -
  have k: "(\<lambda>p. psignal p SIGKILL) = (\<lambda>p. psignal_leaf p SIGKILL)"
    unfolding psignal_leaf_def psignal_def by (intro ext, rule psignal_with_leaf) simp
  have c: "(\<lambda>p. psignal p SIGCHLD) = (\<lambda>p. psignal_leaf p SIGCHLD)"
    unfolding psignal_leaf_def psignal_def by (intro ext, rule psignal_with_leaf) simp
  show ?thesis unfolding k c by (simp only: psignal_def)
qed

text \<open>Every process has a parent, a traced one has a tracer, and addresses are not 0.\<close>

definition parents_ok :: "'a sched_scheme \<Rightarrow> bool" where
  "parents_ok s \<longleftrightarrow> (\<forall>i. a_proc s i \<noteq> 0) \<and>
     (\<forall>x\<in>set (procs s). (\<exists>q<length (procs s). p_pptr x = Some q) \<and> (p_flag x AND STRC = 0 \<or> p_tptr x \<noteq> None))"

definition sig_inv :: "'a sched_scheme \<Rightarrow> bool" where
  "sig_inv s \<longleftrightarrow> sched_inv s \<and> running_ok s \<and> parents_ok s"

lemma and_not_STRC: "(x AND NOT SWTED) AND STRC = x AND (STRC :: int)"
  by (simp add: and.assoc SWTED_def STRC_def)

lemma woken_fields [simp]:
  "p_flag (woken x) = p_flag x" "p_pptr (woken x) = p_pptr x" "p_tptr (woken x) = p_tptr x"
  "p_nice (woken x) = p_nice x" "p_sig (woken x) = p_sig x" "p_usrpri (woken x) = p_usrpri x"
  "p_realtimer (woken x) = p_realtimer x"
  by (simp_all add: woken_def asleep_def)

text \<open>A process that keeps its links and its timer.\<close>

definition same_links :: "proc \<Rightarrow> proc \<Rightarrow> bool" where
  "same_links x y \<longleftrightarrow> p_pptr y = p_pptr x \<and> p_tptr y = p_tptr x \<and>
     p_flag y AND STRC = p_flag x AND STRC \<and> p_realtimer y = p_realtimer x"

lemma same_links_refl [simp]: "same_links x x"
  by (simp add: same_links_def)

lemma same_links_woken [simp]: "same_links x (woken x)"
  by (simp add: same_links_def)

text \<open>The operations of this theory keep these of every process.\<close>

definition sig_frame :: "'a sched_scheme \<Rightarrow> 'a sched_scheme \<Rightarrow> bool" where
  "sig_frame s s' \<longleftrightarrow> sched_frame s s' \<and> (\<forall>r<length (procs s). same_links (procs s ! r) (procs s' ! r))"

lemma sig_frame_refl [simp]: "sig_frame s s"
  by (simp add: sig_frame_def)

lemma sig_frame_trans: "sig_frame s s1 \<Longrightarrow> sig_frame s1 s2 \<Longrightarrow> sig_frame s s2"
  using sched_frame_trans[of s s1 s2] by (simp add: sig_frame_def same_links_def sched_frame_def)

definition sig_good :: "'a sched_scheme \<Rightarrow> 'a sched_scheme outcome \<Rightarrow> bool" where
  "sig_good s m \<longleftrightarrow> (\<exists>s'. m = Ok s' \<and> sig_inv s' \<and> sig_frame s s')"

lemma sig_good_Ok [simp]: "sig_good s (Ok s') \<longleftrightarrow> sig_inv s' \<and> sig_frame s s'"
  by (simp add: sig_good_def)

lemma sig_good_bind:
  assumes "sig_good s m" and "\<And>s'. m = Ok s' \<Longrightarrow> sig_inv s' \<Longrightarrow> sig_frame s s' \<Longrightarrow> sig_good s' (f s')"
  shows "sig_good s (obind m f)"
  using assms sig_frame_trans unfolding sig_good_def by fastforce

lemma parents_ok_nth:
  "parents_ok s \<longleftrightarrow> (\<forall>i. a_proc s i \<noteq> 0) \<and> (\<forall>p<length (procs s).
     (\<exists>q<length (procs s). p_pptr (procs s ! p) = Some q) \<and>
     (p_flag (procs s ! p) AND STRC = 0 \<or> p_tptr (procs s ! p) \<noteq> None))"
  by (simp add: parents_ok_def all_set_conv_all_nth)

lemma nth_list_update_if:
  "j < length xs \<Longrightarrow> xs[i := x] ! j = (if i = j then x else xs ! j)"
  by (cases "i = j") simp_all

lemma parents_ok_step:
  assumes "parents_ok s" and "sig_frame s s'"
  shows "parents_ok s'"
  using assms by (auto simp: parents_ok_nth sig_frame_def sched_frame_def same_links_def)

lemma sig_frame_put: "same_links (procs s ! p) y \<Longrightarrow> sig_frame s (put_proc p y s)"
  by (auto simp: sig_frame_def nth_list_update_if)

lemma parents_ok_put:
  "parents_ok s \<Longrightarrow> same_links (procs s ! p) y \<Longrightarrow> parents_ok (put_proc p y s)"
  by (rule parents_ok_step[OF _ sig_frame_put])

lemma sig_inv_put:
  assumes "sig_inv s" and "p < length (procs s)"
    and "p_stat y = p_stat (procs s ! p)" "p_wchan y = p_wchan (procs s ! p)"
      "loaded y = loaded (procs s ! p)" "p_pri y = p_pri (procs s ! p)" "p_usrpri y = p_usrpri (procs s ! p)"
      "same_links (procs s ! p) y"
  shows "sig_inv (put_proc p y s)"
proof -
  have "proc_ok (procs s ! p)" using sched_inv_D(5) assms(1,2) by (auto simp: sig_inv_def)
  then have "proc_ok y" using assms(3-7) by (simp add: proc_ok_def)
  then have "sched_inv (put_proc p y s)"
    using assms by (intro sched_inv_put) (auto simp: sig_inv_def)
  moreover have "running_ok (put_proc p y s)"
    using assms by (intro running_put) (auto simp: sig_inv_def running_ok_def)
  ultimately show ?thesis using assms(1,8) parents_ok_put[of s p y] by (simp add: sig_inv_def)
qed

text \<open>A waiting process may change between sleeping and stopped, and take another priority.\<close>

lemma waiting_put:
  assumes "sched_inv s" "p < length (procs s)"
    and "p_stat (procs s ! p) = SSLEEP \<or> p_stat (procs s ! p) = SSTOP" "p_stat y = SSLEEP \<or> p_stat y = SSTOP"
    and "p_wchan y = p_wchan (procs s ! p)" "0 \<le> p_pri y" "p_pri y \<le> 127" "p_usrpri y = p_usrpri (procs s ! p)"
  shows "sched_inv (put_proc p y s)"
proof -
  note inv = assms(1)
  have st: "p_stat (procs s ! p) \<noteq> SRUN" using assms(3) by (auto simp: stat_defs)
  have nq: "p \<notin> set (concat (qs s))" by (rule waiting_not_queued[OF inv st])
  have oky: "proc_ok y" using sched_inv_D(5)[OF inv assms(2)] assms(4-8) by (simp add: proc_ok_def)
  show ?thesis
    unfolding sched_inv_x_def
  proof (intro conjI)
    show "rq_ok (procs (put_proc p y s)) (qs (put_proc p y s)) (whichqs (put_proc p y s))"
      using rq_ok_update_off[OF sched_inv_D(1)[OF inv] nq] by simp
    show "sq_ok (procs (put_proc p y s)) (slpque (put_proc p y s))"
      using sq_ok_update[OF sched_inv_D(2)[OF inv] assms(2,5)] by simp
    show "\<forall>x\<in>set (procs (put_proc p y s)). proc_ok x"
      using inv oky proc_ok_update[of "procs s" y p] by (simp add: sched_inv_x_def)
    show "ready_ok {} (put_proc p y s)"
      using sched_inv_D(3)[OF inv] assms(2,4) by (auto simp: ready_ok_def nth_list_update stat_defs)
    show "a_runout (put_proc p y s) \<noteq> 0" using sched_inv_D(4)[OF inv] by simp
  qed
qed

lemma sig_inv_waiting:
  assumes "sig_inv s" "p < length (procs s)"
    and "p_stat (procs s ! p) = SSLEEP \<or> p_stat (procs s ! p) = SSTOP" "p_stat y = SSLEEP \<or> p_stat y = SSTOP"
    and "p_wchan y = p_wchan (procs s ! p)" "0 \<le> p_pri y" "p_pri y \<le> 127" "p_usrpri y = p_usrpri (procs s ! p)"
    and "same_links (procs s ! p) y"
  shows "sig_inv (put_proc p y s)"
proof -
  have "sched_inv (put_proc p y s)" using assms by (intro waiting_put) (auto simp: sig_inv_def)
  moreover have "running_ok (put_proc p y s)"
  proof (rule running_put)
    show "running_ok s" using assms(1) by (simp add: sig_inv_def)
    show "noproc s \<or> p \<noteq> u_procp s \<or> p_stat y = SRUN \<and> loaded y"
      using assms(1,3) by (auto simp: sig_inv_def running_ok_def stat_defs)
  qed
  ultimately show ?thesis using assms(1,9) parents_ok_put[of s p y] by (simp add: sig_inv_def)
qed

lemma psig_run_spec:
  assumes inv: "sig_inv s" and p: "p < length (procs s)"
    and st: "p_stat (procs s ! p) = SSLEEP \<or> p_stat (procs s ! p) = SSTOP"
  shows "\<exists>s'. psig_run p s = Ok s' \<and> sig_inv s' \<and> sig_frame s s' \<and>
    p_stat (procs s' ! p) = SRUN \<and> p_wchan (procs s' ! p) = 0 \<and> p_pri (procs s' ! p) = min PUSER (p_pri (procs s ! p)) \<and>
    p_nice (procs s' ! p) = p_nice (procs s ! p) \<and> p_sig (procs s' ! p) = p_sig (procs s ! p) \<and>
    (loaded (procs s ! p) \<longrightarrow> p \<in> set (concat (qs s')))"
proof -
  let ?x = "procs s ! p"
  let ?y = "?x\<lparr>p_pri := min PUSER (p_pri ?x)\<rparr>"
  let ?t = "put_proc p ?y s"
  have si: "sched_inv s" using inv by (simp add: sig_inv_def)
  have ok: "proc_ok ?x" by (rule sched_inv_D(5)[OF si p])
  have it: "sig_inv ?t"
    using ok st by (intro sig_inv_waiting[OF inv p]) (auto simp: proc_ok_def PUSER_def same_links_def)
  have eq: "psig_run p s = setrun p ?t"
  proof (cases "PUSER < p_pri ?x")
    case True
    then show ?thesis using p st by (auto simp: psig_run_def with_proc_def stat_defs min_def)
  next
    case False
    then have "?y = ?x" by (simp add: min_def)
    then have "?t = s" by (simp add: put_proc_def)
    then show ?thesis using False p by (simp add: psig_run_def with_proc_def)
  qed
  have pt: "p < length (procs ?t)" "p_stat (procs ?t ! p) \<in> {SSTOP, SSLEEP, SIDL}" "procs ?t ! p = ?y"
    using p st by auto
  have sit: "sched_inv ?t" using it by (simp add: sig_inv_def)
  obtain s' where s': "setrun p ?t = Ok s'" "sched_inv s'" "sched_frame ?t s'"
    "running_ok ?t \<longrightarrow> running_ok s'" "procs s' ! p = (procs ?t ! p)\<lparr>p_wchan := 0, p_stat := SRUN\<rparr>"
    "loaded (procs ?t ! p) \<longrightarrow> p \<in> set (concat (qs s'))"
    "\<forall>r<length (procs ?t). r \<noteq> p \<longrightarrow> procs s' ! r = procs ?t ! r \<or>
       p_wchan (procs ?t ! r) = a_runout ?t \<and> procs s' ! r = woken (procs ?t ! r)"
    using setrun_spec[OF sit pt(1,2)] by blast
  have "sig_frame ?t s'"
    unfolding sig_frame_def
  proof (intro conjI allI impI)
    show "sched_frame ?t s'" by (rule s'(3))
    fix r assume r: "r < length (procs ?t)"
    show "same_links (procs ?t ! r) (procs s' ! r)"
    proof (cases "r = p")
      case True
      then show ?thesis using s'(5) by (simp add: same_links_def)
    next
      case False
      then have "procs s' ! r = procs ?t ! r \<or> procs s' ! r = woken (procs ?t ! r)" using s'(7) r by blast
      then show ?thesis by (metis same_links_refl same_links_woken)
    qed
  qed
  note ft = this
  have f: "sig_frame s s'"
    by (rule sig_frame_trans[OF sig_frame_put ft]) (simp add: same_links_def)
  have "parents_ok ?t" using it by (simp add: sig_inv_def)
  then have "parents_ok s'" by (rule parents_ok_step[OF _ ft])
  then have "sig_inv s'" using s'(2,4) it by (simp add: sig_inv_def)
  moreover have "loaded ?y = loaded ?x" by simp
  ultimately show ?thesis using eq s'(1,5,6) f unfolding pt(3) by simp
qed

lemma wakeup_sig:
  assumes "sig_inv s" and "chan \<noteq> 0"
  shows "sig_good s (wakeup chan s)"
proof -
  have "sched_inv s" using assms(1) by (simp add: sig_inv_def)
  then obtain s' where s': "wakeup chan s = Ok s'" "wakeup_result chan s s'"
    using wakeup_spec assms(2) by blast
  have "woken_as (wakes chan s) s s'" using s'(2) by (simp add: wakeup_result_def)
  then have f: "sig_frame s s'" using s'(2) by (simp add: sig_frame_def woken_as_def wakeup_result_def)
  have "parents_ok s" using assms(1) by (simp add: sig_inv_def)
  then have "parents_ok s'" by (rule parents_ok_step[OF _ f])
  then show ?thesis using s' f assms(1) by (simp add: sig_good_def sig_inv_def wakeup_result_def)
qed

lemma unsleep_sig:
  assumes "sig_inv s" and "p < length (procs s)"
  shows "sig_good s (unsleep p s)"
proof -
  have "sched_inv s" using assms(1) by (simp add: sig_inv_def)
  then obtain s' where s': "unsleep p s = Ok s'" "sched_inv s'" "sched_frame s s'"
    "procs s' = (procs s)[p := (procs s ! p)\<lparr>p_wchan := 0\<rparr>]" "running_ok s \<longrightarrow> running_ok s'"
    using unsleep_spec assms(2) by blast
  have f: "sig_frame s s'"
    unfolding sig_frame_def s'(4) using s'(3) by (auto simp: nth_list_update_if same_links_def)
  have "parents_ok s" using assms(1) by (simp add: sig_inv_def)
  then have "parents_ok s'" by (rule parents_ok_step[OF _ f])
  then show ?thesis using s' f assms(1) by (simp add: sig_inv_def)
qed

definition sig_keeps :: "(nat \<Rightarrow> 'a sched_scheme \<Rightarrow> 'a sched_scheme outcome) \<Rightarrow> bool" where
  "sig_keeps f \<longleftrightarrow> (\<forall>p s. sig_inv s \<longrightarrow> p < length (procs s) \<longrightarrow> sig_good s (f p s))"

lemma sig_good_from: "sig_frame s s1 \<Longrightarrow> sig_good s1 m \<Longrightarrow> sig_good s m"
  using sig_frame_trans unfolding sig_good_def by blast

lemma sig_good_put:
  "same_links (procs s ! p) y \<Longrightarrow> sig_good (put_proc p y s) m \<Longrightarrow> sig_good s m"
  by (rule sig_good_from[OF sig_frame_put])

lemma sig_frame_length: "sig_frame s s' \<Longrightarrow> length (procs s') = length (procs s)"
  by (simp add: sig_frame_def sched_frame_def)

lemma clear_sig_good:
  assumes "sig_inv s" and "p < length (procs s)"
  shows "sig_good s (Ok (clear_sig p m s))"
proof -
  have "sig_inv (clear_sig p m s)" unfolding clear_sig_def
    by (rule sig_inv_put[OF assms]) (simp_all add: same_links_def)
  moreover have "sig_frame s (clear_sig p m s)" unfolding clear_sig_def
    by (rule sig_frame_put) (simp add: same_links_def)
  ultimately show ?thesis by simp
qed

lemma stop_with_good:
  assumes c: "sig_keeps chld" and inv: "sig_inv s" and p: "p < length (procs s)"
    and st: "p_stat (procs s ! p) = SSLEEP"
  shows "sig_good s (stop_with chld p s)"
proof -
  let ?x = "procs s ! p"
  let ?x1 = "?x\<lparr>p_stat := SSTOP, p_flag := p_flag ?x AND NOT SWTED\<rparr>"
  let ?s1 = "put_proc p ?x1 s"
  have ok: "proc_ok ?x" using inv p sched_inv_D(5) by (auto simp: sig_inv_def)
  have i1: "sig_inv ?s1"
    by (rule sig_inv_waiting[OF inv p])
      (use st ok in \<open>simp_all add: proc_ok_def same_links_def and_not_STRC\<close>)
  have par: "\<exists>q<length (procs ?s1). p_pptr ?x1 = Some q" "p_flag ?x1 AND STRC = 0 \<or> p_tptr ?x1 \<noteq> None"
    "\<forall>i. a_proc ?s1 i \<noteq> 0"
    using i1 p by (auto simp: sig_inv_def parents_ok_nth)
  have eq: "stop_with chld p s =
      (if p_flag ?x1 AND STRC \<noteq> 0 then wakeup (a_link ?s1 (p_tptr ?x1)) ?s1
       else obind (wakeup (a_link ?s1 (p_pptr ?x1)) ?s1) (\<lambda>s2.
         case p_pptr (procs s2 ! p) of None \<Rightarrow> Fault | Some q \<Rightarrow> chld q s2))"
    using p by (simp add: stop_with_def with_proc_def Let_def)
  have "sig_good ?s1 (stop_with chld p s)"
  proof (cases "p_flag ?x1 AND STRC \<noteq> 0")
    case True
    then obtain q where "p_tptr ?x1 = Some q" using par(2) by auto
    then have "a_link ?s1 (p_tptr ?x1) \<noteq> 0" using par(3) by (simp add: a_link_def)
    then show ?thesis unfolding eq using True wakeup_sig[OF i1] by simp
  next
    case False
    obtain q where q: "p_pptr ?x1 = Some q" using par(1) by blast
    then have "a_link ?s1 (p_pptr ?x1) \<noteq> 0" using par(3) by (simp add: a_link_def)
    note w = wakeup_sig[OF i1 this]
    show ?thesis unfolding eq
    proof (simp only: False if_False, rule sig_good_bind[OF w])
      fix s2 assume s2: "sig_inv s2" "sig_frame ?s1 s2"
      then have "p < length (procs s2)" using p sig_frame_length[OF s2(2)] by simp
      then obtain r where "r < length (procs s2)" "p_pptr (procs s2 ! p) = Some r"
        using s2(1) by (auto simp: sig_inv_def parents_ok_nth)
      then show "sig_good s2 (case p_pptr (procs s2 ! p) of None \<Rightarrow> Fault | Some q \<Rightarrow> chld q s2)"
        using c s2(1) by (simp add: sig_keeps_def)
    qed
  qed
  then show ?thesis by (rule sig_good_put[rotated]) (simp add: same_links_def and_not_STRC)
qed

lemma psig_run_good:
  assumes "sig_inv s" and "p < length (procs s)"
    and "p_stat (procs s ! p) = SSLEEP \<or> p_stat (procs s ! p) = SSTOP"
  shows "sig_good s (psig_run p s)"
  using psig_run_spec[OF assms] by (auto simp: sig_good_def)

lemma psig_sleeping_good:
  assumes k: "sig_keeps k" and c: "sig_keeps chld" and inv: "sig_inv s" and p: "p < length (procs s)"
    and st: "p_stat (procs s ! p) = SSLEEP"
  shows "sig_good s (psig_sleeping k chld act p sig s)"
proof -
  let ?x = "procs s ! p"
  let ?y = "?x\<lparr>p_sig := p_sig ?x AND NOT (sigmask sig), p_cursig := sig\<rparr>"
  have run: "sig_good s (psig_run p s)" using psig_run_good[OF inv p] st by simp
  have clr: "sig_good s (Ok (clear_sig p (sigmask sig) s))" by (rule clear_sig_good[OF inv p])
  have kill: "sig_good s (obind (k p s) (\<lambda>s1. Ok (clear_sig p (sigmask sig) s1)))"
  proof (rule sig_good_bind)
    show "sig_good s (k p s)" using k inv p by (simp add: sig_keeps_def)
    fix s1 assume "sig_inv s1" "sig_frame s s1"
    then show "sig_good s1 (Ok (clear_sig p (sigmask sig) s1))"
      using p by (intro clear_sig_good) (auto dest: sig_frame_length)
  qed
  have iy: "sig_inv (put_proc p ?y s)" by (rule sig_inv_put[OF inv p]) (simp_all add: same_links_def)
  have stp: "sig_good s (stop_with chld p (put_proc p ?y s))"
    by (rule sig_good_put[OF _ stop_with_good[OF c iy]]) (use p st in \<open>simp_all add: same_links_def\<close>)
  show ?thesis
    using p run clr kill stp inv by (auto simp: psig_sleeping_def with_proc_def)
qed

lemma psig_stopped_good:
  assumes inv: "sig_inv s" and p: "p < length (procs s)" and st: "p_stat (procs s ! p) = SSTOP"
  shows "sig_good s (psig_stopped act p sig s)"
proof -
  let ?x = "procs s ! p"
  have run: "sig_good s (psig_run p s)" using psig_run_good[OF inv p] st by simp
  have clr: "sig_good s (Ok (clear_sig p (sigmask sig) s))" by (rule clear_sig_good[OF inv p])
  have uns: "sig_good s (unsleep p s)" by (rule unsleep_sig[OF inv p])
  have ok: "proc_ok ?x" using inv p sched_inv_D(5) by (auto simp: sig_inv_def)
  have "sig_inv (put_proc p (?x\<lparr>p_stat := SSLEEP\<rparr>) s)"
    by (rule sig_inv_waiting[OF inv p]) (use st ok in \<open>simp_all add: proc_ok_def same_links_def\<close>)
  then have slp: "sig_good s (Ok (put_proc p (?x\<lparr>p_stat := SSLEEP\<rparr>) s))"
    using sig_frame_put[of s p "?x\<lparr>p_stat := SSLEEP\<rparr>"] by (simp add: same_links_def)
  show ?thesis
    using p run clr uns slp inv by (auto simp: psig_stopped_def with_proc_def)
qed

lemma nice_down_simps [simp]:
  "p_stat (nice_down x) = p_stat x" "p_wchan (nice_down x) = p_wchan x" "loaded (nice_down x) = loaded x"
  "p_pri (nice_down x) = p_pri x" "p_usrpri (nice_down x) = p_usrpri x" "same_links x (nice_down x)"
  "p_sig (nice_down x) = p_sig x" "p_flag (nice_down x) = p_flag x" "p_pptr (nice_down x) = p_pptr x"
  "p_tptr (nice_down x) = p_tptr x" "p_realtimer (nice_down x) = p_realtimer x"
  by (simp_all add: nice_down_def same_links_def)

lemma psig_mark_simps [simp]:
  "p_stat (psig_mark x sig act) = p_stat x" "p_wchan (psig_mark x sig act) = p_wchan x"
  "loaded (psig_mark x sig act) = loaded x" "p_pri (psig_mark x sig act) = p_pri x"
  "p_usrpri (psig_mark x sig act) = p_usrpri x" "same_links x (psig_mark x sig act)"
  by (simp_all add: psig_mark_def Let_def same_links_def)

lemma psignal_with_good:
  assumes k: "sig_keeps k" and c: "sig_keeps chld" and inv: "sig_inv s" and p: "p < length (procs s)"
  shows "sig_good s (psignal_with k chld p sig s)"
proof (cases "sig < 0 \<or> NSIG \<le> sig")
  case True
  then show ?thesis using inv by (simp add: psignal_with_def)
next
  case False
  let ?x = "procs s ! p"
  show ?thesis
  proof (cases "psig_action ?x (sigmask sig)")
    case None
    then show ?thesis using False p inv by (simp add: psignal_with_def with_proc_def)
  next
    case (Some act)
    define s1 where "s1 = (if sig \<noteq> 0 then put_proc p (psig_mark ?x sig act) s else s)"
    have i1: "sig_inv s1" unfolding s1_def using inv sig_inv_put[OF inv p, of "psig_mark ?x sig act"] by simp
    have f1: "sig_frame s s1" unfolding s1_def using sig_frame_put[of s p "psig_mark ?x sig act"] by simp
    have p1: "p < length (procs s1)" "p_stat (procs s1 ! p) = p_stat ?x" using p by (simp_all add: s1_def)
    have it: "sig_inv (s1\<lparr>astpend := True\<rparr>)"
      using i1 sched_inv_fields[of "{}" s1 "s1\<lparr>astpend := True\<rparr>"] running_fields[of s1 "s1\<lparr>astpend := True\<rparr>"]
      by (simp add: sig_inv_def parents_ok_def)
    have "sig_good s1 (if act = Sig_hold then Ok s1
             else if p_stat ?x = SSLEEP then psig_sleeping k chld act p sig s1
             else if p_stat ?x = SSTOP then psig_stopped act p sig s1
             else Ok (if p = u_procp s1 \<and> \<not> noproc s1 then s1\<lparr>astpend := True\<rparr> else s1))"
      using psig_sleeping_good[OF k c i1 p1(1)] psig_stopped_good[OF i1 p1(1)] p1(2) i1 it
      by (auto simp: sched_frame_def sig_frame_def)
    moreover have "psignal_with k chld p sig s = (if act = Sig_hold then Ok s1
             else if p_stat ?x = SSLEEP then psig_sleeping k chld act p sig s1
             else if p_stat ?x = SSTOP then psig_stopped act p sig s1
             else Ok (if p = u_procp s1 \<and> \<not> noproc s1 then s1\<lparr>astpend := True\<rparr> else s1))"
      using False p Some by (simp add: psignal_with_def with_proc_def Let_def s1_def)
    ultimately show ?thesis using sig_good_from[OF f1] by (simp only:)
  qed
qed

lemma sig_keeps_leaf:
  assumes "sig = SIGKILL \<or> sig = SIGCHLD"
  shows "sig_keeps (\<lambda>p. psignal_leaf p sig :: 'a sched_scheme \<Rightarrow> 'a sched_scheme outcome)"
  unfolding sig_keeps_def
proof (intro allI impI)
  fix p and s :: "'a sched_scheme" assume a: "sig_inv s" "p < length (procs s)"
  have triv: "sig_keeps (\<lambda>p s. Ok s :: 'a sched_scheme outcome)" by (simp add: sig_keeps_def)
  have "psignal_leaf p sig s = psignal_with (\<lambda>p s. Ok s) (\<lambda>p s. Ok s) p sig s"
    unfolding psignal_leaf_def by (rule psignal_with_leaf[OF assms])
  then show "sig_good s (psignal_leaf p sig s)" using psignal_with_good[OF triv triv a] by simp
qed

lemma psignal_good:
  "sig_inv s \<Longrightarrow> p < length (procs s) \<Longrightarrow> sig_good s (psignal p sig s)"
  unfolding psignal_def by (rule psignal_with_good) (rule sig_keeps_leaf, simp)+

lemma gsignal_loop_good:
  "sig_inv s \<Longrightarrow> \<forall>p\<in>set l. p < length (procs s) \<Longrightarrow> sig_good s (gsignal_loop l pgrp sig s)"
proof (induction l arbitrary: s)
  case (Cons p l)
  have m: "sig_good s (if p_pgrp (procs s ! p) = pgrp then psignal p sig s else Ok s)"
    using psignal_good[of s p sig] Cons.prems by simp
  show ?case unfolding gsignal_loop.simps
    by (rule sig_good_bind[OF m]) (rule Cons.IH, simp, use Cons.prems in \<open>auto dest: sig_frame_length\<close>)
qed simp

lemma gsignal_good: "sig_inv s \<Longrightarrow> sig_good s (gsignal pgrp sig s)"
  using gsignal_loop_good[of s "[0..<length (procs s)]"] by (simp add: gsignal_def)


lemma sigmask_inter: "0 < a \<Longrightarrow> 0 < b \<Longrightarrow> a \<noteq> b \<Longrightarrow> sigmask a AND sigmask b = 0"
  by (rule bit_eqI) (auto simp: sigmask_def bit_simps)


section \<open>What cannot be blocked\<close>

definition mask_ok :: "proc \<Rightarrow> bool" where
  "mask_ok x \<longleftrightarrow> p_sigmask x AND cantmask = 0 \<and> p_sigignore x AND cantmask = 0"

lemma and_not_and: "(m AND NOT c) AND c = (0::int)"
  by (rule bit_eqI) (simp add: bit_simps)

lemma or_and_zero: "a AND c = 0 \<Longrightarrow> b AND c = 0 \<Longrightarrow> (a OR b) AND c = (0::int)"
  by (simp add: bit.conj_disj_distrib2)

lemma and_not_zero: "a AND c = 0 \<Longrightarrow> (a AND NOT b) AND c = (0::int)"
proof (rule bit_eqI)
  fix n assume "a AND c = 0"
  then have "bit (a AND c) n = bit (0::int) n" by simp
  then show "bit ((a AND NOT b) AND c) n = bit 0 n" by (auto simp: bit_simps)
qed

lemma bit_push1: "bit (push_bit k (1::int)) n \<longleftrightarrow> n = k"
  by (auto simp: bit_simps)

lemma sigmask_cantmask:
  "0 < sig \<Longrightarrow> sig \<noteq> SIGKILL \<Longrightarrow> sig \<noteq> SIGSTOP \<Longrightarrow> sig \<noteq> SIGCONT \<Longrightarrow> sigmask sig AND cantmask = 0"
  unfolding cantmask_def bit.conj_disj_distrib
  by (simp add: sigmask_inter sig_defs)

lemma set_error_simps [simp]:
  "procs (set_error e s) = procs s" "u_procp (set_error e s) = u_procp s"
  by (simp_all add: set_error_def)

lemma set_rval_simps [simp]:
  "procs (set_rval e s) = procs s" "u_procp (set_rval e s) = u_procp s"
  by (simp_all add: set_rval_def)

lemma setsigvec_mask_ok:
  assumes "u_procp s < length (procs s)" and "mask_ok (procs s ! u_procp s)"
    and "sv_handler sv \<noteq> SIG_IGN \<or> sigmask sig AND cantmask = 0"
  shows "mask_ok (procs (setsigvec sig sv s) ! u_procp s)"
  using assms
  by (auto simp: setsigvec_def Let_def mask_ok_def or_and_zero and_not_zero)

lemma sigvec_procs:
  assumes "\<And>sv. nsv = Some (Inr sv) \<Longrightarrow> 0 < sig \<Longrightarrow> sig \<noteq> SIGKILL \<Longrightarrow> sig \<noteq> SIGSTOP \<Longrightarrow>
    \<not> (sig = SIGCONT \<and> sv_handler sv = SIG_IGN) \<Longrightarrow> P (procs (setsigvec sig sv (set_error 0 s))) \<and>
    P (procs (setsigvec sig sv (set_error 0 (set_error 0 s))))"
    and "P (procs s)"
  shows "P (procs (fst (sigvec sig osv nsv s)))"
proof (cases "sig \<le> 0 \<or> NSIG \<le> sig \<or> sig = SIGKILL \<or> sig = SIGSTOP")
  case True
  then show ?thesis using assms(2) by (simp add: sigvec_def)
next
  case False
  then show ?thesis
    using assms by (auto simp: sigvec_def Let_def split: option.splits sum.splits)
qed


text \<open>
  C38: \<open>kill\<close> accepts the signal number \<open>NSIG\<close>, one more than there are.  For a process that may be
  signalled it then reports success and does nothing, while every larger and every negative
  number is an error.
\<close>
theorem kill_accepts_nsig:
  assumes "0 < pid" and "pfind pid s = Ok (Some p)" and "p < length (procs s)"
    and "u_uid (uarea s) = 0 \<or> u_uid (uarea s) = p_uid (procs s ! p)"
  shows "kill pid NSIG s = Ok s \<and> kill pid (NSIG + 1) s = Ok (set_error EINVAL s)"
  using assms
  by (auto simp: kill_def psignal_def psignal_with_def NSIG_def)

section \<open>Witnesses\<close>

definition demo_uarea :: uarea where
  "demo_uarea = \<lparr>u_uid = 0, u_gid = 0, u_groups = [], u_error = 0, u_rval1 = 0, u_acflag = 0\<rparr>"

definition demo_sig :: sigstate where
  "demo_sig = sched.extend (demo_sched_of [demo_proc SSTOP 80, demo_proc SRUN 60])
     (sigstate.fields demo_uarea (replicate 32 0) (replicate 32 0) 0 0 0 0 (replicate 15 1))"

lemma demo_sig_inv: "sig_inv demo_sig" "length (procs demo_sig) = 2" "u_procp demo_sig = 1"
  "procs demo_sig ! 0 = demo_proc SSTOP 80" "procs demo_sig ! 1 = demo_proc SRUN 60"
proof -
  have p: "procs demo_sig = [demo_proc SSTOP 80, demo_proc SRUN 60]" "u_procp demo_sig = 1"
    "qs demo_sig = replicate 32 []" "slpque demo_sig = replicate 64 []" "whichqs demo_sig = replicate 32 False"
    "\<not> noproc demo_sig" "a_runout demo_sig = 4096" "a_proc demo_sig = (\<lambda>i. 8192 + int i)"
    by (simp_all add: demo_sig_def demo_sched_of_def sched.defs sigstate.defs rqinit_def NQS_def SQSIZE_def)
  have r: "rqinit demo_sig = demo_sig"
    by (simp add: rqinit_def NQS_def SQSIZE_def p(3,4)[symmetric])
  have "sched_inv (rqinit demo_sig)"
    by (rule rqinit_inv(1)) (auto simp: p demo_proc_def proc_ok_def stat_defs less_Suc_eq)
  moreover have "running_ok demo_sig"
    by (simp add: running_ok_def p demo_proc_def loaded_def SLOAD_def)
  moreover have "parents_ok demo_sig"
    by (auto simp: parents_ok_def p demo_proc_def STRC_def)
  ultimately show "sig_inv demo_sig" unfolding r by (simp add: sig_inv_def)
  show "length (procs demo_sig) = 2" "u_procp demo_sig = 1"
    "procs demo_sig ! 0 = demo_proc SSTOP 80" "procs demo_sig ! 1 = demo_proc SRUN 60"
    by (simp_all add: p)
qed




lemma kill_accepts_nsig_witness: "kill 10 32 demo_sig = Ok demo_sig"
proof -
  have "pidhash demo_sig = replicate 15 1"
    by (simp add: demo_sig_def demo_sched_of_def sched.defs sigstate.defs rqinit_def)
  moreover have "PIDHASH 10 = 10" by (simp add: PIDHASH_def)
  ultimately have "pfind 10 demo_sig = Ok (Some 1)"
    using demo_sig_inv(2,5) by (simp add: pfind_def aget_def demo_proc_def numeral_3_eq_3)
  moreover have "u_uid (uarea demo_sig) = 0"
    by (simp add: demo_sig_def sched.defs sigstate.defs demo_uarea_def)
  ultimately show ?thesis using kill_accepts_nsig[of 10 demo_sig 1] demo_sig_inv(2) by (simp add: NSIG_def)
qed

end
