(* ===== verification/Clock.thy ===== *)
theory Clock
  imports Signal
begin

text \<open>
  The clock interrupt (\<open>sys/kern_clock.c\<close>), the time of day and the interval timers
  (\<open>sys/kern_time.c\<close>).  A tick takes one from the times of the callouts, charges the running
  process, moves the time of day and makes the calls that are due.
\<close>

section \<open>State\<close>

record timezone =
  tz_minuteswest :: int
  tz_dsttime :: int

record uprof =
  pr_base :: int
  pr_size :: int
  pr_off :: int
  pr_scale :: int

text \<open>
  The user area contributes the resource usage, the two virtual timers at their places in
  \<open>u_timer\<close>, the profiling arguments and the processor limit of \<open>u_rlimit\<close>.  \<open>resets\<close> counts the
  calls of \<open>resettodr\<close>, which loads the clock chip, and \<open>softcalls\<close> lists the arguments of the
  pending software interrupts that will call \<open>softclock\<close>.  \<open>uniq_last\<close> and \<open>uniq\<close> are the static
  variables of \<open>uniqtime\<close>.
\<close>

record clock = sigstate +
  ktime :: timeval
  boottime :: timeval
  tz :: timezone
  tick :: int
  hz :: int
  phz :: int
  tickadj :: int
  adjtimedelta :: int
  doresettodr :: bool
  resets :: nat
  softcalls :: "int list"
  u_prof :: uprof
  ru_utime :: timeval
  ru_stime :: timeval
  ru_maxrss :: int
  ru_ixrss :: int
  ru_idrss :: int
  ru_isrss :: int
  u_timer :: "itimerval list"
  rlim_cur :: int
  rlim_max :: int
  cp_time :: "int list"
  dk_busy :: int
  dk_time :: "int list"
  uniq_last :: timeval
  uniq :: int

definition ITIMER_REAL :: int where "ITIMER_REAL = 0"
definition ITIMER_VIRTUAL :: int where "ITIMER_VIRTUAL = 1"
definition ITIMER_PROF :: int where "ITIMER_PROF = 2"
definition CP_USER :: nat where "CP_USER = 0"
definition CP_NICE :: nat where "CP_NICE = 1"
definition CP_SYS :: nat where "CP_SYS = 2"
definition CP_IDLE :: nat where "CP_IDLE = 3"
definition DK_NDRIVE :: nat where "DK_NDRIVE = 4"
definition SR_SMODE :: int where "SR_SMODE = 0x2000"
definition SR_INTPRI :: int where "SR_INTPRI = 0x700"

definition USERMODE :: "int \<Rightarrow> bool" where "USERMODE ps \<longleftrightarrow> ps AND SR_SMODE = 0"
definition BASEPRI :: "int \<Rightarrow> bool" where "BASEPRI ps \<longleftrightarrow> ps AND SR_INTPRI = 0"

section \<open>The clock interrupt\<close>

text \<open>\<open>softclock\<close>: the calls that are due, and a profiling tick for the process.\<close>

definition owe_profile :: "int \<Rightarrow> clock \<Rightarrow> clock" where
  "owe_profile ps s =
     (if USERMODE ps \<and> pr_scale (u_prof s) \<noteq> 0
      then (let p = u_procp s; x = procs s ! p
            in (put_proc p (x\<lparr>p_flag := p_flag x OR SOWEUPC\<rparr>) s)\<lparr>astpend := True\<rparr>)
      else s)"

definition softclock :: "nat \<Rightarrow> clock handler \<Rightarrow> int \<Rightarrow> clock \<Rightarrow>
    (clock \<times> (int \<times> kfun \<times> int) list) outcome option" where
  "softclock n run ps s =
     rbind (co_softclock n run s) (\<lambda>(s', calls). Some (Ok (owe_profile ps s', calls)))"

text \<open>
  One of the virtual timers of the running process: decremented if it is set, with the signal
  when it expires.
\<close>

definition virtual_timer :: "nat \<Rightarrow> int \<Rightarrow> clock \<Rightarrow> clock outcome" where
  "virtual_timer i sig s =
     (if timerisset (it_value (u_timer s ! i))
      then (let (it, r) = itimerdecr (u_timer s ! i) (tick s);
                s1 = s\<lparr>u_timer := (u_timer s)[i := it]\<rparr>
            in if r = 0 then psignal (u_procp s1) sig s1 else Ok s1)
      else Ok s)"

definition charge_mode :: "int \<Rightarrow> clock \<Rightarrow> clock outcome" where
  "charge_mode ps s =
     (if USERMODE ps
      then virtual_timer 1 SIGVTALRM (s\<lparr>ru_utime := BUMPTIME (ru_utime s) (tick s)\<rparr>)
      else if \<not> noproc s then Ok (s\<lparr>ru_stime := BUMPTIME (ru_stime s) (tick s)\<rparr>)
      else Ok s)"

definition charge_limit :: "clock \<Rightarrow> clock outcome" where
  "charge_limit s =
     (if rlim_cur s < int32 (int32 (tv_sec (ru_utime s) + tv_sec (ru_stime s)) + 1)
      then obind (psignal (u_procp s) SIGXCPU s) (\<lambda>s1.
        Ok (if rlim_cur s1 < rlim_max s1 then s1\<lparr>rlim_cur := int32 (rlim_cur s1 + 5)\<rparr> else s1))
      else Ok s)"

definition charge_memory :: "clock \<Rightarrow> clock" where
  "charge_memory s =
     (let x = procs s ! u_procp s;
          s1 = s\<lparr>ru_idrss := int32 (ru_idrss s + p_rssize x)\<rparr>;
          (total, s2) = (case p_textp x of
              None \<Rightarrow> (int32 (p_rssize x), s1)
            | Some xrss \<Rightarrow> (int32 (p_rssize x + xrss), s1\<lparr>ru_ixrss := int32 (ru_ixrss s1 + xrss)\<rparr>))
      in if ru_maxrss s2 < total then s2\<lparr>ru_maxrss := total\<rparr> else s2)"

definition charge_process :: "clock \<Rightarrow> clock outcome" where
  "charge_process s =
     (if \<not> noproc s
      then obind (charge_limit s) (\<lambda>s1.
           obind (virtual_timer 2 SIGPROF s1) (\<lambda>s2. Ok (charge_memory s2)))
      else Ok s)"

text \<open>The usage estimate of the running process, which sticks at 255, and its priority.\<close>

definition bump_cpu :: "proc \<Rightarrow> proc" where
  "bump_cpu x =
     (let c = int8 (p_cpu x + 1)
      in x\<lparr>p_cpticks := int16 (p_cpticks x + 1), p_cpu := (if c = 0 then int8 (c - 1) else c)\<rparr>)"

definition charge_priority :: "clock \<Rightarrow> clock outcome" where
  "charge_priority s =
     (if noproc s then Ok s
      else with_proc (u_procp s) s (\<lambda>x.
        let p = u_procp s; x1 = bump_cpu x; s1 = put_proc p x1 s in
        if p_cpu x1 AND 3 = 0
        then obind (setpri p s1) (\<lambda>(s2, _).
          let y = procs s2 ! p in
          Ok (if PUSER \<le> p_pri y then put_proc p (y\<lparr>p_pri := p_usrpri y\<rparr>) s2 else s2))
        else Ok s1))"

text \<open>\<open>gatherstats\<close>.\<close>

definition cpu_state :: "int \<Rightarrow> clock \<Rightarrow> nat" where
  "cpu_state ps s =
     (if USERMODE ps then (if NZERO < p_nice (procs s ! u_procp s) then CP_NICE else CP_USER)
      else if noproc s \<and> BASEPRI ps then CP_IDLE else CP_SYS)"

definition gatherstats :: "int \<Rightarrow> clock \<Rightarrow> clock" where
  "gatherstats ps s =
     (let c = cpu_state ps s
      in s\<lparr>cp_time := (cp_time s)[c := int32 (cp_time s ! c + 1)],
           dk_time := map (\<lambda>i. if dk_busy s AND push_bit i 1 \<noteq> 0 then int32 (dk_time s ! i + 1)
                               else dk_time s ! i) [0..<DK_NDRIVE]\<rparr>)"

text \<open>The time of day, corrected by \<open>tickadj\<close> per tick while \<open>adjtime\<close> has work left.\<close>

definition advance_time :: "clock \<Rightarrow> clock" where
  "advance_time s =
     (if adjtimedelta s = 0 then s\<lparr>ktime := BUMPTIME (ktime s) (tick s)\<rparr>
      else
        (let (delta, rest) =
              (if adjtimedelta s < 0 then (int32 (tick s - tickadj s), int32 (adjtimedelta s + tickadj s))
               else (int32 (tick s + tickadj s), int32 (adjtimedelta s - tickadj s)));
             s1 = s\<lparr>adjtimedelta := rest, ktime := BUMPTIME (ktime s) delta\<rparr>
         in if - tickadj s < rest \<and> rest < tickadj s
            then (let s2 = s1\<lparr>adjtimedelta := 0\<rparr>
                  in if doresettodr s2 then s2\<lparr>doresettodr := False, resets := Suc (resets s2)\<rparr> else s2)
            else s1))"

text \<open>\<open>hardclock\<close>: \<open>n\<close> bounds the calls of \<open>softclock\<close>, \<open>run\<close> makes them.\<close>

definition hard_charges :: "int \<Rightarrow> clock \<Rightarrow> clock outcome" where
  "hard_charges ps s =
     obind (charge_mode ps s) (\<lambda>s1.
     obind (charge_process s1) (\<lambda>s2.
     obind (charge_priority s2) (\<lambda>s3.
     Ok (advance_time (if phz s3 = 0 then gatherstats ps s3 else s3)))))"

definition hardclock :: "nat \<Rightarrow> clock handler \<Rightarrow> int \<Rightarrow> clock \<Rightarrow>
    (clock \<times> (int \<times> kfun \<times> int) list) outcome option" where
  "hardclock n run ps s =
     (let needsoft = (snd (co_tick (calltodo s)) \<or> USERMODE ps \<and> pr_scale (u_prof s) \<noteq> 0);
          s0 = co_ticked s
      in rbind (Some (hard_charges ps s0)) (\<lambda>s1.
         if \<not> needsoft then Some (Ok (s1, []))
         else if BASEPRI ps then softclock n run ps s1
         else Some (Ok (s1\<lparr>softcalls := softcalls s1 @ [ps AND SR_SMODE]\<rparr>, []))))"

section \<open>The real-time timer\<close>

definition hzto_of :: "timeval \<Rightarrow> clock \<Rightarrow> int outcome" where
  "hzto_of tv s = hzto (tick s) (hz s) (ktime s) tv"

definition set_realtimer :: "nat \<Rightarrow> timeval \<Rightarrow> clock \<Rightarrow> clock" where
  "set_realtimer p v s =
     (let x = procs s ! p in put_proc p (x\<lparr>p_realtimer := (p_realtimer x)\<lparr>it_value := v\<rparr>\<rparr>) s)"

text \<open>
  The loop of \<open>realitexpire\<close>: the value is advanced until it lies in the future.  It need not
  end, so that \<open>None\<close> stands for not returning.
\<close>

partial_function (option) realit_loop :: "nat \<Rightarrow> clock \<Rightarrow> clock outcome option" where
  "realit_loop p s =
     (let it = p_realtimer (procs s ! p);
          v = timevaladd (it_value it) (it_interval it);
          s1 = set_realtimer p v s
      in if timercmp (>) v (ktime s1)
         then Some (obind (hzto_of v s1) (\<lambda>t. timeout Realitexpire (int p) t s1))
         else realit_loop p s1)"

definition realitexpire :: "nat \<Rightarrow> clock \<Rightarrow> clock outcome option" where
  "realitexpire p s =
     rbind (Some (psignal p SIGALRM s)) (\<lambda>s1.
       if timerisset (it_interval (p_realtimer (procs s1 ! p)))
       then realit_loop p s1
       else Some (Ok (set_realtimer p timerclear s1)))"

section \<open>System calls\<close>

definition uniqtime :: "clock \<Rightarrow> clock \<times> timeval" where
  "uniqtime s0 =
     (let s = (if tv_usec (uniq_last s0) \<noteq> tv_usec (ktime s0) \<or> tv_sec (uniq_last s0) \<noteq> tv_sec (ktime s0)
               then s0\<lparr>uniq_last := ktime s0, uniq := 0\<rparr> else s0)
      in (s\<lparr>uniq := int32 (uniq s + 1)\<rparr>,
          (uniq_last s)\<lparr>tv_usec := int32 (tv_usec (uniq_last s) + uniq s)\<rparr>))"

text \<open>
  The results of \<open>copyout\<close> and \<open>copyin\<close> are arguments: an error code, and for \<open>copyin\<close> either an
  error or the value.  A call that copies out returns what it copies.
\<close>

definition gettimeofday :: "int \<Rightarrow> int option \<Rightarrow> clock \<Rightarrow> clock \<times> timeval \<times> timezone option" where
  "gettimeofday cpo_tp cpo_tzp s =
     (let (s1, atv) = uniqtime s; s2 = set_error cpo_tp s1 in
      if cpo_tp \<noteq> 0 then (s2, atv, None)
      else (case cpo_tzp of None \<Rightarrow> (s2, atv, None) | Some e \<Rightarrow> (set_error e s2, atv, Some (tz s2))))"

definition ksuser :: "clock \<Rightarrow> bool \<times> clock" where
  "ksuser s = (let (r, u) = suser (uarea s) in (r, s\<lparr>uarea := u\<rparr>))"

definition setthetime :: "timeval \<Rightarrow> clock \<Rightarrow> clock" where
  "setthetime tv s0 =
     (let (ok, s) = ksuser s0 in
      if \<not> ok then s
      else s\<lparr>boottime := (boottime s)\<lparr>tv_sec := int32 (tv_sec (boottime s) + int32 (tv_sec tv - tv_sec (ktime s)))\<rparr>,
             ktime := tv, resets := Suc (resets s)\<rparr>)"

definition settimeofday :: "int + timeval \<Rightarrow> (int + timezone) option \<Rightarrow> clock \<Rightarrow> clock" where
  "settimeofday cpi_tv cpi_tz s = (case cpi_tv of
       Inl e \<Rightarrow> set_error e s
     | Inr atv \<Rightarrow>
         (let s1 = setthetime atv (set_error 0 s) in
          case cpi_tz of
            None \<Rightarrow> s1
          | Some r \<Rightarrow>
              (let (ok, s2) = ksuser s1 in
               if \<not> ok then s2
               else (case r of Inl e \<Rightarrow> set_error e s2
                     | Inr atz \<Rightarrow> (set_error 0 s2)\<lparr>tz := atz\<rparr>))))"

definition adjtime :: "int + timeval \<Rightarrow> bool \<Rightarrow> clock \<Rightarrow> clock \<times> timeval option" where
  "adjtime cpi_delta olddelta s0 =
     (let (ok, s) = ksuser s0 in
      if \<not> ok then (s, None)
      else (case cpi_delta of
          Inl e \<Rightarrow> (set_error e s, None)
        | Inr atv \<Rightarrow>
            (let old = (if olddelta then Some \<lparr>tv_sec = adjtimedelta s sdiv 1000000,
                                              tv_usec = adjtimedelta s smod 1000000\<rparr> else None)
             in ((set_error 0 s)\<lparr>adjtimedelta := int32 (int32 (tv_sec atv * 1000000) + tv_usec atv),
                    doresettodr := True\<rparr>, old))))"

text \<open>The value that \<open>getitimer\<close> reports, and the two calls on interval timers.\<close>

definition itimer_read :: "int \<Rightarrow> clock \<Rightarrow> itimerval" where
  "itimer_read which s =
     (if which = ITIMER_REAL then
        (let it = p_realtimer (procs s ! u_procp s) in
         if timerisset (it_value it) then
           (if timercmp (<) (it_value it) (ktime s) then it\<lparr>it_value := timerclear\<rparr>
            else it\<lparr>it_value := timevalsub (it_value it) (ktime s)\<rparr>)
         else it)
      else u_timer s ! nat which)"

definition getitimer :: "int \<Rightarrow> int \<Rightarrow> clock \<Rightarrow> clock \<times> itimerval option" where
  "getitimer which cpo s =
     (if which < 0 \<or> 2 < which then (set_error EINVAL s, None)
      else (set_error cpo s, Some (itimer_read which s)))"

definition setitimer :: "int \<Rightarrow> int + itimerval \<Rightarrow> int option \<Rightarrow> clock \<Rightarrow>
    (clock \<times> itimerval option) outcome" where
  "setitimer which cpi oitv s =
     (if which < 0 \<or> 2 < which then Ok (set_error EINVAL s, None)
      else (case cpi of
          Inl e \<Rightarrow> Ok (set_error e s, None)
        | Inr aitv0 \<Rightarrow>
            (let s1 = set_error 0 s;
                 (s2, old) = (case oitv of None \<Rightarrow> (s1, None) | Some cpo \<Rightarrow> getitimer which cpo s1);
                 (e1, v) = itimerfix (tick s2) (it_value aitv0);
                 (e2, i) = itimerfix (tick s2) (it_interval aitv0)
             in if e1 \<noteq> 0 \<or> e2 \<noteq> 0 then Ok (set_error EINVAL s2, old)
                else if which = ITIMER_REAL then
                  (let p = u_procp s2; s3 = untimeout Realitexpire (int p) s2 in
                   if timerisset v then
                     (let v' = timevaladd v (ktime s3) in
                      obind (hzto_of v' s3) (\<lambda>t.
                      obind (timeout Realitexpire (int p) t s3) (\<lambda>s4.
                      Ok (put_proc p ((procs s4 ! p)\<lparr>p_realtimer := \<lparr>it_interval = i, it_value = v'\<rparr>\<rparr>) s4, old))))
                   else Ok (put_proc p ((procs s3 ! p)\<lparr>p_realtimer := \<lparr>it_interval = i, it_value = v\<rparr>\<rparr>) s3, old))
                else Ok (s2\<lparr>u_timer := (u_timer s2)[nat which := \<lparr>it_interval = i, it_value = v\<rparr>]\<rparr>, old))))"

definition profil :: "uprof \<Rightarrow> clock \<Rightarrow> clock" where
  "profil args s = s\<lparr>u_prof := args\<rparr>"

section \<open>The real-time timer always comes back\<close>

text \<open>A time value with its microseconds in range, at any time 32 bits can hold.\<close>

definition tv_norm :: "timeval \<Rightarrow> bool" where
  "tv_norm t \<longleftrightarrow> 0 \<le> tv_usec t \<and> tv_usec t < 1000000 \<and> - 2147483648 \<le> tv_sec t \<and> tv_sec t \<le> INT_MAX"

lemma tv_ok_norm [simp]: "tv_ok t \<Longrightarrow> tv_norm t"
  by (simp add: tv_ok_def tv_norm_def INT_MAX_def)

lemma timercmp_norm: "tv_norm t \<Longrightarrow> tv_norm u \<Longrightarrow> timercmp (>) t u \<longleftrightarrow> usec_of u < usec_of t"
  by (auto simp: timercmp_def usec_of_def tv_norm_def)

lemma timevaladd_norm:
  assumes "tv_norm t" and "tv_ok u" and "tv_sec t + tv_sec u < INT_MAX"
  shows "usec_of (timevaladd t u) = usec_of t + usec_of u" and "tv_norm (timevaladd t u)"
  using assms
  by (auto simp: timevaladd_def timevalfix_def tv_norm_def tv_ok_def usec_of_def Let_def INT_MAX_def)

lemma timevaladd_wrap:
  assumes "tv_norm t" and "tv_ok u"
  shows "tv_norm (timevaladd t u)"
proof -
  let ?c = "tv_usec t + tv_usec u"
  have c: "0 \<le> ?c" "?c < 2000000" using assms by (auto simp: tv_norm_def tv_ok_def)
  have "int32 ?c = ?c" using c by (simp add: INT_MAX_def)
  then have "timevaladd t u = (if 1000000 \<le> ?c
      then \<lparr>tv_sec = int32 (int32 (tv_sec t + tv_sec u) + 1), tv_usec = ?c - 1000000\<rparr>
      else \<lparr>tv_sec = int32 (tv_sec t + tv_sec u), tv_usec = ?c\<rparr>)"
    using c by (simp add: timevaladd_def timevalfix_def Let_def INT_MAX_def)
  then show ?thesis using c int32_range by (simp add: tv_norm_def)
qed

definition timer_good :: "timeval \<Rightarrow> itimerval \<Rightarrow> bool" where
  "timer_good now it \<longleftrightarrow> tv_norm (it_value it) \<and> tv_ok (it_interval it) \<and>
     tv_sec now + tv_sec (it_interval it) < 2147483645"

lemma set_realtimer_simps [simp]:
  "ktime (set_realtimer p v s) = ktime s" "length (procs (set_realtimer p v s)) = length (procs s)"
  "tick (set_realtimer p v s) = tick s" "hz (set_realtimer p v s) = hz s"
  "p < length (procs s) \<Longrightarrow>
     p_realtimer (procs (set_realtimer p v s) ! p) = (p_realtimer (procs s ! p))\<lparr>it_value := v\<rparr>"
  by (simp_all add: set_realtimer_def Let_def put_proc_def)

lemma set_realtimer_twice:
  "p < length (procs s) \<Longrightarrow> set_realtimer p v (set_realtimer p w s) = set_realtimer p v s"
  by (simp add: set_realtimer_def Let_def put_proc_def)

text \<open>From a value that is not in the future, the loop takes the first multiple beyond the present.\<close>

lemma realit_loop_past:
  assumes "p < length (procs s)" and "p_realtimer (procs s ! p) = \<lparr>it_interval = i, it_value = v\<rparr>"
    and "tv_norm v" "tv_ok i" "0 < usec_of i" "tv_ok (ktime s)" "tv_sec (ktime s) + tv_sec i < 2147483645"
    and "usec_of v \<le> usec_of (ktime s)"
  shows "\<exists>k v'. 0 < k \<and> tv_norm v' \<and> usec_of v' = usec_of v + int k * usec_of i \<and>
    usec_of (ktime s) < usec_of v' \<and> usec_of v' - usec_of i \<le> usec_of (ktime s) \<and>
    realit_loop p s = Some (obind (hzto_of v' (set_realtimer p v' s))
      (\<lambda>t. timeout Realitexpire (int p) t (set_realtimer p v' s)))"
  using assms
proof (induction "nat (usec_of (ktime s) - usec_of v)" arbitrary: s v rule: less_induct)
  case less
  let ?v = "timevaladd v i"
  let ?s = "set_realtimer p ?v s"
  have le: "tv_sec v \<le> tv_sec (ktime s)"
    using less.prems(3,6,8) by (auto simp: usec_of_def tv_norm_def tv_ok_def)
  have add: "usec_of ?v = usec_of v + usec_of i" "tv_norm ?v"
    using timevaladd_norm[OF less.prems(3,4)] le less.prems(7) by (simp_all add: INT_MAX_def)
  have cmp: "timercmp (>) ?v (ktime ?s) \<longleftrightarrow> usec_of (ktime s) < usec_of ?v"
    using timercmp_norm[OF add(2)] less.prems(6) by simp
  have step: "realit_loop p s = (if timercmp (>) ?v (ktime ?s)
      then Some (obind (hzto_of ?v ?s) (\<lambda>t. timeout Realitexpire (int p) t ?s)) else realit_loop p ?s)"
    by (subst realit_loop.simps) (simp add: less.prems(2) Let_def)
  show ?case
  proof (cases "usec_of (ktime s) < usec_of ?v")
    case True
    then show ?thesis using step cmp add less.prems(8)
      by (intro exI[of _ 1] exI[of _ ?v]) simp
  next
    case False
    have "\<exists>k v'. 0 < k \<and> tv_norm v' \<and> usec_of v' = usec_of ?v + int k * usec_of i \<and>
      usec_of (ktime ?s) < usec_of v' \<and> usec_of v' - usec_of i \<le> usec_of (ktime ?s) \<and>
      realit_loop p ?s = Some (obind (hzto_of v' (set_realtimer p v' ?s))
        (\<lambda>t. timeout Realitexpire (int p) t (set_realtimer p v' ?s)))"
    proof (rule less.hyps)
      show "nat (usec_of (ktime ?s) - usec_of ?v) < nat (usec_of (ktime s) - usec_of v)"
        using False add(1) less.prems(5) by simp
    qed (use less.prems add(2) False in simp_all)
    then obtain k v' where "0 < k" "tv_norm v'" "usec_of v' = usec_of ?v + int k * usec_of i"
      "usec_of (ktime s) < usec_of v'" "usec_of v' - usec_of i \<le> usec_of (ktime s)"
      "realit_loop p ?s = Some (obind (hzto_of v' (set_realtimer p v' s))
        (\<lambda>t. timeout Realitexpire (int p) t (set_realtimer p v' s)))"
      unfolding set_realtimer_twice[OF less.prems(1)] by auto
    then show ?thesis using step cmp False add(1)
      by (intro exI[of _ "Suc k"] exI[of _ v']) (simp add: algebra_simps)
  qed
qed

lemma realit_loop_returns:
  assumes p: "p < length (procs s)" and g: "timer_good (ktime s) (p_realtimer (procs s ! p))"
    and now: "tv_ok (ktime s)" and i: "timerisset (it_interval (p_realtimer (procs s ! p)))"
  shows "\<exists>v'. tv_norm v' \<and> realit_loop p s = Some (obind (hzto_of v' (set_realtimer p v' s))
      (\<lambda>t. timeout Realitexpire (int p) t (set_realtimer p v' s)))"
proof -
  obtain i v where it: "p_realtimer (procs s ! p) = \<lparr>it_interval = i, it_value = v\<rparr>"
    by (cases "p_realtimer (procs s ! p)") simp
  have h: "tv_norm v" "tv_ok i" "tv_sec (ktime s) + tv_sec i < 2147483645" "0 < usec_of i"
    using g i it by (simp_all add: timer_good_def timerisset_usec)
  show ?thesis
  proof (cases "usec_of v \<le> usec_of (ktime s)")
    case True
    then show ?thesis using realit_loop_past[OF p it h(1,2,4) now h(3)] by blast
  next
    case False
    let ?v = "timevaladd v i"
    let ?s = "set_realtimer p ?v s"
    have n: "tv_norm ?v" by (rule timevaladd_wrap[OF h(1,2)])
    have step: "realit_loop p s = (if timercmp (>) ?v (ktime ?s)
        then Some (obind (hzto_of ?v ?s) (\<lambda>t. timeout Realitexpire (int p) t ?s)) else realit_loop p ?s)"
      by (subst realit_loop.simps) (simp add: it Let_def)
    show ?thesis
    proof (cases "timercmp (>) ?v (ktime ?s)")
      case True
      then show ?thesis using step n by (intro exI[of _ ?v]) simp
    next
      case past: False
      then have "usec_of ?v \<le> usec_of (ktime ?s)" using timercmp_norm[OF n] now by simp
      then obtain v' where "tv_norm v'" "realit_loop p ?s = Some (obind (hzto_of v' (set_realtimer p v' ?s))
          (\<lambda>t. timeout Realitexpire (int p) t (set_realtimer p v' ?s)))"
        using realit_loop_past[of p ?s i ?v] p it n h now by auto
      then show ?thesis using step past unfolding set_realtimer_twice[OF p] by auto
    qed
  qed
qed

lemma hzto_of_Ok:
  assumes "0 < m" "tick s = 1000 * m" "0 < hz s"
  shows "\<exists>t. hzto_of v s = Ok t \<and> t \<le> INT_MAX"
proof -
  have "tick s sdiv 1000 \<noteq> 0" using assms(1,2) by simp
  then show ?thesis using assms(3) int32_range
    by (auto simp: hzto_of_def hzto_def Let_def INT_MAX_def)
qed

section \<open>The routines of the kernel as callout handlers\<close>

text \<open>
  The calls that a driver's routine makes are a parameter, a list of \<open>timeout\<close> and \<open>untimeout\<close>
  requests, and so is the load average that \<open>vmmeter\<close> leaves.
\<close>

datatype cop = Timeout kfun int int | Untimeout kfun int

fun run_cops :: "cop list \<Rightarrow> clock \<Rightarrow> clock outcome" where
  "run_cops [] s = Ok s"
| "run_cops (Timeout f arg t # cs) s = obind (timeout f arg (int32 t) s) (run_cops cs)"
| "run_cops (Untimeout f arg # cs) s = run_cops cs (untimeout f arg s)"

definition kernel_handler :: "(clock \<Rightarrow> int) \<Rightarrow> (nat \<Rightarrow> int \<Rightarrow> int \<Rightarrow> cop list) \<Rightarrow> clock handler" where
  "kernel_handler load drv f arg late s = (case f of
       Realitexpire \<Rightarrow> (if arg < 0 then Some Fault else realitexpire (nat arg) s)
     | Roundrobin \<Rightarrow> Some (roundrobin (hz s) s)
     | Schedcpu \<Rightarrow> Some (schedcpu (\<lambda>t. Ok (t\<lparr>avenrun0 := load t\<rparr>)) (hz s) s)
     | Driver n \<Rightarrow> Some (run_cops (drv n arg late) s))"

text \<open>The state between clock interrupts.\<close>

definition clock_good :: "clock \<Rightarrow> bool" where
  "clock_good s \<longleftrightarrow> co_inv s \<and> sig_inv s \<and> tv_ok (ktime s) \<and> (\<exists>m>0. tick s = 1000 * m) \<and> 0 < hz s \<and> hz s \<le> INT_MAX \<and>
     a_lbolt s \<noteq> 0 \<and> a_runin s \<noteq> 0 \<and> (\<forall>x\<in>set (procs s). timer_good (ktime s) (p_realtimer x))"

lemma sig_inv_fields:
  "sig_inv s \<Longrightarrow> procs t = procs s \<Longrightarrow> qs t = qs s \<Longrightarrow> whichqs t = whichqs s \<Longrightarrow> slpque t = slpque s \<Longrightarrow>
     noproc t = noproc s \<Longrightarrow> u_procp t = u_procp s \<Longrightarrow> a_runout t = a_runout s \<Longrightarrow> a_proc t = a_proc s \<Longrightarrow>
     sig_inv t"
  using sched_inv_fields[of "{}" s t] running_fields[of s t] by (simp add: sig_inv_def parents_ok_def)

text \<open>A change of the callouts alone.\<close>

lemma more_fields:
  fixes s s' :: clock
  assumes "callstate.more s' = callstate.more s"
  shows "procs s' = procs s" "qs s' = qs s" "whichqs s' = whichqs s" "slpque s' = slpque s"
    "noproc s' = noproc s" "u_procp s' = u_procp s" "a_runout s' = a_runout s" "a_proc s' = a_proc s"
    "ktime s' = ktime s" "tick s' = tick s" "hz s' = hz s" "a_lbolt s' = a_lbolt s" "a_runin s' = a_runin s"
  using assms by (cases s; cases s'; simp)+

lemma clock_good_more:
  assumes "clock_good s" and "callstate.more s' = callstate.more s" and "co_inv s'"
  shows "clock_good s'"
  using assms sig_inv_fields[of s s'] more_fields[OF assms(2)] by (simp add: clock_good_def)

text \<open>A change of the processes that keeps their timers, or of a timer to a good one.\<close>

lemma sched_more_fields:
  fixes s s' :: clock
  assumes "sched_frame s s'"
  shows "ktime s' = ktime s" "tick s' = tick s" "hz s' = hz s" "a_lbolt s' = a_lbolt s" "a_runin s' = a_runin s"
    "calltodo s' = calltodo s" "callfree s' = callfree s"
proof -
  have "sched.more s' = sched.more s" using assms by (simp add: sched_frame_def)
  then show "ktime s' = ktime s" "tick s' = tick s" "hz s' = hz s" by (cases s; cases s'; simp)+
  show "a_lbolt s' = a_lbolt s" "a_runin s' = a_runin s" "calltodo s' = calltodo s" "callfree s' = callfree s"
    using assms by (simp_all add: sched_frame_def)
qed

lemma clock_good_sig:
  assumes "clock_good s" and "sig_inv s'" and "sig_frame s s'"
  shows "clock_good s'" and "pending s' = pending s"
proof -
  have f: "sched_frame s s'" using assms(3) by (simp add: sig_frame_def)
  note e = sched_more_fields[OF f]
  have len: "length (procs s') = length (procs s)" using f by (simp add: sched_frame_def)
  have "\<forall>x\<in>set (procs s'). timer_good (ktime s') (p_realtimer x)"
    using assms(1,3) len e(1)
    by (simp add: clock_good_def all_set_conv_all_nth sig_frame_def same_links_def)
  then show "clock_good s'" using assms(1,2) e by (simp add: clock_good_def co_inv_def)
  show "pending s' = pending s" using e(6) by simp
qed

lemma clock_good_put_timer:
  assumes "clock_good s" and "p < length (procs s)" and "timer_good (ktime s) it"
  defines "s' \<equiv> put_proc p ((procs s ! p)\<lparr>p_realtimer := it\<rparr>) s"
  shows "clock_good s'" and "pending s' = pending s" and "callfree s' = callfree s"
proof -
  let ?x = "procs s ! p"
  let ?y = "?x\<lparr>p_realtimer := it\<rparr>"
  have si: "sched_inv s" "running_ok s" "parents_ok s" using assms(1) by (simp_all add: clock_good_def sig_inv_def)
  have "proc_ok ?x" using sched_inv_D(5)[OF si(1) assms(2)] .
  then have "sched_inv (put_proc p ?y s)"
    by (intro sched_inv_put[OF si(1) assms(2)]) (simp_all add: proc_ok_def)
  moreover have "running_ok (put_proc p ?y s)"
    by (rule running_put[OF si(2)]) (use si(2) in \<open>auto simp: running_ok_def\<close>)
  moreover have "parents_ok (put_proc p ?y s)"
    using si(3) by (auto simp: parents_ok_nth nth_list_update_if put_proc_def)
  ultimately have "sig_inv (put_proc p ?y s)" by (simp add: sig_inv_def)
  moreover have "timer_good (ktime s) (p_realtimer x)" if "x \<in> set ((procs s)[p := ?y])" for x
  proof -
    have "\<forall>x\<in>set (procs s). timer_good (ktime s) (p_realtimer x)" using assms(1) by (simp add: clock_good_def)
    moreover have "timer_good (ktime s) (p_realtimer ?y)" using assms(3) by simp
    ultimately show ?thesis using that set_update_subset_insert[of "procs s" p ?y] by blast
  qed
  ultimately show "clock_good s'"
    using assms(1) unfolding s'_def by (simp add: clock_good_def co_inv_def put_proc_def)
  show "pending s' = pending s" "callfree s' = callfree s"
    unfolding s'_def by (simp_all add: put_proc_def)
qed

lemma clock_good_realtimer:
  assumes "clock_good s" and "p < length (procs s)" and "tv_norm v"
  shows "clock_good (set_realtimer p v s)" and "pending (set_realtimer p v s) = pending s"
    and "callfree (set_realtimer p v s) = callfree s"
proof -
  have "timer_good (ktime s) (p_realtimer (procs s ! p))" using assms(1,2) by (simp add: clock_good_def)
  then have "timer_good (ktime s) ((p_realtimer (procs s ! p))\<lparr>it_value := v\<rparr>)"
    using assms(3) by (simp add: timer_good_def)
  note t = clock_good_put_timer[OF assms(1,2) this]
  show "clock_good (set_realtimer p v s)" "pending (set_realtimer p v s) = pending s"
    "callfree (set_realtimer p v s) = callfree s"
    using t by (simp_all only: set_realtimer_def Let_def)
qed

text \<open>What the contract of a handler says of one outcome: nothing new is due, and nothing is cancelled.\<close>

definition handled :: "clock \<Rightarrow> clock outcome \<Rightarrow> bool" where
  "handled s m \<longleftrightarrow> (\<forall>s'. m = Ok s' \<longrightarrow> clock_good s' \<and> due_now s' = due_now s \<and>
     mset (pending s) \<subseteq># mset (pending s'))"

definition handled_sub :: "clock \<Rightarrow> clock outcome \<Rightarrow> bool" where
  "handled_sub s m \<longleftrightarrow> (\<forall>s'. m = Ok s' \<longrightarrow> clock_good s' \<and> subseq (due_now s') (due_now s))"

lemma handled_weaken: "handled s m \<Longrightarrow> handled_sub s m"
  by (simp add: handled_def handled_sub_def)

lemma handled_timeout:
  assumes "clock_good s" and "t \<le> INT_MAX"
  shows "handled s (timeout f arg t s)"
  unfolding handled_def
proof (intro allI impI)
  fix s' assume s': "timeout f arg t s = Ok s'"
  have "co_inv s" using assms(1) by (simp add: clock_good_def)
  note t = timeout_Ok[OF this assms(2) s']
  have "due_now s' = due_now s" unfolding t(1) by (rule filter_due_insert) simp
  then show "clock_good s' \<and> due_now s' = due_now s \<and> mset (pending s) \<subseteq># mset (pending s')"
    using clock_good_more[OF assms(1) t(4,2)] unfolding t(1) by simp
qed

lemma handled_bind:
  assumes "handled s m" and "\<And>s'. m = Ok s' \<Longrightarrow> clock_good s' \<Longrightarrow> handled s' (f s')"
  shows "handled s (obind m f)"
  using assms unfolding handled_def by (fastforce intro: subset_mset.order_trans)

lemma handled_from:
  assumes "handled s' m" and "pending s' = pending s"
  shows "handled s m"
  using assms by (simp add: handled_def)

lemma handled_sub_cops: "clock_good s \<Longrightarrow> handled_sub s (run_cops cs s)"
proof (induction cs s rule: run_cops.induct)
  case (1 s)
  then show ?case by (simp add: handled_sub_def)
next
  case (2 f arg t cs s)
  have h: "handled s (timeout f arg (int32 t) s)" by (rule handled_timeout[OF 2(2)]) (rule int32_range)
  show ?case unfolding handled_sub_def
  proof (intro allI impI)
    fix s' assume "run_cops (Timeout f arg t # cs) s = Ok s'"
    then obtain s1 where s1: "timeout f arg (int32 t) s = Ok s1" "run_cops cs s1 = Ok s'" by auto
    then have "clock_good s1" "due_now s1 = due_now s" using h by (simp_all add: handled_def)
    then show "clock_good s' \<and> subseq (due_now s') (due_now s)"
      using 2(1)[OF s1(1)] s1(2) by (simp add: handled_sub_def)
  qed
next
  case (3 f arg cs s)
  have c: "co_inv s" using 3(2) by (simp add: clock_good_def)
  note u = untimeout_spec[OF c, of f arg]
  have g: "clock_good (untimeout f arg s)" by (rule clock_good_more[OF 3(2) u(4,2)])
  have "subseq (due_now (untimeout f arg s)) (due_now s)"
    unfolding u(1) by (rule subseq_filter[OF subseq_due_remove])
  then show ?case using 3(1)[OF g] subseq_order.order_trans unfolding handled_sub_def by auto
qed

lemma handled_cops:
  "clock_good s \<Longrightarrow> \<forall>c\<in>set cs. \<exists>f arg t. c = Timeout f arg t \<Longrightarrow> handled s (run_cops cs s)"
proof (induction cs s rule: run_cops.induct)
  case (1 s)
  then show ?case by (simp add: handled_def)
next
  case (2 f arg t cs s)
  have h: "handled s (timeout f arg (int32 t) s)" by (rule handled_timeout[OF 2(2)]) (rule int32_range)
  show ?case unfolding run_cops.simps(2)
    by (rule handled_bind[OF h]) (use 2 in auto)
qed auto

lemma handled_realitexpire:
  assumes g: "clock_good s"
  shows "\<exists>m. realitexpire p s = Some m \<and> handled s m"
proof (cases "p < length (procs s)")
  case False
  then show ?thesis
    by (auto simp: realitexpire_def psignal_def psignal_with_def with_proc_def handled_def NSIG_def sig_defs)
next
  case p: True
  have si: "sig_inv s" using g by (simp add: clock_good_def)
  obtain s1 where s1: "psignal p SIGALRM s = Ok s1" "sig_inv s1" "sig_frame s s1"
    using psignal_good[OF si p, of SIGALRM] by (auto simp: sig_good_def)
  note g1 = clock_good_sig[OF g s1(2,3)]
  have p1: "p < length (procs s1)" using p sig_frame_length[OF s1(3)] by simp
  have free: "pending s1 = pending s" by (rule g1(2))
  show ?thesis
  proof (cases "timerisset (it_interval (p_realtimer (procs s1 ! p)))")
    case False
    have "realitexpire p s = Some (Ok (set_realtimer p timerclear s1))"
      using s1(1) False by (simp add: realitexpire_def)
    moreover have "tv_norm timerclear" by simp
    ultimately show ?thesis
      using clock_good_realtimer[OF g1(1) p1] free by (simp add: handled_def)
  next
    case True
    have "timer_good (ktime s1) (p_realtimer (procs s1 ! p))" "tv_ok (ktime s1)"
      using g1(1) p1 by (simp_all add: clock_good_def)
    then obtain v' where v': "tv_norm v'" "realit_loop p s1 = Some (obind (hzto_of v' (set_realtimer p v' s1))
        (\<lambda>t. timeout Realitexpire (int p) t (set_realtimer p v' s1)))"
      using realit_loop_returns[OF p1] True by blast
    let ?s2 = "set_realtimer p v' s1"
    note g2 = clock_good_realtimer[OF g1(1) p1 v'(1)]
    obtain m where "0 < m" "tick ?s2 = 1000 * m" "0 < hz ?s2" using g2(1) unfolding clock_good_def by blast
    then obtain t where t: "hzto_of v' ?s2 = Ok t" "t \<le> INT_MAX" using hzto_of_Ok by blast
    have "realitexpire p s = Some (timeout Realitexpire (int p) t ?s2)"
      using s1(1) True v'(2) t(1) by (simp add: realitexpire_def)
    moreover have "handled s (timeout Realitexpire (int p) t ?s2)"
      by (rule handled_from[OF handled_timeout[OF g2(1) t(2)]]) (use g2(2) free in simp)
    ultimately show ?thesis by blast
  qed
qed

text \<open>The priorities: what one round keeps.\<close>

lemma same_links_times: "same_links x (decay_times x)"
  by (simp add: same_links_def decay_times_def Let_def)

lemma same_links_pct: "same_links x y \<Longrightarrow> same_links x (decay_pct h y)"
  by (simp add: same_links_def decay_pct_def)

lemma same_links_decay:
  "same_links x ((decay h av x)\<lparr>p_usrpri := v\<rparr>)"
  "same_links x ((decay h av x)\<lparr>p_usrpri := v, p_pri := w\<rparr>)"
  using same_links_pct[OF same_links_times, of x h] by (simp_all add: same_links_def decay_def Let_def)

lemma schedcpu_one_sig:
  assumes "schedcpu_one h p s = Ok s'" and "sig_inv s"
  shows "sig_inv s' \<and> sig_frame s s'"
proof -
  have p: "p < length (procs s)" using assms(1) by (auto simp: schedcpu_one_def with_proc_def split: if_splits)
  let ?x = "procs s ! p"
  show ?thesis
  proof (cases "p_stat ?x = 0 \<or> p_stat ?x = SZOMB")
    case True
    then have "s' = s" using assms(1) p by (auto simp: schedcpu_one_def with_proc_def)
    then show ?thesis using assms(2) by simp
  next
    case False
    then have c: "h \<noteq> 0" "int32 (int32 (avenrun0 s * nrscale) + FSCALE) \<noteq> 0"
      using assms(1) p by (auto simp: schedcpu_one_def with_proc_def split: if_splits)
    have si: "sched_inv s" "running_ok s" using assms(2) by (simp_all add: sig_inv_def)
    have s': "sched_inv s'" "running_ok s'" "sched_frame s s'"
      using schedcpu_one_spec[OF si p c] assms(1) by auto
    obtain s1 v where s1: "setpri p (put_proc p (decay h (avenrun0 s) ?x) s) = Ok (s1, v)"
      "procs s1 = (procs s)[p := (decay h (avenrun0 s) ?x)\<lparr>p_usrpri := v\<rparr>]"
      using False p assms(1) by (auto simp: schedcpu_one_def with_proc_def setpri_def Let_def)
    have rq: "procs t = procs u" if "remrq p u = Ok t" for t u :: "'a sched_scheme"
      using that by (auto simp: remrq_def with_proc_def Let_def split: if_splits)
    have sq: "procs t = procs u" if "setrq p u = Ok t" for t u :: "'a sched_scheme"
      using that by (auto simp: setrq_def with_proc_def Let_def split: if_splits)
    let ?y = "procs s1 ! p"
    let ?z = "?y\<lparr>p_pri := p_usrpri ?y\<rparr>"
    have e: "schedcpu_one h p s = (if PUSER \<le> p_pri ?y then
         (if (p \<noteq> u_procp s1 \<or> noproc s1) \<and> p_stat ?y = SRUN \<and> loaded ?y \<and> p_pri ?y \<noteq> p_usrpri ?y
          then obind (remrq p s1) (\<lambda>s2. setrq p (put_proc p ?z s2))
          else Ok (put_proc p ?z s1))
       else Ok s1)"
      using False p c by (simp add: schedcpu_one_def with_proc_def s1(1) Let_def)
    have "procs s' = procs s1 \<or> procs s' = (procs s1)[p := ?z]"
    proof (cases "PUSER \<le> p_pri ?y")
      case False
      then have "s' = s1" using assms(1) unfolding e by simp
      then show ?thesis by simp
    next
      case a: True
      show ?thesis
      proof (cases "(p \<noteq> u_procp s1 \<or> noproc s1) \<and> p_stat ?y = SRUN \<and> loaded ?y \<and> p_pri ?y \<noteq> p_usrpri ?y")
        case True
        have "obind (remrq p s1) (\<lambda>s2. setrq p (put_proc p ?z s2)) = Ok s'"
          using assms(1) unfolding e if_P[OF a] if_P[OF True] .
        then obtain s2 where s2: "remrq p s1 = Ok s2" "setrq p (put_proc p ?z s2) = Ok s'"
          unfolding obind_eq_Ok by (elim exE conjE) (rule that)
        show ?thesis using rq[OF s2(1)] sq[OF s2(2)] by (simp add: put_proc_def)
      next
        case False
        have "put_proc p ?z s1 = s'" using assms(1) unfolding e if_P[OF a] if_not_P[OF False] by simp
        then show ?thesis by (auto simp: put_proc_def)
      qed
    qed
    then obtain y where y: "procs s' = (procs s)[p := y]" "same_links ?x y"
    proof
      assume "procs s' = procs s1"
      then show thesis using that s1(2) same_links_decay(1) by metis
    next
      assume "procs s' = (procs s1)[p := ?z]"
      moreover have "?z = (decay h (avenrun0 s) ?x)\<lparr>p_usrpri := v, p_pri := v\<rparr>" using p by (simp add: s1(2))
      ultimately have "procs s' = (procs s)[p := (decay h (avenrun0 s) ?x)\<lparr>p_usrpri := v, p_pri := v\<rparr>]"
        by (simp add: s1(2))
      then show thesis using that same_links_decay(2) by blast
    qed
    have "\<forall>r<length (procs s). same_links (procs s ! r) (procs s' ! r)"
      unfolding y(1) using y(2) by (simp add: nth_list_update_if)
    then have f: "sig_frame s s'" using s'(3) by (simp add: sig_frame_def)
    have "parents_ok s'" using parents_ok_step[OF _ f] assms(2) by (simp add: sig_inv_def)
    then show ?thesis using s' f by (simp add: sig_inv_def)
  qed
qed

lemma schedcpu_loop_sig:
  "schedcpu_loop h l s = Ok s' \<Longrightarrow> sig_inv s \<Longrightarrow> sig_inv s' \<and> sig_frame s s'"
proof (induction l arbitrary: s)
  case (Cons p l)
  then obtain s1 where s1: "schedcpu_one h p s = Ok s1" "schedcpu_loop h l s1 = Ok s'" by auto
  then show ?case using schedcpu_one_sig[OF s1(1) Cons.prems(2)] Cons.IH[OF s1(2)] sig_frame_trans by blast
qed simp

lemma handled_sig:
  assumes "clock_good s" and "\<And>s'. m = Ok s' \<Longrightarrow> sig_inv s' \<and> sig_frame s s'"
  shows "handled s m"
  using clock_good_sig[OF assms(1)] assms(2) by (auto simp: handled_def)

lemma handled_fields:
  assumes "clock_good s" and "sig_inv t" and "procs t = procs s" "calltodo t = calltodo s" "sched_frame s t"
  shows "clock_good t \<and> pending t = pending s"
proof -
  have "sig_frame s t" using assms(3,5) by (simp add: sig_frame_def)
  then show ?thesis using clock_good_sig[OF assms(1,2)] by blast
qed

lemma handled_roundrobin:
  assumes "clock_good s"
  shows "handled s (roundrobin (hz s) s)"
proof -
  let ?t = "s\<lparr>runrun := int32 (runrun s + 1), astpend := True\<rparr>"
  have "sig_inv ?t" by (rule sig_inv_fields[of s]) (use assms in \<open>simp_all add: clock_good_def\<close>)
  then have t: "clock_good ?t" "pending ?t = pending s"
    using handled_fields[OF assms, of ?t] by (simp_all add: sched_frame_def)
  have "0 < hz s" "hz s \<le> INT_MAX" using assms by (simp_all add: clock_good_def)
  then have "hz s sdiv 10 \<le> INT_MAX" using zdiv_mono2[of "hz s" 1 10] by simp
  then show ?thesis unfolding roundrobin_def by (rule handled_from[OF handled_timeout[OF t(1)] t(2)])
qed

lemma sig_good_handled: "clock_good s \<Longrightarrow> sig_good s m \<Longrightarrow> handled s m"
  by (rule handled_sig) (auto simp: sig_good_def)

lemma handled_wakeup: "clock_good s \<Longrightarrow> chan \<noteq> 0 \<Longrightarrow> handled s (wakeup chan s)"
  by (rule sig_good_handled) (auto simp: clock_good_def intro: wakeup_sig)

lemma clock_good_fields:
  assumes "clock_good s" and "procs t = procs s" "qs t = qs s" "whichqs t = whichqs s" "slpque t = slpque s"
    "noproc t = noproc s" "u_procp t = u_procp s" "a_runout t = a_runout s" "a_proc t = a_proc s"
    "ktime t = ktime s" "tick t = tick s" "hz t = hz s" "a_lbolt t = a_lbolt s" "a_runin t = a_runin s"
    "calltodo t = calltodo s"
  shows "clock_good t \<and> pending t = pending s"
proof -
  have "sig_inv s" using assms(1) by (simp add: clock_good_def)
  then have "sig_inv t" by (rule sig_inv_fields) (use assms in simp_all)
  then show ?thesis using assms by (simp add: clock_good_def co_inv_def)
qed

lemma handled_schedcpu:
  assumes g: "clock_good s"
  shows "handled s (schedcpu (\<lambda>t. Ok (t\<lparr>avenrun0 := load t\<rparr>)) (hz s) s)"
proof -
  have wa: "handled s (wakeup (a_lbolt s) s)" using g by (intro handled_wakeup) (simp_all add: clock_good_def)
  have lo: "handled s1 (schedcpu_loop (hz s) [0..<length (procs s1)] s1)" if "clock_good s1" for s1
  proof (rule handled_sig[OF that])
    fix s2 assume "schedcpu_loop (hz s) [0..<length (procs s1)] s1 = Ok s2"
    then show "sig_inv s2 \<and> sig_frame s1 s2" using schedcpu_loop_sig that by (auto simp: clock_good_def)
  qed
  have rest: "handled s3 (obind (if runin s3 \<noteq> 0 then wakeup (a_runin s3) (s3\<lparr>runin := 0\<rparr>) else Ok s3)
      (\<lambda>s4. if bclnlist s4 then wakeup (a_proc s4 2) s4 else Ok s4))" if "clock_good s3" for s3
  proof (rule handled_bind)
    have f: "clock_good (s3\<lparr>runin := 0\<rparr>)" "pending (s3\<lparr>runin := 0\<rparr>) = pending s3"
      using clock_good_fields[OF that, of "s3\<lparr>runin := 0\<rparr>"] by simp_all
    have "a_runin s3 \<noteq> 0" using that by (simp add: clock_good_def)
    then have "handled s3 (wakeup (a_runin s3) (s3\<lparr>runin := 0\<rparr>))"
      using handled_from[OF handled_wakeup[OF f(1)] f(2)] by blast
    then show "handled s3 (if runin s3 \<noteq> 0 then wakeup (a_runin s3) (s3\<lparr>runin := 0\<rparr>) else Ok s3)"
      using that by (simp add: handled_def)
    fix s4 assume "clock_good s4"
    moreover from this have "a_proc s4 2 \<noteq> 0" by (simp add: clock_good_def sig_inv_def parents_ok_def)
    ultimately show "handled s4 (if bclnlist s4 then wakeup (a_proc s4 2) s4 else Ok s4)"
      using handled_wakeup by (simp add: handled_def)
  qed
  have "handled s (schedcpu_body (\<lambda>t. Ok (t\<lparr>avenrun0 := load t\<rparr>)) (hz s) s)"
    unfolding schedcpu_body_def
  proof (rule handled_bind[OF wa], rule handled_bind[OF lo], assumption)
    fix s2 assume g2: "clock_good s2"
    let ?s3 = "s2\<lparr>avenrun0 := load s2\<rparr>"
    have f: "clock_good ?s3" "pending ?s3 = pending s2" using clock_good_fields[OF g2, of ?s3] by simp_all
    show "handled s2 (obind (Ok ?s3) (\<lambda>s3. obind (if runin s3 \<noteq> 0 then wakeup (a_runin s3) (s3\<lparr>runin := 0\<rparr>) else Ok s3)
        (\<lambda>s4. if bclnlist s4 then wakeup (a_proc s4 2) s4 else Ok s4)))"
      unfolding obind.simps by (rule handled_from[OF rest[OF f(1)] f(2)])
  qed
  then show ?thesis unfolding schedcpu_def
  proof (rule handled_bind)
    fix s' assume "clock_good s'"
    then show "handled s' (timeout Schedcpu 0 (hz s) s')"
      using g by (intro handled_timeout) (simp_all add: clock_good_def)
  qed
qed

lemma clock_good_pop:
  assumes "clock_good s" and "due_now s \<noteq> []"
  shows "clock_good (co_pop s)"
proof -
  have c: "co_inv s" using assms(1) by (simp add: clock_good_def)
  have "\<not> (calltodo s = [] \<or> 0 < c_time (hd (calltodo s)))" using due_now_Nil_iff[OF c] assms(2) by blast
  then obtain p ps where "calltodo s = p # ps" "c_time p \<le> 0" by (cases "calltodo s") auto
  then have "co_inv (co_pop s)" by (rule co_inv_pop[OF c])
  then show ?thesis by (intro clock_good_more[OF assms(1)]) (simp_all add: co_pop_def)
qed

lemma clock_good_tick:
  "clock_good s \<Longrightarrow> \<forall>x\<in>set (pending s). - 2147483648 < fst x \<Longrightarrow> clock_good (co_ticked s)"
  by (rule clock_good_more) (auto simp: clock_good_def co_ticked_def intro: pending_ticked(2)[unfolded co_ticked_def])

text \<open>The handlers of the kernel fulfil the contract, whatever the drivers ask for.\<close>

interpretation kernel: callout_handlers "kernel_handler load drv" clock_good
proof
  fix s :: clock and f arg late s'
  show "clock_good s \<Longrightarrow> co_inv s" by (simp add: clock_good_def)
  show "clock_good s \<Longrightarrow> due_now s \<noteq> [] \<Longrightarrow> clock_good (co_pop s)" by (rule clock_good_pop)
  show "clock_good s \<Longrightarrow> \<forall>x\<in>set (pending s). - 2147483648 < fst x \<Longrightarrow> clock_good (co_ticked s)"
    by (rule clock_good_tick)
  assume g: "clock_good s"
  have all: "\<exists>m. kernel_handler load drv f arg late s = Some m \<and> handled_sub s m"
  proof (cases f)
    case Realitexpire
    then show ?thesis using handled_realitexpire[OF g, of "nat arg"] handled_weaken
      by (auto simp: kernel_handler_def handled_sub_def)
  next
    case Roundrobin
    then show ?thesis using handled_roundrobin[OF g] handled_weaken by (simp add: kernel_handler_def)
  next
    case Schedcpu
    then show ?thesis using handled_schedcpu[OF g] handled_weaken by (simp add: kernel_handler_def)
  next
    case (Driver n)
    then show ?thesis using handled_sub_cops[OF g] by (simp add: kernel_handler_def)
  qed
  then show "kernel_handler load drv f arg late s \<noteq> None" by auto
  assume "kernel_handler load drv f arg late s = Some (Ok s')"
  then show "clock_good s'" "subseq (due_now s') (due_now s)" using all by (auto simp: handled_sub_def)
qed

text \<open>Drivers whose routines only ask for further calls.\<close>

definition only_timeouts :: "(nat \<Rightarrow> int \<Rightarrow> int \<Rightarrow> (kfun \<times> int \<times> int) list) \<Rightarrow> nat \<Rightarrow> int \<Rightarrow> int \<Rightarrow> cop list" where
  "only_timeouts req n arg late = map (\<lambda>(f, a, t). Timeout f a t) (req n arg late)"

interpretation kernel_asking: timeout_handlers "kernel_handler load (only_timeouts req)" clock_good
proof
  fix s :: clock and f arg late s'
  assume g: "clock_good s" and r: "kernel_handler load (only_timeouts req) f arg late s = Some (Ok s')"
  have "\<exists>m. kernel_handler load (only_timeouts req) f arg late s = Some m \<and> handled s m"
  proof (cases f)
    case Realitexpire
    then show ?thesis using handled_realitexpire[OF g, of "nat arg"]
      by (auto simp: kernel_handler_def handled_def)
  next
    case Roundrobin
    then show ?thesis using handled_roundrobin[OF g] by (simp add: kernel_handler_def)
  next
    case Schedcpu
    then show ?thesis using handled_schedcpu[OF g] by (simp add: kernel_handler_def)
  next
    case (Driver n)
    have "\<forall>c\<in>set (only_timeouts req n arg late). \<exists>f arg t. c = Timeout f arg t"
      by (auto simp: only_timeouts_def)
    then show ?thesis using handled_cops[OF g] Driver by (simp add: kernel_handler_def)
  qed
  then show "mset (pending s) \<subseteq># mset (pending s')" using r by (auto simp: handled_def)
qed

section \<open>Properties\<close>

lemma set_flag_links [simp]: "same_links x (x\<lparr>p_flag := p_flag x OR SOWEUPC\<rparr>)"
  by (simp add: same_links_def bit.conj_disj_distrib2 SOWEUPC_def STRC_def)

lemma or_soweupc: "(x OR SOWEUPC) AND SLOAD = x AND SLOAD"
  by (simp add: bit.conj_disj_distrib2 SOWEUPC_def SLOAD_def)

lemma owe_profile_good:
  assumes "clock_good s"
  shows "clock_good (owe_profile ps s) \<and> pending (owe_profile ps s) = pending s"
proof (cases "USERMODE ps \<and> pr_scale (u_prof s) \<noteq> 0")
  case True
  let ?p = "u_procp s"
  let ?x = "procs s ! ?p"
  let ?t = "put_proc ?p (?x\<lparr>p_flag := p_flag ?x OR SOWEUPC\<rparr>) s"
  have e: "owe_profile ps s = ?t\<lparr>astpend := True\<rparr>" using True by (simp add: owe_profile_def Let_def)
  have si: "sched_inv s" "running_ok s" "parents_ok s" using assms by (simp_all add: clock_good_def sig_inv_def)
  have f: "sig_frame s ?t" by (rule sig_frame_put[OF set_flag_links])
  have "sig_inv ?t"
  proof (cases "?p < length (procs s)")
    case p: True
    have "proc_ok ?x" using sched_inv_D(5)[OF si(1) p] .
    then have "sched_inv ?t"
      by (intro sched_inv_put[OF si(1) p]) (simp_all add: proc_ok_def loaded_def or_soweupc)
    moreover have "running_ok ?t"
      by (rule running_put[OF si(2)]) (use si(2) in \<open>auto simp: running_ok_def loaded_def or_soweupc\<close>)
    moreover have "parents_ok ?t" by (rule parents_ok_step[OF si(3) f])
    ultimately show ?thesis by (simp add: sig_inv_def)
  next
    case False
    then have "?t = s" by (simp add: put_proc_def not_less list_update_beyond)
    then show ?thesis using si by (simp add: sig_inv_def)
  qed
  note t = clock_good_sig[OF assms this f]
  show ?thesis unfolding e using clock_good_fields[OF t(1), of "?t\<lparr>astpend := True\<rparr>"] t(2) by simp
next
  case False
  then have "owe_profile ps s = s" by (simp only: owe_profile_def if_False)
  then show ?thesis using assms by simp
qed




text \<open>One tick of the time of day, without regard to \<open>adjtime\<close> and with it.\<close>

lemma BUMPTIME_sec: "tv_ok t \<Longrightarrow> 0 \<le> d \<Longrightarrow> d \<le> 1000000 \<Longrightarrow> tv_sec t < 2147483646 \<Longrightarrow>
    tv_sec (BUMPTIME t d) \<le> tv_sec t + 1"
  by (simp add: BUMPTIME_def tv_ok_def Let_def INT_MAX_def)

definition slew_ok :: "clock \<Rightarrow> bool" where
  "slew_ok s \<longleftrightarrow> tv_ok (ktime s) \<and> 0 < tickadj s \<and> tickadj s < tick s \<and> tick s \<le> 500000 \<and>
     \<bar>adjtimedelta s\<bar> \<le> INT_MAX"

lemma advance_fields [simp]: "tick (advance_time s) = tick s" "tickadj (advance_time s) = tickadj s"
  by (simp_all add: advance_time_def Let_def)

lemma advance_time_step:
  assumes "slew_ok s" and "tv_sec (ktime s) < 2147483646"
  shows "slew_ok (advance_time s) \<and> tv_sec (ktime (advance_time s)) \<le> tv_sec (ktime s) + 1 \<and>
    (\<exists>d r. \<bar>d\<bar> \<le> tickadj s \<and> usec_of (ktime (advance_time s)) = usec_of (ktime s) + tick s + d \<and>
      adjtimedelta (advance_time s) = adjtimedelta s - d - r \<and> \<bar>r\<bar> < tickadj s \<and>
      (if adjtimedelta s = 0 then d = 0 \<and> r = 0
       else adjtimedelta (advance_time s) = 0 \<or>
         r = 0 \<and> \<bar>adjtimedelta (advance_time s)\<bar> = \<bar>adjtimedelta s\<bar> - tickadj s))"
proof -
  have a: "tv_ok (ktime s)" "0 < tickadj s" "tickadj s < tick s" "tick s \<le> 500000"
    "\<bar>adjtimedelta s\<bar> \<le> INT_MAX" using assms(1) by (simp_all add: slew_ok_def)
  let ?a = "adjtimedelta s" and ?j = "tickadj s"
  have b: "usec_of (BUMPTIME (ktime s) d) = usec_of (ktime s) + d" "tv_ok (BUMPTIME (ktime s) d)"
    "tv_sec (BUMPTIME (ktime s) d) \<le> tv_sec (ktime s) + 1" if "0 \<le> d" "d \<le> 1000000" for d
    using BUMPTIME_usec[OF a(1) that assms(2)] BUMPTIME_sec[OF a(1) that assms(2)] by simp_all
  show ?thesis
  proof (cases "?a = 0")
    case True
    have t: "0 \<le> tick s" "tick s \<le> 1000000" using a by simp_all
    have "advance_time s = s\<lparr>ktime := BUMPTIME (ktime s) (tick s)\<rparr>" using True by (simp add: advance_time_def)
    then show ?thesis using b[OF t] True a
      by (auto simp: slew_ok_def intro!: exI[of _ 0])
  next
    case False
    define d where "d = (if ?a < 0 then - ?j else ?j)"
    have d: "\<bar>d\<bar> = ?j" "0 \<le> tick s + d" "tick s + d \<le> 1000000" using a by (auto simp: d_def)
    have "int32 (tick s + d) = tick s + d" "int32 (?a - d) = ?a - d" "- ?j \<le> ?j"
      using a d False by (auto simp: d_def INT_MAX_def)
    then have e: "ktime (advance_time s) = BUMPTIME (ktime s) (tick s + d)"
      "adjtimedelta (advance_time s) = (if \<bar>?a - d\<bar> < ?j then 0 else ?a - d)"
      using False by (auto simp: advance_time_def Let_def d_def abs_less_iff)
    note u = b[OF d(2,3)]
    have m: "\<bar>?a - d\<bar> = (if \<bar>?a\<bar> < ?j then ?j - \<bar>?a\<bar> else \<bar>?a\<bar> - ?j)" using a(2) False by (auto simp: d_def)
    have z: "\<bar>?a - d\<bar> < ?j \<or> \<bar>?a - d\<bar> = \<bar>?a\<bar> - ?j" using m False by auto
    have i: "\<bar>adjtimedelta (advance_time s)\<bar> \<le> INT_MAX" using z a unfolding e by auto
    have "\<exists>d r. \<bar>d\<bar> \<le> ?j \<and> usec_of (ktime (advance_time s)) = usec_of (ktime s) + tick s + d \<and>
      adjtimedelta (advance_time s) = ?a - d - r \<and> \<bar>r\<bar> < ?j \<and>
      (if ?a = 0 then d = 0 \<and> r = 0
       else adjtimedelta (advance_time s) = 0 \<or>
         r = 0 \<and> \<bar>adjtimedelta (advance_time s)\<bar> = \<bar>?a\<bar> - ?j)"
      by (rule exI[of _ d], rule exI[of _ "if \<bar>?a - d\<bar> < ?j then ?a - d else 0"])
        (use False d(1) u(1) z a(2) in \<open>auto simp: e\<close>)
    then show ?thesis using a i u(2,3) by (simp add: slew_ok_def e(1))
  qed
qed

text \<open>
  C24: \<open>adjtime\<close> slews the clock.  Over \<open>k\<close> ticks the time of day advances by \<open>k\<close> ticks and by what
  has been taken from the correction, up to a rest of less than \<open>tickadj\<close> microseconds that is
  dropped at the end; every tick moves it forward; and after \<open>k\<close> ticks with
  \<open>k * tickadj\<close> not below the correction nothing is left of it.
\<close>
theorem adjtime_slews:
  assumes "slew_ok s" and "tv_sec (ktime s) + int k < 2147483646"
  defines "s' \<equiv> (advance_time ^^ k) s"
  shows "\<exists>r. \<bar>r\<bar> < tickadj s \<and> (adjtimedelta s = 0 \<longrightarrow> r = 0) \<and>
    usec_of (ktime s') = usec_of (ktime s) + int k * tick s + (adjtimedelta s - adjtimedelta s') - r \<and>
    int k * (tick s - tickadj s) \<le> usec_of (ktime s') - usec_of (ktime s) \<and>
    (\<bar>adjtimedelta s\<bar> \<le> int k * tickadj s \<longrightarrow> adjtimedelta s' = 0)"
  unfolding s'_def using assms(1,2)
proof (induction k arbitrary: s)
  case 0
  have "0 < tickadj s" using 0 by (simp add: slew_ok_def)
  then show ?case by (intro exI[of _ 0]) simp
next
  case (Suc k)
  let ?s1 = "advance_time s"
  define t where "t = (advance_time ^^ k) ?s1"
  have t: "(advance_time ^^ Suc k) s = t" by (simp add: t_def funpow_swap1)
  have lt: "tv_sec (ktime s) < 2147483646" using Suc.prems(2) by simp
  obtain d r0 where s1: "slew_ok ?s1" "tv_sec (ktime ?s1) \<le> tv_sec (ktime s) + 1"
    "\<bar>d\<bar> \<le> tickadj s" "usec_of (ktime ?s1) = usec_of (ktime s) + tick s + d"
    "adjtimedelta ?s1 = adjtimedelta s - d - r0" "\<bar>r0\<bar> < tickadj s"
    "if adjtimedelta s = 0 then d = 0 \<and> r0 = 0
     else adjtimedelta ?s1 = 0 \<or> r0 = 0 \<and> \<bar>adjtimedelta ?s1\<bar> = \<bar>adjtimedelta s\<bar> - tickadj s"
    using advance_time_step[OF Suc.prems(1) lt] by blast
  have "tv_sec (ktime ?s1) + int k < 2147483646" using s1(2) Suc.prems(2) by simp
  from Suc.IH[OF s1(1) this, unfolded advance_fields, folded t_def]
  obtain r1 where r1: "\<bar>r1\<bar> < tickadj s" "adjtimedelta ?s1 = 0 \<longrightarrow> r1 = 0"
    "usec_of (ktime t) = usec_of (ktime ?s1) + int k * tick s + (adjtimedelta ?s1 - adjtimedelta t) - r1"
    "int k * (tick s - tickadj s) \<le> usec_of (ktime t) - usec_of (ktime ?s1)"
    "\<bar>adjtimedelta ?s1\<bar> \<le> int k * tickadj s \<longrightarrow> adjtimedelta t = 0"
    by blast
  define A where "A = int k * tick s"
  define B where "B = int k * tickadj s"
  have AB: "int (Suc k) * tick s = A + tick s" "int (Suc k) * tickadj s = B + tickadj s"
    "int k * (tick s - tickadj s) = A - B" "int (Suc k) * (tick s - tickadj s) = A - B + tick s - tickadj s"
    by (simp_all add: A_def B_def algebra_simps)
  have B0: "0 \<le> B" using Suc.prems(1) by (simp add: B_def slew_ok_def)
  note r1' = r1[unfolded AB, folded A_def B_def]
  have one: "r0 = 0 \<or> r1 = 0" using s1(7) r1(2) by (auto split: if_splits)
  have "\<bar>adjtimedelta s\<bar> \<le> B + tickadj s \<longrightarrow> \<bar>adjtimedelta ?s1\<bar> \<le> B"
    using s1(5,7) B0 by (auto split: if_splits)
  then have gone: "\<bar>adjtimedelta s\<bar> \<le> B + tickadj s \<longrightarrow> adjtimedelta t = 0" using r1'(5) by blast
  show ?case unfolding t AB
    by (rule exI[of _ "r0 + r1"])
      (use one gone r1' s1(3-7) in \<open>auto split: if_splits\<close>)
qed


section \<open>Witnesses\<close>

definition demo_clock :: clock where
  "demo_clock = sigstate.extend demo_sig
     (clock.fields \<lparr>tv_sec = 1000, tv_usec = 30000\<rparr> timerclear \<lparr>tz_minuteswest = 0, tz_dsttime = 0\<rparr>
        20000 50 0 40 100 False 0 [] \<lparr>pr_base = 0, pr_size = 0, pr_off = 0, pr_scale = 0\<rparr>
        timerclear timerclear 0 0 0 0 (replicate 3 \<lparr>it_interval = timerclear, it_value = timerclear\<rparr>)
        0 0 [0, 0, 0, 0] 0 [0, 0, 0, 0] timerclear 0)"

lemma demo_clock_fields:
  "procs demo_clock = procs demo_sig" "qs demo_clock = qs demo_sig" "whichqs demo_clock = whichqs demo_sig"
  "slpque demo_clock = slpque demo_sig" "noproc demo_clock = noproc demo_sig" "u_procp demo_clock = u_procp demo_sig"
  "a_runout demo_clock = a_runout demo_sig" "a_proc demo_clock = a_proc demo_sig"
  "a_lbolt demo_clock = a_lbolt demo_sig" "a_runin demo_clock = a_runin demo_sig"
  "calltodo demo_clock = calltodo demo_sig" "callfree demo_clock = callfree demo_sig"
  "ktime demo_clock = \<lparr>tv_sec = 1000, tv_usec = 30000\<rparr>" "tick demo_clock = 20000" "hz demo_clock = 50"
  "tickadj demo_clock = 40" "adjtimedelta demo_clock = 100"
  "u_timer demo_clock = replicate 3 \<lparr>it_interval = timerclear, it_value = timerclear\<rparr>"
  by (simp_all add: demo_clock_def sigstate.defs clock.defs)

lemma demo_clock_start:
  "calltodo demo_clock = []" "length (callfree demo_clock) = 4" "a_lbolt demo_clock \<noteq> 0" "a_runin demo_clock \<noteq> 0"
  "u_procp demo_clock = 1" "length (procs demo_clock) = 2"
  using demo_sig_inv(2,3)
  by (simp_all add: demo_clock_fields) (simp_all add: demo_sig_def demo_sched_of_def sched.defs rqinit_def)

lemma demo_procs: "procs demo_clock = [demo_proc SSTOP 80, demo_proc SRUN 60]"
  using demo_sig_inv(2,4,5) by (simp add: demo_clock_fields list_eq_iff_nth_eq less_Suc_eq numeral_2_eq_2)

lemma demo_clock_good: "clock_good demo_clock"
proof -
  have "sig_inv demo_clock" by (rule sig_inv_fields[OF demo_sig_inv(1)]) (simp_all add: demo_clock_fields)
  moreover have "\<forall>x\<in>set (procs demo_clock). timer_good (ktime demo_clock) (p_realtimer x)"
    by (simp add: demo_procs demo_proc_def timer_good_def demo_clock_fields tv_norm_def tv_ok_def timerclear_def INT_MAX_def)
  moreover have "co_inv demo_clock" using demo_clock_start(1) by (simp add: co_inv_def)
  moreover have "\<exists>m>0. tick demo_clock = 1000 * m" by (rule exI[of _ 20]) (simp add: demo_clock_fields)
  ultimately show ?thesis using demo_clock_start(3,4)
    by (simp add: clock_good_def demo_clock_fields(13-) tv_ok_def INT_MAX_def)
qed

definition demo_due :: clock where
  "demo_due = demo_clock\<lparr>calltodo := [\<lparr>c_time = 0, c_arg = 1, c_func = Driver 1\<rparr>]\<rparr>"

lemma demo_due_good: "clock_good demo_due" "due_now demo_due = [(0, Driver 1, 1)]"
  by (rule clock_good_more[OF demo_clock_good]) (simp_all add: demo_due_def co_inv_dues INT_MAX_def)



definition demo_alarm :: clock where
  "demo_alarm = put_proc 1 ((procs demo_clock ! 1)\<lparr>p_realtimer :=
     \<lparr>it_interval = \<lparr>tv_sec = 4, tv_usec = 0\<rparr>, it_value = \<lparr>tv_sec = 990, tv_usec = 0\<rparr>\<rparr>\<rparr>) demo_clock"

lemma demo_alarm_good:
  "clock_good demo_alarm" "1 < length (procs demo_alarm)"
  "p_realtimer (procs demo_alarm ! 1) =
     \<lparr>it_interval = \<lparr>tv_sec = 4, tv_usec = 0\<rparr>, it_value = \<lparr>tv_sec = 990, tv_usec = 0\<rparr>\<rparr>"
  "ktime demo_alarm = \<lparr>tv_sec = 1000, tv_usec = 30000\<rparr>"
proof -
  have p: "1 < length (procs demo_clock)" using demo_clock_start(6) by simp
  show "clock_good demo_alarm" unfolding demo_alarm_def
    by (rule clock_good_put_timer(1)[OF demo_clock_good p])
      (simp add: timer_good_def demo_clock_fields(13) tv_norm_def tv_ok_def INT_MAX_def)
  show "1 < length (procs demo_alarm)" "ktime demo_alarm = \<lparr>tv_sec = 1000, tv_usec = 30000\<rparr>"
    using p by (simp_all add: demo_alarm_def put_proc_def demo_clock_fields(13))
  show "p_realtimer (procs demo_alarm ! 1) =
     \<lparr>it_interval = \<lparr>tv_sec = 4, tv_usec = 0\<rparr>, it_value = \<lparr>tv_sec = 990, tv_usec = 0\<rparr>\<rparr>"
    using p unfolding demo_alarm_def by (simp add: put_proc_def)
qed


lemma adjtime_slews_witness:
  "adjtimedelta ((advance_time ^^ 3) demo_clock) = 0 \<and>
   60000 - 120 \<le> usec_of (ktime ((advance_time ^^ 3) demo_clock)) - 1000030000"
proof -
  have h: "slew_ok demo_clock" "tv_sec (ktime demo_clock) + int 3 < 2147483646"
    by (simp_all add: slew_ok_def demo_clock_fields tv_ok_def INT_MAX_def)
  define s' where "s' = (advance_time ^^ 3) demo_clock"
  show ?thesis using adjtime_slews[OF h] unfolding s'_def[symmetric]
    by (auto simp: demo_clock_fields usec_of_def)
qed


end
