(* ===== verification/Dnlc.thy ===== *)
theory Dnlc
  imports Kernel_Prelude
begin

text \<open>
  The directory name lookup cache (\<open>sys/vfs_dnlc.c\<close>, \<open>h/dnlc.h\<close>).  Entries of the table are named
  by their index, vnodes and credentials by their addresses, with 0 for the null pointer.  The
  circular lists are lists of indices: the LRU list from the least recently used entry on, and the
  hash chains from their heads on.  An entry that is on no hash chain is linked to itself in the
  code, where removing it does nothing.
\<close>

section \<open>State\<close>

definition NC_HASH_SIZE :: nat where "NC_HASH_SIZE = 8"
definition NC_NAMLEN :: nat where "NC_NAMLEN = 15"
definition ANYCRED :: int where "ANYCRED = -1"
definition NOCRED :: int where "NOCRED = 0"

record ncache =
  nc_vp :: int
  nc_dp :: int
  nc_namlen :: nat
  nc_name :: "int list"
  nc_cred :: int

record ncstats =
  hits :: int
  misses :: int
  enters :: int
  dbl_enters :: int
  long_enter :: int
  long_look :: int
  lru_empty :: int
  purges :: int

text \<open>
  \<open>v_count\<close> and \<open>cr_ref\<close> are the reference counts of vnodes and credentials, \<open>inactive\<close> lists the
  vnodes that \<open>VOP_INACTIVE\<close> was called for and \<open>crfreelist\<close> the credentials that were freed.
\<close>

record dnlc =
  ncache_tab :: "ncache list"
  nc_lru :: "nat list"
  nc_hash :: "nat list list"
  doingcache :: bool
  nc_stats :: ncstats
  v_count :: "int \<Rightarrow> int"
  inactive :: "int list"
  cr_ref :: "int \<Rightarrow> int"
  crfreelist :: "int list"

section \<open>References\<close>

definition VN_HOLD :: "int \<Rightarrow> dnlc \<Rightarrow> dnlc outcome" where
  "VN_HOLD vp s = (if vp = 0 then Fault
     else Ok (s\<lparr>v_count := (v_count s)(vp := uint16 (v_count s vp + 1))\<rparr>))"

definition vn_rele :: "int \<Rightarrow> dnlc \<Rightarrow> dnlc outcome" where
  "vn_rele vp s =
     (if vp = 0 then Fault
      else if v_count s vp = 0 then Panic ''vn_rele''
      else
        (let c = uint16 (v_count s vp - 1); s1 = s\<lparr>v_count := (v_count s)(vp := c)\<rparr>
         in Ok (if c = 0 then s1\<lparr>inactive := vp # inactive s1\<rparr> else s1)))"

definition crhold :: "int \<Rightarrow> dnlc \<Rightarrow> dnlc" where
  "crhold cr s = s\<lparr>cr_ref := (cr_ref s)(cr := uint16 (cr_ref s cr + 1))\<rparr>"

definition crfree :: "int \<Rightarrow> dnlc \<Rightarrow> dnlc" where
  "crfree cr s =
     (let c = uint16 (cr_ref s cr - 1); s1 = s\<lparr>cr_ref := (cr_ref s)(cr := c)\<rparr>
      in if c \<noteq> 0 then s1 else s1\<lparr>crfreelist := cr # crfreelist s1\<rparr>)"

section \<open>Lists\<close>

text \<open>
  \<open>NC_HASH\<close> reads the byte before the name when the name is empty.  \<open>& 7\<close> on a negative sum
  takes the remainder of division towards minus infinity.
\<close>

definition NC_HASH :: "int list \<Rightarrow> nat \<Rightarrow> int \<Rightarrow> nat outcome" where
  "NC_HASH nm namlen vp =
     (if namlen = 0 then Fault
      else Ok (nat ((nm ! 0 + nm ! (namlen - 1) + int namlen + vp) mod int NC_HASH_SIZE)))"

definition INS_LRU :: "nat \<Rightarrow> dnlc \<Rightarrow> dnlc" where
  "INS_LRU n s = s\<lparr>nc_lru := n # nc_lru s\<rparr>"

definition INS_LRU_last :: "nat \<Rightarrow> dnlc \<Rightarrow> dnlc" where
  "INS_LRU_last n s = s\<lparr>nc_lru := nc_lru s @ [n]\<rparr>"

definition RM_LRU :: "nat \<Rightarrow> dnlc \<Rightarrow> dnlc" where
  "RM_LRU n s = s\<lparr>nc_lru := remove1 n (nc_lru s)\<rparr>"

definition INS_HASH :: "nat \<Rightarrow> nat \<Rightarrow> dnlc \<Rightarrow> dnlc" where
  "INS_HASH n h s = s\<lparr>nc_hash := (nc_hash s)[h := n # nc_hash s ! h]\<rparr>"

definition RM_HASH :: "nat \<Rightarrow> dnlc \<Rightarrow> dnlc" where
  "RM_HASH n s = s\<lparr>nc_hash := map (remove1 n) (nc_hash s)\<rparr>"

definition put_nc :: "nat \<Rightarrow> ncache \<Rightarrow> dnlc \<Rightarrow> dnlc" where
  "put_nc n e s = s\<lparr>ncache_tab := (ncache_tab s)[n := e]\<rparr>"

definition count_stat :: "(ncstats \<Rightarrow> ncstats) \<Rightarrow> dnlc \<Rightarrow> dnlc" where
  "count_stat f s = s\<lparr>nc_stats := f (nc_stats s)\<rparr>"

section \<open>Operations\<close>

text \<open>The table starts zeroed.\<close>

definition dnlc_init :: "dnlc \<Rightarrow> dnlc" where
  "dnlc_init s =
     (let n = length (ncache_tab s)
      in s\<lparr>nc_lru := rev [0..<n], nc_hash := replicate NC_HASH_SIZE [],
           ncache_tab := map (\<lambda>e. e\<lparr>nc_dp := 0, nc_vp := 0\<rparr>) (ncache_tab s)\<rparr>)"

definition nc_match :: "ncache \<Rightarrow> int \<Rightarrow> int list \<Rightarrow> nat \<Rightarrow> int \<Rightarrow> bool" where
  "nc_match e dp nm namlen cred \<longleftrightarrow>
     nc_dp e = dp \<and> nc_namlen e = namlen \<and> (cred = ANYCRED \<or> nc_cred e = cred) \<and>
     nc_name e ! 0 = nm ! 0 \<and> take namlen (nc_name e) = take namlen nm"

fun search_chain :: "ncache list \<Rightarrow> nat list \<Rightarrow> int \<Rightarrow> int list \<Rightarrow> nat \<Rightarrow> int \<Rightarrow> nat option" where
  "search_chain tab [] dp nm namlen cred = None"
| "search_chain tab (n # ns) dp nm namlen cred =
     (if nc_match (tab ! n) dp nm namlen cred then Some n
      else search_chain tab ns dp nm namlen cred)"

definition dnlc_search :: "int \<Rightarrow> int list \<Rightarrow> nat \<Rightarrow> nat \<Rightarrow> int \<Rightarrow> dnlc \<Rightarrow> nat option" where
  "dnlc_search dp nm namlen hash cred s =
     search_chain (ncache_tab s) (nc_hash s ! hash) dp nm namlen cred"

text \<open>The part of \<open>dnlc_enter\<close> from the choice of the least recently used entry on.\<close>

definition rele_old :: "int \<Rightarrow> dnlc \<Rightarrow> dnlc outcome" where
  "rele_old vp s = (if vp \<noteq> 0 then vn_rele vp s else Ok s)"

definition enter_at :: "nat \<Rightarrow> int \<Rightarrow> int list \<Rightarrow> nat \<Rightarrow> nat \<Rightarrow> int \<Rightarrow> int \<Rightarrow> dnlc \<Rightarrow> dnlc outcome" where
  "enter_at n dp nm namlen hash vp cred s =
     obind (aget (ncache_tab s) n) (\<lambda>e. let s1 = RM_HASH n (RM_LRU n s) in
      obind (rele_old (nc_dp e) s1) (\<lambda>s2.
      obind (rele_old (nc_vp e) s2) (\<lambda>s3.
      obind (VN_HOLD dp s3) (\<lambda>s4.
      obind (VN_HOLD vp s4) (\<lambda>s5.
        let s6 = put_nc n (e\<lparr>nc_dp := dp, nc_vp := vp, nc_namlen := namlen,
                             nc_name := take namlen nm @ drop namlen (nc_name e), nc_cred := cred\<rparr>) s5;
            s7 = (if cred \<noteq> 0 then crhold cred s6 else s6)
        in Ok (count_stat (\<lambda>t. t\<lparr>enters := int32 (enters t + 1)\<rparr>)
                 (INS_HASH n hash (INS_LRU_last n s7))))))))"

definition dnlc_enter :: "int \<Rightarrow> int list \<Rightarrow> int \<Rightarrow> int \<Rightarrow> dnlc \<Rightarrow> dnlc outcome" where
  "dnlc_enter dp nm vp cred s =
     (if \<not> doingcache s then Ok s
      else
        (let namlen = length nm in
         if NC_NAMLEN < namlen then Ok (count_stat (\<lambda>t. t\<lparr>long_enter := int32 (long_enter t + 1)\<rparr>) s)
         else obind (NC_HASH nm namlen dp) (\<lambda>hash.
           case dnlc_search dp nm namlen hash cred s of
             Some n \<Rightarrow> Ok (count_stat (\<lambda>t. t\<lparr>dbl_enters := int32 (dbl_enters t + 1)\<rparr>) s)
           | None \<Rightarrow>
               (case nc_lru s of
                  [] \<Rightarrow> Ok (count_stat (\<lambda>t. t\<lparr>lru_empty := int32 (lru_empty t + 1)\<rparr>) s)
                | n # _ \<Rightarrow> enter_at n dp nm namlen hash vp cred s))))"

text \<open>An entry that is not at the head of its chain changes places with the one before it.\<close>

fun move_forward :: "nat \<Rightarrow> nat list \<Rightarrow> nat list" where
  "move_forward n (a # b # l) = (if b = n then b # a # l else a # move_forward n (b # l))"
| "move_forward n l = l"

definition dnlc_lookup :: "int \<Rightarrow> int list \<Rightarrow> int \<Rightarrow> dnlc \<Rightarrow> (dnlc \<times> int) outcome" where
  "dnlc_lookup dp nm cred s =
     (if \<not> doingcache s then Ok (s, 0)
      else
        (let namlen = length nm in
         if NC_NAMLEN < namlen then Ok (count_stat (\<lambda>t. t\<lparr>long_look := int32 (long_look t + 1)\<rparr>) s, 0)
         else obind (NC_HASH nm namlen dp) (\<lambda>hash.
           case dnlc_search dp nm namlen hash cred s of
             None \<Rightarrow> Ok (count_stat (\<lambda>t. t\<lparr>misses := int32 (misses t + 1)\<rparr>) s, 0)
           | Some n \<Rightarrow>
               (let s1 = INS_LRU_last n (RM_LRU n (count_stat (\<lambda>t. t\<lparr>hits := int32 (hits t + 1)\<rparr>) s));
                    s2 = (if hd (nc_hash s1 ! hash) \<noteq> n
                          then s1\<lparr>nc_hash := (nc_hash s1)[hash := move_forward n (nc_hash s1 ! hash)]\<rparr>
                          else s1)
                in Ok (s2, nc_vp (ncache_tab s2 ! n))))))"

definition dnlc_rm :: "nat \<Rightarrow> dnlc \<Rightarrow> dnlc outcome" where
  "dnlc_rm n s =
     obind (aget (ncache_tab s) n) (\<lambda>e. let s1 = RM_HASH n (RM_LRU n s) in
      obind (vn_rele (nc_dp e) s1) (\<lambda>s2.
      obind (vn_rele (nc_vp e) s2) (\<lambda>s3.
        let s4 = put_nc n (e\<lparr>nc_dp := 0, nc_vp := 0, nc_cred := NOCRED\<rparr>) s3;
            s5 = (if nc_cred e \<noteq> NOCRED then crfree (nc_cred e) s4 else s4)
        in Ok (INS_LRU n s5))))"

text \<open>Loops that remove entries until a search finds none: each round frees an entry.\<close>

definition in_use :: "dnlc \<Rightarrow> nat" where
  "in_use s = length (filter (\<lambda>e. nc_dp e \<noteq> 0) (ncache_tab s))"


lemma vn_rele_tab [simp]: "vn_rele v s = Ok s' \<Longrightarrow> ncache_tab s' = ncache_tab s"
  by (auto simp: vn_rele_def Let_def split: if_splits)

lemma vn_rele_nonzero: "vn_rele v s = Ok s' \<Longrightarrow> v \<noteq> 0"
  by (auto simp: vn_rele_def)

lemma crfree_tab [simp]: "ncache_tab (crfree c s) = ncache_tab s"
  by (simp add: crfree_def Let_def)

lemma list_ops_tab [simp]:
  "ncache_tab (INS_LRU n s) = ncache_tab s" "ncache_tab (RM_LRU n s) = ncache_tab s"
  "ncache_tab (INS_LRU_last n s) = ncache_tab s" "ncache_tab (INS_HASH n h s) = ncache_tab s"
  "ncache_tab (RM_HASH n s) = ncache_tab s" "ncache_tab (count_stat f s) = ncache_tab s"
  "ncache_tab (put_nc n e s) = (ncache_tab s)[n := e]" "ncache_tab (crhold c s) = ncache_tab s"
  by (simp_all add: INS_LRU_def RM_LRU_def INS_LRU_last_def INS_HASH_def RM_HASH_def count_stat_def
      put_nc_def crhold_def)

lemma dnlc_rm_tab:
  assumes "dnlc_rm n s = Ok s'"
  shows "n < length (ncache_tab s)" "nc_dp (ncache_tab s ! n) \<noteq> 0" "nc_vp (ncache_tab s ! n) \<noteq> 0"
    "ncache_tab s' = (ncache_tab s)[n := (ncache_tab s ! n)\<lparr>nc_dp := 0, nc_vp := 0, nc_cred := NOCRED\<rparr>]"
proof -
  let ?e = "ncache_tab s ! n"
  obtain s2 s3 where r: "n < length (ncache_tab s)" "vn_rele (nc_dp ?e) (RM_HASH n (RM_LRU n s)) = Ok s2"
    "vn_rele (nc_vp ?e) s2 = Ok s3"
    "s' = INS_LRU n (if nc_cred ?e \<noteq> NOCRED
        then crfree (nc_cred ?e) (put_nc n (?e\<lparr>nc_dp := 0, nc_vp := 0, nc_cred := NOCRED\<rparr>) s3)
        else put_nc n (?e\<lparr>nc_dp := 0, nc_vp := 0, nc_cred := NOCRED\<rparr>) s3)"
    using assms by (auto simp: dnlc_rm_def Let_def aget_eq_Ok)
  show "n < length (ncache_tab s)" "nc_dp ?e \<noteq> 0" "nc_vp ?e \<noteq> 0" using r(1) vn_rele_nonzero r(2,3) by blast+
  show "ncache_tab s' = (ncache_tab s)[n := ?e\<lparr>nc_dp := 0, nc_vp := 0, nc_cred := NOCRED\<rparr>]"
    using vn_rele_tab[OF r(2)] vn_rele_tab[OF r(3)] unfolding r(4) by simp
qed

lemma filter_update_length:
  "n < length xs \<Longrightarrow> P (xs ! n) \<Longrightarrow> \<not> P y \<Longrightarrow> length (filter P (xs[n := y])) < length (filter P xs)"
proof (induction xs arbitrary: n)
  case (Cons x xs)
  then show ?case by (cases n) auto
qed simp

lemma dnlc_rm_in_use: "dnlc_rm n s = Ok s' \<Longrightarrow> in_use s' < in_use s"
  using dnlc_rm_tab[of n s s'] by (simp add: in_use_def filter_update_length)

function dnlc_remove_loop :: "int \<Rightarrow> int list \<Rightarrow> nat \<Rightarrow> nat \<Rightarrow> dnlc \<Rightarrow> dnlc outcome" where
  "dnlc_remove_loop dp nm namlen hash s =
     (case dnlc_search dp nm namlen hash ANYCRED s of
        None \<Rightarrow> Ok s
      | Some n \<Rightarrow> obind (dnlc_rm n s) (dnlc_remove_loop dp nm namlen hash))"
  by pat_completeness auto
termination
  by (relation "measure (\<lambda>(dp, nm, namlen, hash, s). in_use s)") (auto dest: dnlc_rm_in_use)

definition dnlc_remove :: "int \<Rightarrow> int list \<Rightarrow> dnlc \<Rightarrow> dnlc outcome" where
  "dnlc_remove dp nm s =
     (let namlen = length nm in
      if NC_NAMLEN < namlen then Ok s
      else obind (NC_HASH nm namlen dp) (\<lambda>hash. dnlc_remove_loop dp nm namlen hash s))"

fun first_chained :: "nat list list \<Rightarrow> nat option" where
  "first_chained [] = None"
| "first_chained (c # cs) = (case c of [] \<Rightarrow> first_chained cs | n # _ \<Rightarrow> Some n)"

function dnlc_purge_loop :: "dnlc \<Rightarrow> dnlc outcome" where
  "dnlc_purge_loop s = (case first_chained (nc_hash s) of
        None \<Rightarrow> Ok s
      | Some n \<Rightarrow>
          (if nc_dp (ncache_tab s ! n) = 0 \<or> nc_vp (ncache_tab s ! n) = 0 then Panic ''dnlc_purge: zero vp''
           else obind (dnlc_rm n s) dnlc_purge_loop))"
  by pat_completeness auto
termination
  by (relation "measure in_use") (auto dest: dnlc_rm_in_use)

definition dnlc_purge :: "dnlc \<Rightarrow> dnlc outcome" where
  "dnlc_purge s = dnlc_purge_loop (count_stat (\<lambda>t. t\<lparr>purges := int32 (purges t + 1)\<rparr>) s)"

function dnlc_purge_vp :: "int \<Rightarrow> dnlc \<Rightarrow> dnlc outcome" where
  "dnlc_purge_vp vp s =
     (case find (\<lambda>n. nc_dp (ncache_tab s ! n) = vp \<or> nc_vp (ncache_tab s ! n) = vp) (nc_lru s) of
        None \<Rightarrow> Ok s
      | Some n \<Rightarrow> obind (dnlc_rm n s) (dnlc_purge_vp vp))"
  by pat_completeness auto
termination
  by (relation "measure (\<lambda>(vp, s). in_use s)") (auto dest: dnlc_rm_in_use)

definition dnlc_purge1 :: "dnlc \<Rightarrow> (dnlc \<times> bool) outcome" where
  "dnlc_purge1 s =
     (case find (\<lambda>n. nc_dp (ncache_tab s ! n) \<noteq> 0) (nc_lru s) of
        None \<Rightarrow> Ok (s, False)
      | Some n \<Rightarrow> obind (dnlc_rm n s) (\<lambda>s'. Ok (s', True)))"

declare dnlc_remove_loop.simps [simp del] dnlc_purge_loop.simps [simp del] dnlc_purge_vp.simps [simp del]

section \<open>The invariant\<close>

definition ent_hash :: "ncache \<Rightarrow> nat" where
  "ent_hash e = nat ((nc_name e ! 0 + nc_name e ! (nc_namlen e - 1) + int (nc_namlen e) + nc_dp e) mod 8)"

definition ent_key :: "ncache \<Rightarrow> int \<times> int list \<times> int" where
  "ent_key e = (nc_dp e, take (nc_namlen e) (nc_name e), nc_cred e)"

definition ent_ok :: "ncache \<Rightarrow> bool" where
  "ent_ok e \<longleftrightarrow> length (nc_name e) = NC_NAMLEN \<and>
     (if nc_dp e = 0 then nc_vp e = 0 \<and> nc_cred e = NOCRED
      else nc_vp e \<noteq> 0 \<and> 0 < nc_namlen e \<and> nc_namlen e \<le> NC_NAMLEN)"

text \<open>The references the cache holds on a vnode.\<close>

definition ent_holds :: "int \<Rightarrow> ncache \<Rightarrow> int" where
  "ent_holds v e = (if nc_dp e = v then 1 else 0) + (if nc_vp e = v then 1 else 0)"

definition holds :: "dnlc \<Rightarrow> int \<Rightarrow> int" where
  "holds s v = sum_list (map (ent_holds v) (ncache_tab s))"

definition chains_ok :: "ncache list \<Rightarrow> nat list list \<Rightarrow> bool" where
  "chains_ok tab hs \<longleftrightarrow> length hs = NC_HASH_SIZE \<and>
     (\<forall>h<NC_HASH_SIZE. distinct (hs ! h) \<and>
        set (hs ! h) = {n. n < length tab \<and> nc_dp (tab ! n) \<noteq> 0 \<and> ent_hash (tab ! n) = h})"

definition keys_ok :: "ncache list \<Rightarrow> bool" where
  "keys_ok tab \<longleftrightarrow> (\<forall>m<length tab. \<forall>n<length tab. nc_dp (tab ! m) \<noteq> 0 \<longrightarrow>
     ent_key (tab ! m) = ent_key (tab ! n) \<longrightarrow> m = n)"

definition lru_ok :: "dnlc \<Rightarrow> bool" where
  "lru_ok s \<longleftrightarrow> distinct (nc_lru s) \<and> set (nc_lru s) = {..<length (ncache_tab s)}"

definition refs_ok :: "(int \<Rightarrow> int) \<Rightarrow> dnlc \<Rightarrow> bool" where
  "refs_ok base s \<longleftrightarrow> (\<forall>v. v \<noteq> 0 \<longrightarrow> v_count s v = base v + holds s v)"

text \<open>\<open>base\<close> counts the references that others hold; counts do not overflow 16 bits.\<close>

definition base_ok :: "(int \<Rightarrow> int) \<Rightarrow> nat \<Rightarrow> bool" where
  "base_ok base n \<longleftrightarrow> (\<forall>v. 0 \<le> base v \<and> base v + 2 * int n \<le> 65535)"

definition dn_inv :: "(int \<Rightarrow> int) \<Rightarrow> dnlc \<Rightarrow> bool" where
  "dn_inv base s \<longleftrightarrow> lru_ok s \<and> chains_ok (ncache_tab s) (nc_hash s) \<and> keys_ok (ncache_tab s) \<and>
     (\<forall>e\<in>set (ncache_tab s). ent_ok e) \<and> refs_ok base s \<and> base_ok base (length (ncache_tab s))"

text \<open>What the cache knows: directory, name, credentials and vnode.\<close>

definition known :: "dnlc \<Rightarrow> (int \<times> int list \<times> int \<times> int) set" where
  "known s = {(nc_dp e, take (nc_namlen e) (nc_name e), nc_cred e, nc_vp e) | e.
     e \<in> set (ncache_tab s) \<and> nc_dp e \<noteq> 0}"

section \<open>Proofs\<close>

lemma sum_list_map_update:
  fixes f :: "'a \<Rightarrow> int"
  shows "n < length xs \<Longrightarrow> sum_list (map f (xs[n := y])) = sum_list (map f xs) - f (xs ! n) + f y"
proof (induction xs arbitrary: n)
  case (Cons x xs)
  then show ?case by (cases n) auto
qed simp

lemma holds_put: "n < length (ncache_tab s) \<Longrightarrow> ncache_tab s' = (ncache_tab s)[n := e] \<Longrightarrow>
    holds s' v = holds s v - ent_holds v (ncache_tab s ! n) + ent_holds v e"
  by (simp add: holds_def sum_list_map_update)

lemma ent_holds_bounds: "0 \<le> ent_holds v e" "ent_holds v e \<le> 2"
  by (simp_all add: ent_holds_def)

lemma holds_bounds: "0 \<le> holds s v" "holds s v \<le> 2 * int (length (ncache_tab s))"
proof -
  have "0 \<le> sum_list (map (ent_holds v) xs) \<and> sum_list (map (ent_holds v) xs) \<le> 2 * int (length xs)" for xs
  proof (induction xs)
    case (Cons x xs)
    then show ?case using ent_holds_bounds[of v x] by simp
  qed simp
  then show "0 \<le> holds s v" "holds s v \<le> 2 * int (length (ncache_tab s))" by (simp_all add: holds_def)
qed

lemma holds_ge: "n < length (ncache_tab s) \<Longrightarrow> ent_holds v (ncache_tab s ! n) \<le> holds s v"
proof -
  assume n: "n < length (ncache_tab s)"
  let ?z = "(ncache_tab s ! n)\<lparr>nc_dp := v + 1, nc_vp := v + 1\<rparr>"
  have "holds (put_nc n ?z s) v = holds s v - ent_holds v (ncache_tab s ! n) + ent_holds v ?z"
    by (rule holds_put[OF n]) simp
  moreover have "ent_holds v ?z = 0" by (simp add: ent_holds_def)
  ultimately show ?thesis using holds_bounds(1)[of "put_nc n ?z s" v] by simp
qed

lemma set_update: "distinct xs \<Longrightarrow> n < length xs \<Longrightarrow> set (xs[n := y]) = insert y (set xs - {xs ! n})"
  by (rule set_update_distinct)

text \<open>What a search finds.\<close>

lemma search_chain_Some:
  "search_chain tab ns dp nm l c = Some n \<Longrightarrow> n \<in> set ns \<and> nc_match (tab ! n) dp nm l c"
  by (induction ns) (auto split: if_splits)

lemma search_chain_None:
  "search_chain tab ns dp nm l c = None \<longleftrightarrow> (\<forall>n\<in>set ns. \<not> nc_match (tab ! n) dp nm l c)"
  by (induction ns) auto

lemma take_nth_eq: "take l xs = take l ys \<Longrightarrow> i < l \<Longrightarrow> xs ! i = ys ! i"
  by (metis nth_take)

lemma nc_match_iff:
  assumes "nm \<noteq> []" and "dp \<noteq> 0"
  shows "nc_match e dp nm (length nm) c \<longleftrightarrow>
    nc_dp e = dp \<and> nc_namlen e = length nm \<and> take (nc_namlen e) (nc_name e) = nm \<and> (c = ANYCRED \<or> nc_cred e = c)"
  using assms take_nth_eq[of "length nm" "nc_name e" nm 0] by (auto simp: nc_match_def)

lemma NC_HASH_Ok: "nm \<noteq> [] \<Longrightarrow>
    NC_HASH nm (length nm) dp = Ok (nat ((nm ! 0 + nm ! (length nm - 1) + int (length nm) + dp) mod 8)) \<and>
    nat ((nm ! 0 + nm ! (length nm - 1) + int (length nm) + dp) mod 8) < 8"
  by (simp add: NC_HASH_def NC_HASH_SIZE_def nat_less_iff)

lemma ent_hash_name:
  assumes "take (nc_namlen e) (nc_name e) = nm" and "nc_namlen e = length nm" and "nm \<noteq> []"
  shows "ent_hash e = nat ((nm ! 0 + nm ! (length nm - 1) + int (length nm) + nc_dp e) mod 8)"
proof -
  have "take (length nm) (nc_name e) = take (length nm) nm" using assms by simp
  then have "nc_name e ! 0 = nm ! 0" "nc_name e ! (length nm - 1) = nm ! (length nm - 1)"
    using take_nth_eq[of "length nm" "nc_name e" nm] assms(3) by auto
  then show ?thesis using assms(2) by (simp add: ent_hash_def)
qed

text \<open>The search in the chain of a name finds an entry if there is one.\<close>

lemma dnlc_search_Some:
  assumes "chains_ok (ncache_tab s) (nc_hash s)" and "h < 8"
    and "dnlc_search dp nm (length nm) h c s = Some n"
  shows "n < length (ncache_tab s)" "n \<in> set (nc_hash s ! h)" "nc_dp (ncache_tab s ! n) \<noteq> 0"
    "nc_match (ncache_tab s ! n) dp nm (length nm) c"
proof -
  have "n \<in> set (nc_hash s ! h) \<and> nc_match (ncache_tab s ! n) dp nm (length nm) c"
    using search_chain_Some assms(3) by (simp add: dnlc_search_def)
  then show "n < length (ncache_tab s)" "n \<in> set (nc_hash s ! h)" "nc_dp (ncache_tab s ! n) \<noteq> 0"
    "nc_match (ncache_tab s ! n) dp nm (length nm) c"
    using assms(1,2) by (auto simp: chains_ok_def NC_HASH_SIZE_def)
qed

lemma dnlc_search_None:
  assumes c: "chains_ok (ncache_tab s) (nc_hash s)" and nm: "nm \<noteq> []" and dp: "dp \<noteq> 0"
    and h: "NC_HASH nm (length nm) dp = Ok h" and r: "dnlc_search dp nm (length nm) h cr s = None"
    and n: "n < length (ncache_tab s)"
  shows "\<not> nc_match (ncache_tab s ! n) dp nm (length nm) cr"
proof
  assume m: "nc_match (ncache_tab s ! n) dp nm (length nm) cr"
  then have e: "nc_dp (ncache_tab s ! n) = dp" "nc_namlen (ncache_tab s ! n) = length nm"
    "take (nc_namlen (ncache_tab s ! n)) (nc_name (ncache_tab s ! n)) = nm"
    unfolding nc_match_iff[OF nm dp] by blast+
  have "ent_hash (ncache_tab s ! n) = h" "h < 8"
    using ent_hash_name[OF e(3,2) nm] NC_HASH_Ok[OF nm, of dp] h e(1) by auto
  then have "n \<in> set (nc_hash s ! h)" using c n e(1) dp by (auto simp: chains_ok_def NC_HASH_SIZE_def)
  then show False using r m by (simp add: dnlc_search_def search_chain_None)
qed

subsection \<open>One entry\<close>

definition ent_known :: "ncache \<Rightarrow> int \<times> int list \<times> int \<times> int" where
  "ent_known e = (nc_dp e, take (nc_namlen e) (nc_name e), nc_cred e, nc_vp e)"

lemma known_iff: "x \<in> known s \<longleftrightarrow> (\<exists>n<length (ncache_tab s). nc_dp (ncache_tab s ! n) \<noteq> 0 \<and> x = ent_known (ncache_tab s ! n))"
  by (auto simp: known_def ent_known_def in_set_conv_nth)

lemma known_put:
  assumes k: "keys_ok (ncache_tab s)" and n: "n < length (ncache_tab s)"
    and t: "ncache_tab s' = (ncache_tab s)[n := e]"
  shows "known s' = (if nc_dp e = 0 then {} else {ent_known e}) \<union>
    (known s - (if nc_dp (ncache_tab s ! n) = 0 then {} else {ent_known (ncache_tab s ! n)}))"
proof -
  have other: "ent_known (ncache_tab s ! m) \<noteq> ent_known (ncache_tab s ! n)"
    if "m < length (ncache_tab s)" "nc_dp (ncache_tab s ! m) \<noteq> 0" "m \<noteq> n" for m
  proof
    assume "ent_known (ncache_tab s ! m) = ent_known (ncache_tab s ! n)"
    then have "ent_key (ncache_tab s ! m) = ent_key (ncache_tab s ! n)" by (simp add: ent_key_def ent_known_def)
    then show False using k n that by (simp add: keys_ok_def)
  qed
  have dp: "ent_known x = ent_known y \<Longrightarrow> nc_dp x = nc_dp y" for x y by (simp add: ent_known_def)
  show ?thesis
  proof (intro set_eqI)
    fix x
    have "x \<in> known s' \<longleftrightarrow> (nc_dp e \<noteq> 0 \<and> x = ent_known e) \<or>
        (\<exists>m<length (ncache_tab s). m \<noteq> n \<and> nc_dp (ncache_tab s ! m) \<noteq> 0 \<and> x = ent_known (ncache_tab s ! m))"
      unfolding known_iff t using n by (auto simp: nth_list_update split: if_splits)
    also have "(\<exists>m<length (ncache_tab s). m \<noteq> n \<and> nc_dp (ncache_tab s ! m) \<noteq> 0 \<and> x = ent_known (ncache_tab s ! m)) \<longleftrightarrow>
        x \<in> known s \<and> (nc_dp (ncache_tab s ! n) = 0 \<or> x \<noteq> ent_known (ncache_tab s ! n))"
      unfolding known_iff using other dp n by metis
    finally show "x \<in> known s' \<longleftrightarrow> x \<in> (if nc_dp e = 0 then {} else {ent_known e}) \<union>
      (known s - (if nc_dp (ncache_tab s ! n) = 0 then {} else {ent_known (ncache_tab s ! n)}))"
      by auto
  qed
qed

lemma chains_rm:
  assumes c: "chains_ok tab hs" and e: "nc_dp e = 0" and n: "n < length tab"
  shows "chains_ok (tab[n := e]) (map (remove1 n) hs)"
proof -
  have "distinct (remove1 n (hs ! h)) \<and> set (remove1 n (hs ! h)) =
      {m. m < length tab \<and> nc_dp (tab[n := e] ! m) \<noteq> 0 \<and> ent_hash (tab[n := e] ! m) = h}"
    if h: "h < NC_HASH_SIZE" for h
  proof -
    have d: "distinct (hs ! h)" "set (hs ! h) = {m. m < length tab \<and> nc_dp (tab ! m) \<noteq> 0 \<and> ent_hash (tab ! m) = h}"
      using c h by (simp_all add: chains_ok_def)
    have "set (remove1 n (hs ! h)) = set (hs ! h) - {n}" using d(1) by (rule set_remove1_eq)
    then show ?thesis using d e n by (auto simp: nth_list_update)
  qed
  then show ?thesis using c by (simp add: chains_ok_def)
qed

lemma chains_ins:
  assumes c: "chains_ok tab hs" and e: "nc_dp e \<noteq> 0" "ent_hash e = h" "h < NC_HASH_SIZE"
    and n: "n < length tab" "nc_dp (tab ! n) = 0"
  shows "chains_ok (tab[n := e]) (hs[h := n # hs ! h])"
proof -
  have len: "length hs = NC_HASH_SIZE" using c by (simp add: chains_ok_def)
  have "distinct (hs[h := n # hs ! h] ! k) \<and> set (hs[h := n # hs ! h] ! k) =
      {m. m < length tab \<and> nc_dp (tab[n := e] ! m) \<noteq> 0 \<and> ent_hash (tab[n := e] ! m) = k}"
    if k: "k < NC_HASH_SIZE" for k
  proof -
    have d: "distinct (hs ! k)" "set (hs ! k) = {m. m < length tab \<and> nc_dp (tab ! m) \<noteq> 0 \<and> ent_hash (tab ! m) = k}"
      using c k by (simp_all add: chains_ok_def)
    have "n \<notin> set (hs ! k)" using d(2) n by simp
    then show ?thesis using d e n len k by (cases "k = h") (auto simp: nth_list_update)
  qed
  then show ?thesis using len by (simp add: chains_ok_def)
qed

lemma keys_rm: "keys_ok tab \<Longrightarrow> nc_dp e = 0 \<Longrightarrow> n < length tab \<Longrightarrow> keys_ok (tab[n := e])"
  by (fastforce simp: keys_ok_def nth_list_update ent_key_def split: if_splits)

lemma keys_ins:
  assumes k: "keys_ok tab" and n: "n < length tab"
    and new: "\<And>m. m < length tab \<Longrightarrow> m \<noteq> n \<Longrightarrow> nc_dp (tab ! m) \<noteq> 0 \<Longrightarrow> ent_key (tab ! m) \<noteq> ent_key e"
    and e: "nc_dp e \<noteq> 0"
  shows "keys_ok (tab[n := e])"
proof -
  have "i = j" if "i < length tab" "j < length tab" "nc_dp (tab[n := e] ! i) \<noteq> 0"
    "ent_key (tab[n := e] ! i) = ent_key (tab[n := e] ! j)" for i j
  proof -
    have dpj: "nc_dp (tab[n := e] ! j) \<noteq> 0" using that(3,4) by (simp add: ent_key_def)
    consider "i = n" "j = n" | "i = n" "j \<noteq> n" | "i \<noteq> n" "j = n" | "i \<noteq> n" "j \<noteq> n" by blast
    then show ?thesis
    proof cases
      case 2
      then show ?thesis using new[of j] that dpj n by (simp add: nth_list_update)
    next
      case 3
      then show ?thesis using new[of i] that n by (simp add: nth_list_update)
    next
      case 4
      then show ?thesis using k that by (simp add: keys_ok_def)
    qed simp
  qed
  then show ?thesis by (simp add: keys_ok_def)
qed

subsection \<open>References\<close>

definition same_lists :: "dnlc \<Rightarrow> dnlc \<Rightarrow> bool" where
  "same_lists s s' \<longleftrightarrow> ncache_tab s' = ncache_tab s \<and> nc_lru s' = nc_lru s \<and> nc_hash s' = nc_hash s \<and>
     doingcache s' = doingcache s"

lemma vn_rele_Ok:
  assumes "v \<noteq> 0" and "0 < v_count s v" and "v_count s v \<le> 65535"
  shows "\<exists>s'. vn_rele v s = Ok s' \<and> v_count s' = (v_count s)(v := v_count s v - 1) \<and> same_lists s s'"
proof -
  have u: "uint16 (v_count s v - 1) = v_count s v - 1" using assms by (intro uint16_id) simp_all
  let ?s = "s\<lparr>v_count := (v_count s)(v := v_count s v - 1)\<rparr>"
  have "vn_rele v s = Ok (if v_count s v - 1 = 0 then ?s\<lparr>inactive := v # inactive ?s\<rparr> else ?s)"
    using assms(1,2) unfolding vn_rele_def u Let_def by simp
  then show ?thesis by (simp add: same_lists_def)
qed

lemma VN_HOLD_Ok:
  assumes "v \<noteq> 0" and "0 \<le> v_count s v" and "v_count s v < 65535"
  shows "\<exists>s'. VN_HOLD v s = Ok s' \<and> v_count s' = (v_count s)(v := v_count s v + 1) \<and> same_lists s s'"
  using assms by (auto simp: VN_HOLD_def same_lists_def)

lemma crfree_same [simp]: "same_lists s (crfree c s)" "v_count (crfree c s) = v_count s"
  by (simp_all add: crfree_def Let_def same_lists_def)

lemma crhold_same [simp]: "same_lists s (crhold c s)" "v_count (crhold c s) = v_count s"
  by (simp_all add: crhold_def same_lists_def)

lemma v_count_ops [simp]:
  "v_count (INS_LRU n s) = v_count s" "v_count (RM_LRU n s) = v_count s"
  "v_count (INS_LRU_last n s) = v_count s" "v_count (INS_HASH n h s) = v_count s"
  "v_count (RM_HASH n s) = v_count s" "v_count (count_stat f s) = v_count s" "v_count (put_nc n e s) = v_count s"
  by (simp_all add: INS_LRU_def RM_LRU_def INS_LRU_last_def INS_HASH_def RM_HASH_def count_stat_def put_nc_def)

lemma count_stat_same [simp]: "same_lists s (count_stat f s)"
  by (simp add: count_stat_def same_lists_def)

lemma refs_ok_range:
  "refs_ok base s \<Longrightarrow> base_ok base (length (ncache_tab s)) \<Longrightarrow> v \<noteq> 0 \<Longrightarrow>
     v_count s v = base v + holds s v \<and> 0 \<le> base v \<and> base v + 2 * int (length (ncache_tab s)) \<le> 65535"
  by (simp add: refs_ok_def base_ok_def)

text \<open>Both references of an entry are released, whether to one vnode or to two.\<close>

lemma release_both:
  assumes "dp \<noteq> 0" "vp \<noteq> 0" and "\<And>v. v \<noteq> 0 \<Longrightarrow> (if dp = v then 1 else 0) + (if vp = v then 1 else 0) \<le> v_count s v"
    and "\<And>v. v \<noteq> 0 \<Longrightarrow> v_count s v \<le> 65535"
  shows "\<exists>s2 s3. vn_rele dp s = Ok s2 \<and> vn_rele vp s2 = Ok s3 \<and> same_lists s s3 \<and>
    (\<forall>v. v_count s3 v = v_count s v - ((if dp = v then 1 else 0) + (if vp = v then 1 else 0)))"
proof -
  have d: "0 < v_count s dp" using assms(3)[OF assms(1)] by (auto split: if_splits)
  obtain s2 where s2: "vn_rele dp s = Ok s2" "v_count s2 = (v_count s)(dp := v_count s dp - 1)" "same_lists s s2"
    using vn_rele_Ok[OF assms(1) d assms(4)[OF assms(1)]] by blast
  have v: "0 < v_count s2 vp" "v_count s2 vp \<le> 65535"
    using assms(3)[OF assms(2)] assms(4)[OF assms(2)] unfolding s2(2) by (auto split: if_splits)
  obtain s3 where s3: "vn_rele vp s2 = Ok s3" "v_count s3 = (v_count s2)(vp := v_count s2 vp - 1)" "same_lists s2 s3"
    using vn_rele_Ok[OF assms(2) v] by blast
  have c: "\<forall>v. v_count s3 v = v_count s v - ((if dp = v then 1 else 0) + (if vp = v then 1 else 0))"
    unfolding s3(2) s2(2) by auto
  have "same_lists s s3" using s2(3) s3(3) by (simp add: same_lists_def)
  then show ?thesis using s2(1) s3(1) c by blast
qed

lemma hold_both:
  assumes "dp \<noteq> 0" "vp \<noteq> 0" and "\<And>v. v \<noteq> 0 \<Longrightarrow> 0 \<le> v_count s v"
    and "\<And>v. v \<noteq> 0 \<Longrightarrow> v_count s v + (if dp = v then 1 else 0) + (if vp = v then 1 else 0) \<le> 65535"
  shows "\<exists>s2 s3. VN_HOLD dp s = Ok s2 \<and> VN_HOLD vp s2 = Ok s3 \<and> same_lists s s3 \<and>
    (\<forall>v. v_count s3 v = v_count s v + ((if dp = v then 1 else 0) + (if vp = v then 1 else 0)))"
proof -
  have d: "0 \<le> v_count s dp" "v_count s dp < 65535"
    using assms(3)[OF assms(1)] assms(4)[OF assms(1)] by (auto split: if_splits)
  obtain s2 where s2: "VN_HOLD dp s = Ok s2" "v_count s2 = (v_count s)(dp := v_count s dp + 1)" "same_lists s s2"
    using VN_HOLD_Ok[OF assms(1) d] by blast
  have v: "0 \<le> v_count s2 vp" "v_count s2 vp < 65535"
    using assms(3)[OF assms(2)] assms(4)[OF assms(2)] unfolding s2(2) by (auto split: if_splits)
  obtain s3 where s3: "VN_HOLD vp s2 = Ok s3" "v_count s3 = (v_count s2)(vp := v_count s2 vp + 1)" "same_lists s2 s3"
    using VN_HOLD_Ok[OF assms(2) v] by blast
  have c: "\<forall>v. v_count s3 v = v_count s v + ((if dp = v then 1 else 0) + (if vp = v then 1 else 0))"
    unfolding s3(2) s2(2) by auto
  have "same_lists s s3" using s2(3) s3(3) by (simp add: same_lists_def)
  then show ?thesis using s2(1) s3(1) c by blast
qed

lemma ent_holds_if: "ent_holds v e = (if nc_dp e = v then 1 else 0) + (if nc_vp e = v then 1 else 0)"
  by (simp add: ent_holds_def)

subsection \<open>The operations\<close>

lemma lru_update: "lru_ok s \<Longrightarrow> n < length (ncache_tab s) \<Longrightarrow>
    distinct (n # remove1 n (nc_lru s)) \<and> set (n # remove1 n (nc_lru s)) = {..<length (ncache_tab s)} \<and>
    distinct (remove1 n (nc_lru s) @ [n]) \<and> set (remove1 n (nc_lru s) @ [n]) = {..<length (ncache_tab s)}"
  by (auto simp: lru_ok_def)

lemma ents_put: "\<forall>e\<in>set tab. ent_ok e \<Longrightarrow> ent_ok y \<Longrightarrow> \<forall>e\<in>set (tab[n := y]). ent_ok e"
  using set_update_subset_insert[of tab n y] by blast

lemma dnlc_rm_spec:
  assumes inv: "dn_inv base s" and n: "n < length (ncache_tab s)" and live: "nc_dp (ncache_tab s ! n) \<noteq> 0"
  shows "\<exists>s'. dnlc_rm n s = Ok s' \<and> dn_inv base s' \<and> known s' = known s - {ent_known (ncache_tab s ! n)} \<and>
    length (ncache_tab s') = length (ncache_tab s) \<and> doingcache s' = doingcache s"
proof -
  define e where "e = ncache_tab s ! n"
  define z where "z = e\<lparr>nc_dp := 0, nc_vp := 0, nc_cred := NOCRED\<rparr>"
  define s1 where "s1 = RM_HASH n (RM_LRU n s)"
  have I: "lru_ok s" "chains_ok (ncache_tab s) (nc_hash s)" "keys_ok (ncache_tab s)"
    "\<forall>e\<in>set (ncache_tab s). ent_ok e" "refs_ok base s" "base_ok base (length (ncache_tab s))"
    using inv by (simp_all add: dn_inv_def)
  have ok: "ent_ok e" using I(4) n by (simp add: e_def)
  have dv: "nc_dp e \<noteq> 0" "nc_vp e \<noteq> 0" using ok live by (simp_all add: ent_ok_def e_def)
  have ge: "ent_holds v e \<le> v_count s1 v \<and> v_count s1 v \<le> 65535" if "v \<noteq> 0" for v
    using refs_ok_range[OF I(5,6) that] holds_ge[OF n, of v] holds_bounds(2)[of s v] by (simp add: s1_def e_def)
  obtain s2 s3 where r: "vn_rele (nc_dp e) s1 = Ok s2" "vn_rele (nc_vp e) s2 = Ok s3" "same_lists s1 s3"
    "\<forall>v. v_count s3 v = v_count s1 v - ((if nc_dp e = v then 1 else 0) + (if nc_vp e = v then 1 else 0))"
    using release_both[OF dv, of s1] ge unfolding ent_holds_if by metis
  define s5 where "s5 = (if nc_cred e \<noteq> NOCRED then crfree (nc_cred e) (put_nc n z s3) else put_nc n z s3)"
  define s' where "s' = INS_LRU n s5"
  have run: "dnlc_rm n s = Ok s'"
    using n r(1,2) by (simp add: dnlc_rm_def e_def s1_def Let_def s'_def s5_def z_def)
  have s5: "ncache_tab s5 = (ncache_tab s)[n := z]" "nc_lru s5 = remove1 n (nc_lru s)"
    "nc_hash s5 = map (remove1 n) (nc_hash s)" "doingcache s5 = doingcache s" "v_count s5 = v_count s3"
    using r(3) by (simp_all add: s5_def same_lists_def s1_def crfree_def Let_def put_nc_def RM_HASH_def RM_LRU_def)
  have t: "ncache_tab s' = (ncache_tab s)[n := z]" "nc_lru s' = n # remove1 n (nc_lru s)"
    "nc_hash s' = map (remove1 n) (nc_hash s)" "doingcache s' = doingcache s" "v_count s' = v_count s3"
    using s5 by (simp_all add: s'_def INS_LRU_def)
  have z: "nc_dp z = 0" "ent_ok z" using ok by (simp_all add: z_def ent_ok_def)
  have "lru_ok s'" using lru_update[OF I(1) n] t by (simp add: lru_ok_def)
  moreover have "chains_ok (ncache_tab s') (nc_hash s')" unfolding t by (rule chains_rm[OF I(2) z(1) n])
  moreover have "keys_ok (ncache_tab s')" unfolding t by (rule keys_rm[OF I(3) z(1) n])
  moreover have "\<forall>e\<in>set (ncache_tab s'). ent_ok e" unfolding t by (rule ents_put[OF I(4) z(2)])
  moreover have "refs_ok base s'"
  proof -
    have "v_count s' v = base v + holds s' v" if v: "v \<noteq> 0" for v
    proof -
      have "holds s' v = holds s v - ent_holds v e + ent_holds v z" using holds_put[OF n t(1)] by (simp add: e_def)
      moreover have "ent_holds v z = 0" using v by (simp add: ent_holds_def z_def)
      ultimately show ?thesis using r(4) refs_ok_range[OF I(5,6) v] unfolding t(5) ent_holds_if by (simp add: s1_def)
    qed
    then show ?thesis by (simp add: refs_ok_def)
  qed
  ultimately have "dn_inv base s'" using I(6) t(1) by (simp add: dn_inv_def)
  moreover have "known s' = known s - {ent_known e}"
    using known_put[OF I(3) n t(1)] z(1) dv(1) by (simp add: e_def)
  ultimately show ?thesis using run t(1,4) by (auto simp: e_def)
qed

lemma rele_old_both:
  assumes inv: "dn_inv base s" and n: "n < length (ncache_tab s)" and s1: "v_count s1 = v_count s"
  shows "\<exists>s2 s3. rele_old (nc_dp (ncache_tab s ! n)) s1 = Ok s2 \<and> rele_old (nc_vp (ncache_tab s ! n)) s2 = Ok s3 \<and>
    same_lists s1 s3 \<and> (\<forall>v. v \<noteq> 0 \<longrightarrow> v_count s3 v = v_count s v - ent_holds v (ncache_tab s ! n))"
proof -
  define e where "e = ncache_tab s ! n"
  have I: "\<forall>e\<in>set (ncache_tab s). ent_ok e" "refs_ok base s" "base_ok base (length (ncache_tab s))"
    using inv by (simp_all add: dn_inv_def)
  have ok: "ent_ok e" using I(1) n by (simp add: e_def)
  show ?thesis
  proof (cases "nc_dp e = 0")
    case True
    then have "nc_vp e = 0" using ok by (simp add: ent_ok_def)
    then show ?thesis using True s1
      by (simp add: rele_old_def e_def[symmetric] same_lists_def ent_holds_def)
  next
    case False
    then have dv: "nc_dp e \<noteq> 0" "nc_vp e \<noteq> 0" using ok by (simp_all add: ent_ok_def)
    have ge: "ent_holds v e \<le> v_count s1 v \<and> v_count s1 v \<le> 65535" if "v \<noteq> 0" for v
      using refs_ok_range[OF I(2,3) that] holds_ge[OF n, of v] holds_bounds(2)[of s v] s1 by (simp add: e_def)
    obtain s2 s3 where r: "vn_rele (nc_dp e) s1 = Ok s2" "vn_rele (nc_vp e) s2 = Ok s3" "same_lists s1 s3"
      "\<forall>v. v_count s3 v = v_count s1 v - ((if nc_dp e = v then 1 else 0) + (if nc_vp e = v then 1 else 0))"
      using release_both[OF dv, of s1] ge unfolding ent_holds_if by metis
    have o: "rele_old (nc_dp e) s1 = Ok s2" "rele_old (nc_vp e) s2 = Ok s3" using dv r(1,2) by (simp_all add: rele_old_def)
    have "\<forall>v. v \<noteq> 0 \<longrightarrow> v_count s3 v = v_count s v - ent_holds v e" using r(4) s1 unfolding ent_holds_if by simp
    then show ?thesis using o r(3) unfolding e_def by blast
  qed
qed

lemma enter_at_spec:
  assumes inv: "dn_inv base s" and n: "n < length (ncache_tab s)" and nm: "nm \<noteq> []" "length nm \<le> NC_NAMLEN"
    and dv: "dp \<noteq> 0" "vp \<noteq> 0" and h: "NC_HASH nm (length nm) dp = Ok h"
    and new: "\<And>m. m < length (ncache_tab s) \<Longrightarrow> \<not> nc_match (ncache_tab s ! m) dp nm (length nm) cred"
  shows "\<exists>s'. enter_at n dp nm (length nm) h vp cred s = Ok s' \<and> dn_inv base s' \<and>
    known s' = insert (dp, nm, cred, vp)
      (known s - (if nc_dp (ncache_tab s ! n) = 0 then {} else {ent_known (ncache_tab s ! n)})) \<and>
    length (ncache_tab s') = length (ncache_tab s) \<and> doingcache s' = doingcache s"
proof -
  define e where "e = ncache_tab s ! n"
  define y where "y = e\<lparr>nc_dp := dp, nc_vp := vp, nc_namlen := length nm,
    nc_name := take (length nm) nm @ drop (length nm) (nc_name e), nc_cred := cred\<rparr>"
  define s1 where "s1 = RM_HASH n (RM_LRU n s)"
  have I: "lru_ok s" "chains_ok (ncache_tab s) (nc_hash s)" "keys_ok (ncache_tab s)"
    "\<forall>e\<in>set (ncache_tab s). ent_ok e" "refs_ok base s" "base_ok base (length (ncache_tab s))"
    using inv by (simp_all add: dn_inv_def)
  have s1: "v_count s1 = v_count s" by (simp add: s1_def)
  obtain s2 s3 where r: "rele_old (nc_dp e) s1 = Ok s2" "rele_old (nc_vp e) s2 = Ok s3" "same_lists s1 s3"
    "\<forall>v. v \<noteq> 0 \<longrightarrow> v_count s3 v = v_count s v - ent_holds v e"
    using rele_old_both[OF inv n s1] unfolding e_def by blast
  have rg: "0 \<le> v_count s3 v \<and> v_count s3 v + 2 \<le> 65535" if "v \<noteq> 0" for v
  proof -
    let ?z = "e\<lparr>nc_dp := v + 1, nc_vp := v + 1\<rparr>" and ?t = "\<lambda>z. put_nc n z s"
    let ?m = "e\<lparr>nc_dp := v, nc_vp := v\<rparr>"
    have "holds (?t ?m) v = holds s v - ent_holds v e + ent_holds v ?m"
      using holds_put[OF n, of "?t ?m"] by (simp add: e_def)
    moreover have "ent_holds v ?m = 2" by (simp add: ent_holds_def)
    ultimately have "holds s v - ent_holds v e + 2 \<le> 2 * int (length (ncache_tab s))"
      using holds_bounds(2)[of "?t ?m" v] by simp
    then show ?thesis using refs_ok_range[OF I(5,6) that] r(4) that holds_ge[OF n, of v]
      by (simp add: e_def)
  qed
  have up: "v_count s3 v + (if dp = v then 1 else 0) + (if vp = v then 1 else 0) \<le> 65535" if "v \<noteq> 0" for v
    using rg[OF that] by (auto split: if_splits)
  obtain s4 s5 where q: "VN_HOLD dp s3 = Ok s4" "VN_HOLD vp s4 = Ok s5" "same_lists s3 s5"
    "\<forall>v. v_count s5 v = v_count s3 v + ((if dp = v then 1 else 0) + (if vp = v then 1 else 0))"
    using hold_both[OF dv, of s3] rg up by metis
  define s7 where "s7 = (if cred \<noteq> 0 then crhold cred (put_nc n y s5) else put_nc n y s5)"
  define s' where "s' = count_stat (\<lambda>t. t\<lparr>enters := int32 (enters t + 1)\<rparr>) (INS_HASH n h (INS_LRU_last n s7))"
  have run: "enter_at n dp nm (length nm) h vp cred s = Ok s'"
    using n r(1,2) q(1,2) by (simp add: enter_at_def e_def s1_def Let_def s'_def s7_def y_def)
  have s7: "ncache_tab s7 = (ncache_tab s)[n := y]" "nc_lru s7 = remove1 n (nc_lru s)"
    "nc_hash s7 = map (remove1 n) (nc_hash s)" "doingcache s7 = doingcache s" "v_count s7 = v_count s5"
    using r(3) q(3) by (simp_all add: s7_def same_lists_def s1_def crhold_def put_nc_def RM_HASH_def RM_LRU_def)
  have t: "ncache_tab s' = (ncache_tab s)[n := y]" "nc_lru s' = remove1 n (nc_lru s) @ [n]"
    "nc_hash s' = (map (remove1 n) (nc_hash s))[h := n # map (remove1 n) (nc_hash s) ! h]"
    "doingcache s' = doingcache s" "v_count s' = v_count s5"
    using s7 by (simp_all add: s'_def INS_LRU_last_def INS_HASH_def count_stat_def)
  have ok: "ent_ok e" using I(4) n by (simp add: e_def)
  have nmlen: "length (nc_name e) = NC_NAMLEN" using ok by (simp add: ent_ok_def)
  have y: "nc_dp y = dp" "nc_vp y = vp" "nc_namlen y = length nm" "take (nc_namlen y) (nc_name y) = nm" "nc_cred y = cred"
    by (simp_all add: y_def)
  have yok: "ent_ok y" using dv nm nmlen by (simp add: ent_ok_def y_def)
  have H: "h < NC_HASH_SIZE" "ent_hash y = h"
    using NC_HASH_Ok[OF nm(1), of dp] h ent_hash_name[OF y(4,3) nm(1)] y(1) by (simp_all add: NC_HASH_SIZE_def)
  let ?d = "e\<lparr>nc_dp := 0\<rparr>"
  have dead: "nc_dp ?d = 0" by simp
  have "chains_ok ((ncache_tab s)[n := ?d]) (map (remove1 n) (nc_hash s))" by (rule chains_rm[OF I(2) dead n])
  then have "chains_ok ((ncache_tab s)[n := ?d, n := y])
      ((map (remove1 n) (nc_hash s))[h := n # map (remove1 n) (nc_hash s) ! h])"
    by (rule chains_ins) (use n y(1) dv(1) H in simp_all)
  then have "chains_ok (ncache_tab s') (nc_hash s')" unfolding t by simp
  moreover have "lru_ok s'" using lru_update[OF I(1) n] t by (simp add: lru_ok_def)
  moreover have "keys_ok (ncache_tab s')" unfolding t
  proof (rule keys_ins[OF I(3) n])
    fix m assume m: "m < length (ncache_tab s)" "m \<noteq> n" "nc_dp (ncache_tab s ! m) \<noteq> 0"
    show "ent_key (ncache_tab s ! m) \<noteq> ent_key y"
    proof
      assume k: "ent_key (ncache_tab s ! m) = ent_key y"
      then have k': "nc_dp (ncache_tab s ! m) = dp" "nc_cred (ncache_tab s ! m) = cred"
        "take (nc_namlen (ncache_tab s ! m)) (nc_name (ncache_tab s ! m)) = nm"
        using y by (simp_all add: ent_key_def)
      have "ent_ok (ncache_tab s ! m)" using I(4) m(1) by simp
      then have "length (take (nc_namlen (ncache_tab s ! m)) (nc_name (ncache_tab s ! m))) = nc_namlen (ncache_tab s ! m)"
        using m(3) by (simp add: ent_ok_def)
      then have "nc_namlen (ncache_tab s ! m) = length nm" using k'(3) by simp
      then show False using new[OF m(1)] k' unfolding nc_match_iff[OF nm(1) dv(1)] by blast
    qed
  qed (simp add: y(1) dv(1))
  moreover have "\<forall>e\<in>set (ncache_tab s'). ent_ok e" unfolding t by (rule ents_put[OF I(4) yok])
  moreover have "refs_ok base s'"
  proof -
    have "v_count s' v = base v + holds s' v" if v: "v \<noteq> 0" for v
    proof -
      have "holds s' v = holds s v - ent_holds v e + ent_holds v y" using holds_put[OF n t(1)] by (simp add: e_def)
      moreover have "ent_holds v y = (if dp = v then 1 else 0) + (if vp = v then 1 else 0)" by (simp add: ent_holds_def y)
      moreover have "v_count s' v = v_count s v - ent_holds v e + ((if dp = v then 1 else 0) + (if vp = v then 1 else 0))"
        using q(4) r(4) v unfolding t(5) by simp
      ultimately show ?thesis using refs_ok_range[OF I(5,6) v] by linarith
    qed
    then show ?thesis by (simp add: refs_ok_def)
  qed
  ultimately have "dn_inv base s'" using I(6) t(1) by (simp add: dn_inv_def)
  moreover have "ent_known y = (dp, nm, cred, vp)" by (simp add: ent_known_def y y(4)[unfolded y(3)])
  then have "known s' = insert (dp, nm, cred, vp) (known s - (if nc_dp e = 0 then {} else {ent_known e}))"
    using known_put[OF I(3) n t(1)] y(1) dv(1) by (simp add: e_def)
  ultimately show ?thesis using run t(1,4) by (auto simp: e_def)
qed

text \<open>The names that the cache keeps, and the answer of a search in terms of what it knows.\<close>

definition found :: "dnlc \<Rightarrow> int \<Rightarrow> int list \<Rightarrow> int \<Rightarrow> int \<Rightarrow> bool" where
  "found s dp nm cred v \<longleftrightarrow> (\<exists>c. (dp, nm, c, v) \<in> known s \<and> (cred = ANYCRED \<or> c = cred))"

lemma matched_known:
  assumes "n < length (ncache_tab s)" and "nm \<noteq> []" and "dp \<noteq> 0"
    and "nc_match (ncache_tab s ! n) dp nm (length nm) cred"
  shows "found s dp nm cred (nc_vp (ncache_tab s ! n))"
    and "ent_known (ncache_tab s ! n) = (dp, nm, nc_cred (ncache_tab s ! n), nc_vp (ncache_tab s ! n))"
    and "cred = ANYCRED \<or> nc_cred (ncache_tab s ! n) = cred"
proof -
  let ?e = "ncache_tab s ! n"
  have m: "nc_dp ?e = dp" "nc_namlen ?e = length nm" "take (nc_namlen ?e) (nc_name ?e) = nm"
    "cred = ANYCRED \<or> nc_cred ?e = cred"
    using assms(4) unfolding nc_match_iff[OF assms(2,3)] by blast+
  show k: "ent_known ?e = (dp, nm, nc_cred ?e, nc_vp ?e)" using m(1,3) by (simp add: ent_known_def)
  show "cred = ANYCRED \<or> nc_cred ?e = cred" by (rule m(4))
  have "ent_known ?e \<in> known s" unfolding known_iff using assms(1,3) m(1) by blast
  then show "found s dp nm cred (nc_vp ?e)" using k m(4) unfolding found_def by metis
qed

lemma known_matched:
  assumes "\<forall>e\<in>set (ncache_tab s). ent_ok e" and "nm \<noteq> []" "dp \<noteq> 0" and "found s dp nm cred v"
  shows "\<exists>n<length (ncache_tab s). nc_match (ncache_tab s ! n) dp nm (length nm) cred \<and> nc_vp (ncache_tab s ! n) = v"
proof -
  obtain c n where n: "n < length (ncache_tab s)" "(dp, nm, c, v) = ent_known (ncache_tab s ! n)" "cred = ANYCRED \<or> c = cred"
    using assms(4) unfolding found_def known_iff by blast
  let ?e = "ncache_tab s ! n"
  have e: "nc_dp ?e = dp" "take (nc_namlen ?e) (nc_name ?e) = nm" "nc_cred ?e = c" "nc_vp ?e = v"
    using n(2) by (simp_all add: ent_known_def)
  have "ent_ok ?e" using assms(1) n(1) by simp
  then have "length (take (nc_namlen ?e) (nc_name ?e)) = nc_namlen ?e" using e(1) assms(3) by (simp add: ent_ok_def)
  then have "nc_namlen ?e = length nm" using e(2) by simp
  then show ?thesis using n(1,3) e unfolding nc_match_iff[OF assms(2,3)] by blast
qed

lemma found_nonzero: "dn_inv base s \<Longrightarrow> found s dp nm cred v \<Longrightarrow> v \<noteq> 0"
  by (auto simp: dn_inv_def found_def known_iff ent_known_def ent_ok_def all_set_conv_all_nth)

lemma known_same: "ncache_tab s' = ncache_tab s \<Longrightarrow> known s' = known s"
  by (simp add: known_def)

lemma dn_inv_same:
  "dn_inv base s \<Longrightarrow> ncache_tab s' = ncache_tab s \<Longrightarrow> nc_lru s' = nc_lru s \<Longrightarrow> nc_hash s' = nc_hash s \<Longrightarrow>
     v_count s' = v_count s \<Longrightarrow> dn_inv base s'"
  by (simp add: dn_inv_def lru_ok_def refs_ok_def holds_def)

lemma dn_inv_stat [simp]: "dn_inv base s \<Longrightarrow> dn_inv base (count_stat f s)" "known (count_stat f s) = known s"
  "doingcache (count_stat f s) = doingcache s"
  using dn_inv_same[of base s "count_stat f s"] by (simp_all add: count_stat_def known_def)

text \<open>What every operation gives: it returns, keeps the invariant, and the cache knows what is stated.\<close>

definition dn_step :: "(int \<Rightarrow> int) \<Rightarrow> dnlc \<Rightarrow> dnlc outcome \<Rightarrow> ((int \<times> int list \<times> int \<times> int) set \<Rightarrow> bool) \<Rightarrow> bool" where
  "dn_step base s m P \<longleftrightarrow> (\<exists>s'. m = Ok s' \<and> dn_inv base s' \<and> P (known s') \<and>
     length (ncache_tab s') = length (ncache_tab s) \<and> doingcache s' = doingcache s)"

lemma dnlc_enter_spec:
  assumes inv: "dn_inv base s" and nm: "nm \<noteq> []" and dv: "dp \<noteq> 0" "vp \<noteq> 0"
  shows "dn_step base s (dnlc_enter dp nm vp cred s) (\<lambda>K.
    if doingcache s \<and> length nm \<le> NC_NAMLEN \<and> (\<forall>v. \<not> found s dp nm cred v) \<and> ncache_tab s \<noteq> []
    then \<exists>old. K = insert (dp, nm, cred, vp) (known s - old) \<and>
      old = (let e = ncache_tab s ! hd (nc_lru s) in if nc_dp e = 0 then {} else {ent_known e})
    else K = known s)"
proof -
  have I: "lru_ok s" "chains_ok (ncache_tab s) (nc_hash s)" "\<forall>e\<in>set (ncache_tab s). ent_ok e"
    using inv by (simp_all add: dn_inv_def)
  show ?thesis
  proof (cases "doingcache s \<and> length nm \<le> NC_NAMLEN")
    case False
    then show ?thesis using inv by (auto simp: dnlc_enter_def dn_step_def Let_def)
  next
    case ok: True
    obtain h where h: "NC_HASH nm (length nm) dp = Ok h" "h < 8" using NC_HASH_Ok[OF nm, of dp] by blast
    have enter: "dnlc_enter dp nm vp cred s =
        (case dnlc_search dp nm (length nm) h cred s of
           Some n \<Rightarrow> Ok (count_stat (\<lambda>t. t\<lparr>dbl_enters := int32 (dbl_enters t + 1)\<rparr>) s)
         | None \<Rightarrow> (case nc_lru s of
              [] \<Rightarrow> Ok (count_stat (\<lambda>t. t\<lparr>lru_empty := int32 (lru_empty t + 1)\<rparr>) s)
            | n # _ \<Rightarrow> enter_at n dp nm (length nm) h vp cred s))"
      using ok h(1) by (simp add: dnlc_enter_def Let_def)
    show ?thesis
    proof (cases "dnlc_search dp nm (length nm) h cred s")
      case (Some n)
      have "found s dp nm cred (nc_vp (ncache_tab s ! n))"
        using matched_known(1)[OF _ nm dv(1)] dnlc_search_Some[OF I(2) h(2) Some] by blast
      then show ?thesis using inv unfolding enter dn_step_def by (auto simp: Some)
    next
      case None
      have new: "\<not> nc_match (ncache_tab s ! m) dp nm (length nm) cred" if "m < length (ncache_tab s)" for m
        by (rule dnlc_search_None[OF I(2) nm dv(1) h(1) None that])
      have nf: "\<forall>v. \<not> found s dp nm cred v" using known_matched[OF I(3) nm dv(1)] new by blast
      show ?thesis
      proof (cases "nc_lru s")
        case Nil
        then have "{..<length (ncache_tab s)} = {}" using I(1) by (simp add: lru_ok_def)
        then have "length (ncache_tab s) = 0" by (simp only: lessThan_empty_iff)
        then have "ncache_tab s = []" by simp
        then show ?thesis using inv unfolding enter dn_step_def by (auto simp: None Nil)
      next
        case (Cons n l)
        then have n: "n < length (ncache_tab s)" using I(1) by (auto simp: lru_ok_def)
        then have ne: "ncache_tab s \<noteq> []" by auto
        have e: "dnlc_enter dp nm vp cred s = enter_at n dp nm (length nm) h vp cred s"
          unfolding enter by (simp add: None Cons)
        show ?thesis
          using enter_at_spec[OF inv n nm conjunct2[OF ok] dv h(1) new] ok nf ne
          unfolding e dn_step_def by (auto simp: Cons Let_def)
      qed
    qed
  qed
qed

lemma move_forward_set: "set (move_forward n l) = set l \<and> distinct (move_forward n l) = distinct l"
  by (induction n l rule: move_forward.induct) auto

lemma chains_perm:
  assumes "chains_ok tab hs" and "h < NC_HASH_SIZE" and "set l = set (hs ! h) \<and> distinct l = distinct (hs ! h)"
  shows "chains_ok tab (hs[h := l])"
  using assms by (auto simp: chains_ok_def nth_list_update)

lemma dnlc_lookup_spec:
  assumes inv: "dn_inv base s" and nm: "nm \<noteq> []" and dp: "dp \<noteq> 0"
  shows "\<exists>s' v. dnlc_lookup dp nm cred s = Ok (s', v) \<and> dn_inv base s' \<and> known s' = known s \<and>
    length (ncache_tab s') = length (ncache_tab s) \<and> doingcache s' = doingcache s \<and>
    (if doingcache s \<and> length nm \<le> NC_NAMLEN \<and> (\<exists>w. found s dp nm cred w)
     then found s dp nm cred v \<and>
       (\<exists>c. ent_known (ncache_tab s' ! last (nc_lru s')) = (dp, nm, c, v) \<and> (cred = ANYCRED \<or> c = cred))
     else v = 0)"
proof -
  have I: "lru_ok s" "chains_ok (ncache_tab s) (nc_hash s)" "\<forall>e\<in>set (ncache_tab s). ent_ok e"
    using inv by (simp_all add: dn_inv_def)
  show ?thesis
  proof (cases "doingcache s \<and> length nm \<le> NC_NAMLEN")
    case False
    then show ?thesis using inv by (auto simp: dnlc_lookup_def Let_def)
  next
    case ok: True
    obtain h where h: "NC_HASH nm (length nm) dp = Ok h" "h < 8" using NC_HASH_Ok[OF nm, of dp] by blast
    show ?thesis
    proof (cases "dnlc_search dp nm (length nm) h cred s")
      case None
      have "\<not> nc_match (ncache_tab s ! m) dp nm (length nm) cred" if "m < length (ncache_tab s)" for m
        by (rule dnlc_search_None[OF I(2) nm dp h(1) None that])
      then have "\<forall>v. \<not> found s dp nm cred v" using known_matched[OF I(3) nm dp] by blast
      then show ?thesis using inv ok h(1) None by (auto simp: dnlc_lookup_def Let_def)
    next
      case (Some n)
      note sr = dnlc_search_Some[OF I(2) h(2) Some]
      define s1 where "s1 = INS_LRU_last n (RM_LRU n (count_stat (\<lambda>t. t\<lparr>hits := int32 (hits t + 1)\<rparr>) s))"
      define s2 where "s2 = (if hd (nc_hash s1 ! h) \<noteq> n
        then s1\<lparr>nc_hash := (nc_hash s1)[h := move_forward n (nc_hash s1 ! h)]\<rparr> else s1)"
      have run: "dnlc_lookup dp nm cred s = Ok (s2, nc_vp (ncache_tab s2 ! n))"
        using ok h(1) Some by (simp add: dnlc_lookup_def Let_def s1_def s2_def)
      have f1: "ncache_tab s1 = ncache_tab s" "nc_hash s1 = nc_hash s" "nc_lru s1 = remove1 n (nc_lru s) @ [n]"
        "v_count s1 = v_count s" "doingcache s1 = doingcache s"
        by (simp_all add: s1_def INS_LRU_last_def RM_LRU_def count_stat_def)
      have f2: "ncache_tab s2 = ncache_tab s" "nc_lru s2 = remove1 n (nc_lru s) @ [n]"
        "v_count s2 = v_count s" "doingcache s2 = doingcache s" using f1 by (simp_all add: s2_def)
      have "chains_ok (ncache_tab s2) (nc_hash s2)"
        using I(2) f1(1,2) chains_perm[OF I(2), of h "move_forward n (nc_hash s ! h)"] h(2)
        by (simp add: s2_def move_forward_set NC_HASH_SIZE_def)
      moreover have "lru_ok s2" using lru_update[OF I(1) sr(1)] f2 by (simp add: lru_ok_def)
      ultimately have "dn_inv base s2" using inv f2 by (simp add: dn_inv_def refs_ok_def holds_def)
      moreover have "found s dp nm cred (nc_vp (ncache_tab s ! n))"
        and "ent_known (ncache_tab s ! n) = (dp, nm, nc_cred (ncache_tab s ! n), nc_vp (ncache_tab s ! n))"
        and "cred = ANYCRED \<or> nc_cred (ncache_tab s ! n) = cred"
        using matched_known[OF sr(1) nm dp sr(4)] by blast+
      ultimately show ?thesis using run f2 ok known_same[OF f2(1)] by auto
    qed
  qed
qed

text \<open>A loop that removes what a search finds, until it finds nothing.\<close>

lemma removal_loop:
  assumes loop: "\<And>s. loop s = (case pick s of None \<Rightarrow> Ok s | Some n \<Rightarrow> obind (dnlc_rm n s) loop)"
    and some: "\<And>s n. dn_inv base s \<Longrightarrow> pick s = Some n \<Longrightarrow> n < length (ncache_tab s) \<and>
      nc_dp (ncache_tab s ! n) \<noteq> 0 \<and> ent_known (ncache_tab s ! n) \<in> X"
    and none: "\<And>s. dn_inv base s \<Longrightarrow> pick s = None \<Longrightarrow> known s \<inter> X = {}"
  shows "dn_inv base s \<Longrightarrow> dn_step base s (loop s) (\<lambda>K. K = known s - X)"
proof (induction "in_use s" arbitrary: s rule: less_induct)
  case less
  show ?case
  proof (cases "pick s")
    case None
    then have "loop s = Ok s" by (subst loop) (simp only: option.case)
    moreover have "known s - X = known s" using none[OF less.prems None] by blast
    ultimately show ?thesis using less.prems by (simp only: dn_step_def) blast
  next
    case (Some n)
    note n = some[OF less.prems Some]
    obtain s' where s': "dnlc_rm n s = Ok s'" "dn_inv base s'" "known s' = known s - {ent_known (ncache_tab s ! n)}"
      "length (ncache_tab s') = length (ncache_tab s)" "doingcache s' = doingcache s"
      using dnlc_rm_spec[OF less.prems, of n] n by blast
    have "dn_step base s' (loop s') (\<lambda>K. K = known s' - X)" by (rule less.hyps[OF dnlc_rm_in_use[OF s'(1)] s'(2)])
    moreover have "known s' - X = known s - X" unfolding s'(3) using conjunct2[OF conjunct2[OF n]] by blast
    moreover have "loop s = loop s'" by (subst loop) (simp only: Some s'(1) option.case obind.simps)
    ultimately show ?thesis using s'(4,5) by (simp only: dn_step_def)
  qed
qed

lemma dnlc_remove_spec:
  assumes inv: "dn_inv base s" and nm: "nm \<noteq> []" and dp: "dp \<noteq> 0"
  shows "dn_step base s (dnlc_remove dp nm s)
    (\<lambda>K. K = (if length nm \<le> NC_NAMLEN then known s - {x. fst x = dp \<and> fst (snd x) = nm} else known s))"
proof (cases "length nm \<le> NC_NAMLEN")
  case False
  then show ?thesis using inv by (simp add: dnlc_remove_def dn_step_def Let_def)
next
  case True
  obtain h where h: "NC_HASH nm (length nm) dp = Ok h" "h < 8" using NC_HASH_Ok[OF nm, of dp] by blast
  let ?X = "{x. fst x = dp \<and> fst (snd x) = nm} :: (int \<times> int list \<times> int \<times> int) set"
  have "dn_step base s (dnlc_remove_loop dp nm (length nm) h s) (\<lambda>K. K = known s - ?X)"
  proof (rule removal_loop[of "dnlc_remove_loop dp nm (length nm) h" "dnlc_search dp nm (length nm) h ANYCRED", OF _ _ _ inv])
    show "dnlc_remove_loop dp nm (length nm) h s = (case dnlc_search dp nm (length nm) h ANYCRED s of
        None \<Rightarrow> Ok s | Some n \<Rightarrow> obind (dnlc_rm n s) (dnlc_remove_loop dp nm (length nm) h))" for s
      by (rule dnlc_remove_loop.simps)
    fix t n assume t: "dn_inv base t"
    then have c: "chains_ok (ncache_tab t) (nc_hash t)" "\<forall>e\<in>set (ncache_tab t). ent_ok e" by (simp_all add: dn_inv_def)
    show "n < length (ncache_tab t) \<and> nc_dp (ncache_tab t ! n) \<noteq> 0 \<and> ent_known (ncache_tab t ! n) \<in> ?X"
      if "dnlc_search dp nm (length nm) h ANYCRED t = Some n"
      using dnlc_search_Some[OF c(1) h(2) that] matched_known(2)[OF _ nm dp] by simp
    show "known t \<inter> ?X = {}" if r: "dnlc_search dp nm (length nm) h ANYCRED t = None"
    proof -
      have "\<not> found t dp nm ANYCRED v" for v
        using known_matched[OF c(2) nm dp, of ANYCRED v] dnlc_search_None[OF c(1) nm dp h(1) r] by blast
      then show ?thesis by (auto simp: found_def)
    qed
  qed
  then show ?thesis using True h(1) by (simp add: dnlc_remove_def Let_def)
qed

lemma first_chained_Some: "first_chained cs = Some n \<Longrightarrow> \<exists>c\<in>set cs. n \<in> set c"
  by (induction cs rule: first_chained.induct) (auto split: list.splits)

lemma first_chained_None: "first_chained cs = None \<Longrightarrow> \<forall>c\<in>set cs. c = []"
  by (induction cs rule: first_chained.induct) (auto split: list.splits)

lemma chained_live:
  assumes "chains_ok tab hs" and "c \<in> set hs" and "n \<in> set c"
  shows "n < length tab \<and> nc_dp (tab ! n) \<noteq> 0"
proof -
  obtain h where "h < length hs" "c = hs ! h" using assms(2) by (auto simp: in_set_conv_nth)
  then show ?thesis using assms(1,3) by (auto simp: chains_ok_def)
qed

lemma ent_hash_bound: "ent_hash e < NC_HASH_SIZE"
  by (simp add: ent_hash_def NC_HASH_SIZE_def nat_less_iff)

lemma dnlc_purge_spec:
  assumes inv: "dn_inv base s"
  shows "dn_step base s (dnlc_purge s) (\<lambda>K. K = {})"
proof -
  have "dn_step base t (dnlc_purge_loop t) (\<lambda>K. K = {})" if "dn_inv base t" for t
    using that
  proof (induction "in_use t" arbitrary: t rule: less_induct)
    case less
    have c: "chains_ok (ncache_tab t) (nc_hash t)" "\<forall>e\<in>set (ncache_tab t). ent_ok e"
      using less.prems by (simp_all add: dn_inv_def)
    show ?case
    proof (cases "first_chained (nc_hash t)")
      case None
      have "nc_dp (ncache_tab t ! n) = 0" if n: "n < length (ncache_tab t)" for n
      proof (rule ccontr)
        assume "nc_dp (ncache_tab t ! n) \<noteq> 0"
        then have "n \<in> set (nc_hash t ! ent_hash (ncache_tab t ! n))"
          using c(1) n ent_hash_bound by (simp add: chains_ok_def)
        moreover have "nc_hash t ! ent_hash (ncache_tab t ! n) \<in> set (nc_hash t)"
          using c(1) ent_hash_bound by (simp add: chains_ok_def)
        ultimately show False using first_chained_None[OF None] by fastforce
      qed
      then have "known t = {}" by (auto simp: known_iff)
      then show ?thesis using None less.prems by (simp add: dnlc_purge_loop.simps dn_step_def)
    next
      case (Some n)
      have n: "n < length (ncache_tab t)" "nc_dp (ncache_tab t ! n) \<noteq> 0"
        using first_chained_Some[OF Some] chained_live[OF c(1)] by blast+
      have "ent_ok (ncache_tab t ! n)" using c(2) n(1) by simp
      then have v: "nc_vp (ncache_tab t ! n) \<noteq> 0" using n(2) by (simp add: ent_ok_def)
      obtain s' where s': "dnlc_rm n t = Ok s'" "dn_inv base s'"
        "length (ncache_tab s') = length (ncache_tab t)" "doingcache s' = doingcache t"
        using dnlc_rm_spec[OF less.prems n] by blast
      have "dn_step base s' (dnlc_purge_loop s') (\<lambda>K. K = {})"
        by (rule less.hyps[OF dnlc_rm_in_use[OF s'(1)] s'(2)])
      then show ?thesis using Some n v s' by (auto simp: dnlc_purge_loop.simps[of t] dn_step_def)
    qed
  qed
  from this[of "count_stat (\<lambda>t. t\<lparr>purges := int32 (purges t + 1)\<rparr>) s"] show ?thesis
    using inv by (simp add: dnlc_purge_def dn_step_def)
qed

lemma find_lru:
  assumes "lru_ok s"
  shows "find P (nc_lru s) = Some n \<Longrightarrow> n < length (ncache_tab s) \<and> P n"
    and "find P (nc_lru s) = None \<Longrightarrow> n < length (ncache_tab s) \<Longrightarrow> \<not> P n"
proof -
  show "find P (nc_lru s) = Some n \<Longrightarrow> n < length (ncache_tab s) \<and> P n"
    using assms nth_mem by (fastforce simp: find_Some_iff lru_ok_def)
  show "find P (nc_lru s) = None \<Longrightarrow> n < length (ncache_tab s) \<Longrightarrow> \<not> P n"
    using assms by (auto simp: find_None_iff lru_ok_def)
qed

lemma dnlc_purge_vp_spec:
  assumes inv: "dn_inv base s" and v: "v \<noteq> 0"
  shows "dn_step base s (dnlc_purge_vp v s) (\<lambda>K. K = known s - {x. fst x = v \<or> snd (snd (snd x)) = v})"
proof -
  let ?X = "{x. fst x = v \<or> snd (snd (snd x)) = v} :: (int \<times> int list \<times> int \<times> int) set"
  let ?P = "\<lambda>t n. nc_dp (ncache_tab t ! n) = v \<or> nc_vp (ncache_tab t ! n) = v"
  show ?thesis
  proof (rule removal_loop[of "dnlc_purge_vp v" "\<lambda>t. find (?P t) (nc_lru t)", OF _ _ _ inv])
    show "dnlc_purge_vp v s = (case find (?P s) (nc_lru s) of
        None \<Rightarrow> Ok s | Some n \<Rightarrow> obind (dnlc_rm n s) (dnlc_purge_vp v))" for s
      by (rule dnlc_purge_vp.simps)
    fix t n assume t: "dn_inv base t"
    then have c: "lru_ok t" "\<forall>e\<in>set (ncache_tab t). ent_ok e" by (simp_all add: dn_inv_def)
    show "n < length (ncache_tab t) \<and> nc_dp (ncache_tab t ! n) \<noteq> 0 \<and> ent_known (ncache_tab t ! n) \<in> ?X"
      if "find (?P t) (nc_lru t) = Some n"
    proof -
      have n: "n < length (ncache_tab t)" "?P t n" using find_lru(1)[OF c(1) that] by blast+
      have "ent_ok (ncache_tab t ! n)" using c(2) n(1) by simp
      then show ?thesis using n v by (auto simp: ent_ok_def ent_known_def split: if_splits)
    qed
    show "known t \<inter> ?X = {}" if "find (?P t) (nc_lru t) = None"
      using find_lru(2)[OF c(1) that] by (fastforce simp: known_iff ent_known_def)
  qed
qed

lemma dnlc_purge1_spec:
  assumes inv: "dn_inv base s"
  shows "\<exists>s' r. dnlc_purge1 s = Ok (s', r) \<and> dn_inv base s' \<and> length (ncache_tab s') = length (ncache_tab s) \<and>
    doingcache s' = doingcache s \<and> (if known s = {} then \<not> r \<and> known s' = {} else r \<and> known s' \<subset> known s)"
proof -
  have c: "lru_ok s" using inv by (simp add: dn_inv_def)
  show ?thesis
  proof (cases "find (\<lambda>n. nc_dp (ncache_tab s ! n) \<noteq> 0) (nc_lru s)")
    case None
    then have "known s = {}" using find_lru(2)[OF c None] by (fastforce simp: known_iff)
    then show ?thesis using inv None by (simp add: dnlc_purge1_def) blast
  next
    case (Some n)
    have n: "n < length (ncache_tab s)" "nc_dp (ncache_tab s ! n) \<noteq> 0" using find_lru(1)[OF c Some] by blast+
    have k: "ent_known (ncache_tab s ! n) \<in> known s" unfolding known_iff using n by blast
    obtain s' where s': "dnlc_rm n s = Ok s'" "dn_inv base s'" "known s' = known s - {ent_known (ncache_tab s ! n)}"
      "length (ncache_tab s') = length (ncache_tab s)" "doingcache s' = doingcache s"
      using dnlc_rm_spec[OF inv n] by blast
    have "dnlc_purge1 s = Ok (s', True)" using Some s'(1) by (simp add: dnlc_purge1_def)
    then show ?thesis using s' k by auto
  qed
qed

lemma dnlc_init_inv:
  assumes "\<forall>e\<in>set (ncache_tab s). length (nc_name e) = NC_NAMLEN \<and> nc_cred e = NOCRED"
    and "base_ok (v_count s) (length (ncache_tab s))"
  shows "dn_inv (v_count s) (dnlc_init s)" and "known (dnlc_init s) = {}"
proof -
  have "sum_list (map (ent_holds v) (map (\<lambda>e. e\<lparr>nc_dp := 0, nc_vp := 0\<rparr>) xs)) = 0" if "v \<noteq> 0" for v xs
    using that by (induction xs) (simp_all add: ent_holds_def)
  then have "refs_ok (v_count s) (dnlc_init s)" by (simp add: refs_ok_def holds_def dnlc_init_def Let_def)
  moreover have "chains_ok (ncache_tab (dnlc_init s)) (nc_hash (dnlc_init s))"
    by (auto simp: chains_ok_def dnlc_init_def Let_def)
  moreover have "keys_ok (ncache_tab (dnlc_init s))" by (simp add: keys_ok_def dnlc_init_def Let_def)
  moreover have "\<forall>e\<in>set (ncache_tab (dnlc_init s)). ent_ok e"
    using assms(1) by (auto simp: dnlc_init_def Let_def ent_ok_def)
  moreover have "lru_ok (dnlc_init s)" by (auto simp: lru_ok_def dnlc_init_def Let_def)
  ultimately show "dn_inv (v_count s) (dnlc_init s)" using assms(2) by (simp add: dn_inv_def dnlc_init_def Let_def)
  show "known (dnlc_init s) = {}" by (auto simp: known_def dnlc_init_def Let_def)
qed

section \<open>Properties\<close>

text \<open>
  Calls of the cache, and what may be remembered after each: the names that were entered and not
  removed or purged since.
\<close>

datatype dn_op = Enter int "int list" int int | Lookup int "int list" int | Remove int "int list"
  | Purge | Purge_vp int | Purge1

definition dn_do :: "dn_op \<Rightarrow> dnlc \<Rightarrow> (dnlc \<times> int) outcome" where
  "dn_do op s = (case op of
       Enter dp nm vp cred \<Rightarrow> obind (dnlc_enter dp nm vp cred s) (\<lambda>s'. Ok (s', 0))
     | Lookup dp nm cred \<Rightarrow> dnlc_lookup dp nm cred s
     | Remove dp nm \<Rightarrow> obind (dnlc_remove dp nm s) (\<lambda>s'. Ok (s', 0))
     | Purge \<Rightarrow> obind (dnlc_purge s) (\<lambda>s'. Ok (s', 0))
     | Purge_vp v \<Rightarrow> obind (dnlc_purge_vp v s) (\<lambda>s'. Ok (s', 0))
     | Purge1 \<Rightarrow> obind (dnlc_purge1 s) (\<lambda>(s', r). Ok (s', if r then 1 else 0)))"

fun dn_run :: "dn_op list \<Rightarrow> dnlc \<Rightarrow> (dnlc \<times> int list) outcome" where
  "dn_run [] s = Ok (s, [])"
| "dn_run (op # ops) s = obind (dn_do op s) (\<lambda>(s1, r). obind (dn_run ops s1) (\<lambda>(s2, rs). Ok (s2, r # rs)))"

fun may_know :: "dn_op \<Rightarrow> (int \<times> int list \<times> int \<times> int) set \<Rightarrow> (int \<times> int list \<times> int \<times> int) set" where
  "may_know (Enter dp nm vp cred) T = insert (dp, nm, cred, vp) T"
| "may_know (Lookup dp nm cred) T = T"
| "may_know (Remove dp nm) T = T - {x. fst x = dp \<and> fst (snd x) = nm}"
| "may_know Purge T = {}"
| "may_know (Purge_vp v) T = T - {x. fst x = v \<or> snd (snd (snd x)) = v}"
| "may_know Purge1 T = T"

fun op_ok :: "dn_op \<Rightarrow> bool" where
  "op_ok (Enter dp nm vp cred) = (dp \<noteq> 0 \<and> vp \<noteq> 0 \<and> nm \<noteq> [])"
| "op_ok (Lookup dp nm cred) = (dp \<noteq> 0 \<and> nm \<noteq> [])"
| "op_ok (Remove dp nm) = (dp \<noteq> 0 \<and> nm \<noteq> [])"
| "op_ok (Purge_vp v) = (v \<noteq> 0)"
| "op_ok _ = True"

fun fresh :: "(int \<times> int list \<times> int \<times> int) set \<Rightarrow> dn_op list \<Rightarrow> int list \<Rightarrow> bool" where
  "fresh T [] [] = True"
| "fresh T (op # ops) (r # rs) =
     ((case op of Lookup dp nm cred \<Rightarrow> r \<noteq> 0 \<longrightarrow> (\<exists>c. (dp, nm, c, r) \<in> T \<and> (cred = ANYCRED \<or> c = cred)) | _ \<Rightarrow> True) \<and>
      fresh (may_know op T) ops rs)"
| "fresh T _ _ = False"

lemma known_short: "dn_inv base s \<Longrightarrow> x \<in> known s \<Longrightarrow> length (fst (snd x)) \<le> NC_NAMLEN"
  by (auto simp: dn_inv_def known_def ent_ok_def)

lemma dn_do_spec:
  assumes inv: "dn_inv base s" and T: "known s \<subseteq> T" and ok: "op_ok op"
  shows "\<exists>s' r. dn_do op s = Ok (s', r) \<and> dn_inv base s' \<and> known s' \<subseteq> may_know op T \<and>
    (case op of Lookup dp nm cred \<Rightarrow> r \<noteq> 0 \<longrightarrow> (\<exists>c. (dp, nm, c, r) \<in> T \<and> (cred = ANYCRED \<or> c = cred)) | _ \<Rightarrow> True)"
proof (cases op)
  case (Enter dp nm vp cred)
  have "dp \<noteq> 0" "vp \<noteq> 0" "nm \<noteq> []" using ok Enter by simp_all
  note e = dnlc_enter_spec[OF inv this(3,1,2), of cred]
  obtain s' where "dnlc_enter dp nm vp cred s = Ok s'" "dn_inv base s'" "known s' \<subseteq> insert (dp, nm, cred, vp) (known s)"
    using e unfolding dn_step_def by (auto split: if_splits)
  then show ?thesis using T Enter by (auto simp: dn_do_def)
next
  case (Lookup dp nm cred)
  have "nm \<noteq> []" "dp \<noteq> 0" using ok Lookup by simp_all
  then obtain s' v where l: "dnlc_lookup dp nm cred s = Ok (s', v)" "dn_inv base s'" "known s' = known s"
    "found s dp nm cred v \<or> v = 0"
    using dnlc_lookup_spec[OF inv, of nm dp cred] by (auto split: if_splits)
  then show ?thesis using T Lookup by (auto simp: dn_do_def found_def)
next
  case (Remove dp nm)
  have h: "nm \<noteq> []" "dp \<noteq> 0" using ok Remove by simp_all
  obtain s' where r: "dnlc_remove dp nm s = Ok s'" "dn_inv base s'"
    "known s' = (if length nm \<le> NC_NAMLEN then known s - {x. fst x = dp \<and> fst (snd x) = nm} else known s)"
    using dnlc_remove_spec[OF inv h] unfolding dn_step_def by blast
  have "known s' \<subseteq> T - {x. fst x = dp \<and> fst (snd x) = nm}"
    using r(3) T known_short[OF inv] by (auto split: if_splits)
  then show ?thesis using r(1,2) Remove by (simp add: dn_do_def)
next
  case Purge
  then show ?thesis using dnlc_purge_spec[OF inv] by (auto simp: dn_do_def dn_step_def)
next
  case (Purge_vp v)
  then have v: "v \<noteq> 0" using ok by simp
  obtain s' where r: "dnlc_purge_vp v s = Ok s'" "dn_inv base s'"
    "known s' = known s - {x. fst x = v \<or> snd (snd (snd x)) = v}"
    using dnlc_purge_vp_spec[OF inv v] unfolding dn_step_def by blast
  have "known s' \<subseteq> T - {x. fst x = v \<or> snd (snd (snd x)) = v}" using r(3) T by blast
  then show ?thesis using r(1,2) Purge_vp by (simp add: dn_do_def)
next
  case Purge1
  obtain s' r where r: "dnlc_purge1 s = Ok (s', r)" "dn_inv base s'" "known s' \<subseteq> known s"
    using dnlc_purge1_spec[OF inv] by (auto split: if_splits)
  then show ?thesis using T Purge1 by (auto simp: dn_do_def)
qed

text \<open>
  C14: the name cache is never stale.  Any sequence of calls of the cache returns, without panic,
  fault or endless loop; every vnode a lookup gives was entered under that directory, name and
  credentials and has not been removed or purged since; and the invariant holds afterwards, by
  which the reference counts are exactly those held by others and by the entries.
\<close>
theorem dnlc_never_stale:
  assumes "dn_inv base s" and "known s \<subseteq> T" and "\<forall>op\<in>set ops. op_ok op"
  shows "\<exists>s' rs. dn_run ops s = Ok (s', rs) \<and> fresh T ops rs \<and> dn_inv base s'"
  using assms
proof (induction ops arbitrary: s T)
  case (Cons op ops)
  have ok: "op_ok op" using Cons.prems(3) by simp
  obtain s1 r where s1: "dn_do op s = Ok (s1, r)" "dn_inv base s1" "known s1 \<subseteq> may_know op T"
    "case op of Lookup dp nm cred \<Rightarrow> r \<noteq> 0 \<longrightarrow> (\<exists>c. (dp, nm, c, r) \<in> T \<and> (cred = ANYCRED \<or> c = cred)) | _ \<Rightarrow> True"
    using dn_do_spec[OF Cons.prems(1,2) ok] by blast
  have "\<forall>op\<in>set ops. op_ok op" using Cons.prems(3) by simp
  then obtain s' rs where "dn_run ops s1 = Ok (s', rs)" "fresh (may_know op T) ops rs" "dn_inv base s'"
    using Cons.IH[OF s1(2,3)] by blast
  then show ?case using s1(1,4) by (intro exI[of _ s'] exI[of _ "r # rs"]) simp
qed simp

text \<open>
  C22: a name that was entered is found.  If the cache is on, the name is short enough and not yet
  known for these credentials, \<open>dnlc_enter\<close> gives up at most the least recently used entry, and the
  next \<open>dnlc_lookup\<close> returns the vnode entered and makes its entry the most recently used one.
\<close>
theorem dnlc_enter_lookup:
  assumes "dn_inv base s" and "nm \<noteq> []" "length nm \<le> NC_NAMLEN" and "dp \<noteq> 0" "vp \<noteq> 0" and "cred \<noteq> ANYCRED"
    and "doingcache s" and "ncache_tab s \<noteq> []" and "\<forall>v. \<not> found s dp nm cred v"
  shows "\<exists>s1 s2 old. dnlc_enter dp nm vp cred s = Ok s1 \<and> known s1 = insert (dp, nm, cred, vp) (known s - old) \<and>
    (old = {} \<or> old = {ent_known (ncache_tab s ! hd (nc_lru s))}) \<and>
    dnlc_lookup dp nm cred s1 = Ok (s2, vp) \<and> ent_known (ncache_tab s2 ! last (nc_lru s2)) = (dp, nm, cred, vp)"
proof -
  obtain s1 old where s1: "dnlc_enter dp nm vp cred s = Ok s1" "dn_inv base s1" "doingcache s1"
    "known s1 = insert (dp, nm, cred, vp) (known s - old)"
    "old = {} \<or> old = {ent_known (ncache_tab s ! hd (nc_lru s))}"
    using dnlc_enter_spec[OF assms(1,2,4,5), of cred] assms(3,7-9) unfolding dn_step_def
    by (auto simp: Let_def split: if_splits)
  have u: "v = vp" if "found s1 dp nm cred v" for v
    using that assms(6,9) unfolding found_def s1(4) by auto
  have f: "found s1 dp nm cred vp" unfolding found_def s1(4) by blast
  obtain s2 v c where s2: "dnlc_lookup dp nm cred s1 = Ok (s2, v)" "found s1 dp nm cred v"
    "ent_known (ncache_tab s2 ! last (nc_lru s2)) = (dp, nm, c, v)" "cred = ANYCRED \<or> c = cred"
    using dnlc_lookup_spec[OF s1(2) assms(2,4), of cred] assms(3) s1(3) f unfolding if_P[OF exI[of "found s1 dp nm cred", OF f]]
    by (elim exE conjE) (simp split: if_splits, blast)
  then show ?thesis using s1(1,4,5) s2(1,3,4) u[OF s2(2)] assms(6) by blast
qed

text \<open>
  C32: purging gives all references back.  After \<open>dnlc_purge\<close> the reference count of every vnode is
  what it was without the cache.
\<close>
theorem dnlc_purge_releases:
  assumes "dn_inv base s" and "v \<noteq> 0"
  shows "\<exists>s'. dnlc_purge s = Ok s' \<and> known s' = {} \<and> v_count s' v = v_count s v - holds s v"
proof -
  obtain s' where s': "dnlc_purge s = Ok s'" "dn_inv base s'" "known s' = {}"
    using dnlc_purge_spec[OF assms(1)] unfolding dn_step_def by blast
  have "\<forall>e\<in>set (ncache_tab s'). nc_dp e = 0 \<and> nc_vp e = 0"
    using s'(2,3) by (auto simp: known_def dn_inv_def ent_ok_def)
  then have "ent_holds v e = 0" if "e \<in> set (ncache_tab s')" for e using that assms(2) by (simp add: ent_holds_def)
  then have "holds s' v = 0" unfolding holds_def by (simp add: sum_list_eq_0_iff map_idI cong: map_cong)
  then show ?thesis using s' assms by (auto simp: dn_inv_def refs_ok_def)
qed

lemma vn_rele_cred:
  assumes "vn_rele v s = Ok s'"
  shows "cr_ref s' = cr_ref s"
proof -
  have v: "v \<noteq> 0" by (rule vn_rele_nonzero[OF assms])
  have c: "v_count s v \<noteq> 0"
  proof
    assume "v_count s v = 0"
    then have "vn_rele v s = Panic ''vn_rele''" using v by (simp add: vn_rele_def)
    then show False using assms by simp
  qed
  have "Ok (let c = uint16 (v_count s v - 1); s1 = s\<lparr>v_count := (v_count s)(v := c)\<rparr>
      in if c = 0 then s1\<lparr>inactive := v # inactive s1\<rparr> else s1) = Ok s'"
    using assms v c by (simp only: vn_rele_def Let_def if_False)
  then have "s' = (let c = uint16 (v_count s v - 1); s1 = s\<lparr>v_count := (v_count s)(v := c)\<rparr>
      in if c = 0 then s1\<lparr>inactive := v # inactive s1\<rparr> else s1)" by (simp only: outcome.inject)
  then show ?thesis by (simp add: Let_def)
qed

lemma dnlc_enter_cases:
  assumes "dnlc_enter dp nm vp cred s = Ok s'"
  shows "s' = s \<or> (\<exists>f. s' = count_stat f s) \<or>
    (\<exists>h n l. nc_lru s = n # l \<and> enter_at n dp nm (length nm) h vp cred s = Ok s')"
proof (cases "doingcache s \<and> \<not> NC_NAMLEN < length nm")
  case False
  then show ?thesis using assms by (cases "doingcache s") (auto simp: dnlc_enter_def Let_def)
next
  case True
  then obtain h where h: "(case dnlc_search dp nm (length nm) h cred s of
      Some n \<Rightarrow> Ok (count_stat (\<lambda>t. t\<lparr>dbl_enters := int32 (dbl_enters t + 1)\<rparr>) s)
    | None \<Rightarrow> (case nc_lru s of
         [] \<Rightarrow> Ok (count_stat (\<lambda>t. t\<lparr>lru_empty := int32 (lru_empty t + 1)\<rparr>) s)
       | n # _ \<Rightarrow> enter_at n dp nm (length nm) h vp cred s)) = Ok s'"
    using assms by (auto simp: dnlc_enter_def Let_def)
  show ?thesis
  proof (cases "dnlc_search dp nm (length nm) h cred s")
    case None
    then show ?thesis using h by (cases "nc_lru s") auto
  next
    case (Some n)
    then show ?thesis using h by auto
  qed
qed

text \<open>
  C40: credentials leak.  When \<open>dnlc_enter\<close> takes over an entry that holds credentials, it forgets
  them without \<open>crfree\<close>: one entry less refers to them, and their reference count is unchanged.
\<close>
theorem dnlc_cred_leak:
  assumes "dnlc_enter dp nm vp cred s = Ok s'" and "dn_inv base s"
    and "nc_dp (ncache_tab s ! hd (nc_lru s)) \<noteq> 0" and "nc_cred (ncache_tab s ! hd (nc_lru s)) = c"
    and "c \<noteq> NOCRED" "c \<noteq> cred" and "known s' \<noteq> known s"
  shows "cr_ref s' c = cr_ref s c \<and>
    length (filter (\<lambda>e. nc_cred e = c) (ncache_tab s')) + 1 = length (filter (\<lambda>e. nc_cred e = c) (ncache_tab s))"
proof -
  have rele: "cr_ref t' = cr_ref t \<and> ncache_tab t' = ncache_tab t" if "rele_old v t = Ok t'" for v t t'
    using that vn_rele_tab[of v t t'] vn_rele_cred[of v t t'] by (auto simp: rele_old_def split: if_splits)
  have hold: "cr_ref t' = cr_ref t \<and> ncache_tab t' = ncache_tab t" if "VN_HOLD v t = Ok t'" for v t t'
    using that by (auto simp: VN_HOLD_def split: if_splits)
  have no_stat: "s' \<noteq> count_stat f s" for f using assms(7) by auto
  have no_same: "s' \<noteq> s" using assms(7) by auto
  obtain h n l where n: "nc_lru s = n # l" and at: "enter_at n dp nm (length nm) h vp cred s = Ok s'"
    using dnlc_enter_cases[OF assms(1)] no_stat no_same by blast
  define e where "e = ncache_tab s ! n"
  define y where "y = e\<lparr>nc_dp := dp, nc_vp := vp, nc_namlen := length nm,
    nc_name := take (length nm) nm @ drop (length nm) (nc_name e), nc_cred := cred\<rparr>"
  define fin where "fin t = count_stat (\<lambda>t. t\<lparr>enters := int32 (enters t + 1)\<rparr>) (INS_HASH n h (INS_LRU_last n
       (if cred \<noteq> 0 then crhold cred (put_nc n y t) else put_nc n y t)))" for t
  have nl: "n < length (ncache_tab s)"
  proof (rule ccontr)
    assume "\<not> n < length (ncache_tab s)"
    then have "aget (ncache_tab s) n = Fault" by (simp add: aget_def)
    then show False using at by (simp add: enter_at_def)
  qed
  have "obind (rele_old (nc_dp e) (RM_HASH n (RM_LRU n s))) (\<lambda>s2. obind (rele_old (nc_vp e) s2) (\<lambda>s3.
      obind (VN_HOLD dp s3) (\<lambda>s4. obind (VN_HOLD vp s4) (\<lambda>s5. Ok (fin s5))))) = Ok s'"
    using at nl by (simp only: enter_at_def Let_def aget_Ok obind.simps e_def[symmetric] y_def[symmetric] fin_def)
  then obtain s2 s3 s4 s5 where r0: "rele_old (nc_dp e) (RM_HASH n (RM_LRU n s)) = Ok s2"
    "rele_old (nc_vp e) s2 = Ok s3" "VN_HOLD dp s3 = Ok s4" "VN_HOLD vp s4 = Ok s5" "Ok (fin s5) = Ok s'"
    unfolding obind_eq_Ok by (elim exE conjE) (rule that)
  have yc: "nc_cred y = cred" by (simp add: y_def)
  have "s' = fin s5" using r0(5) by simp
  note r = nl r0(1-4) yc this[unfolded fin_def]
  have s5: "cr_ref s5 = cr_ref s" "ncache_tab s5 = ncache_tab s"
    using rele[OF r(2)] rele[OF r(3)] hold[OF r(4)] hold[OF r(5)]
    by (simp_all add: RM_HASH_def RM_LRU_def)
  have "cr_ref s' c = cr_ref s c" unfolding r(7) using s5(1) assms(6)
    by (simp add: count_stat_def INS_HASH_def INS_LRU_last_def crhold_def put_nc_def)
  moreover have t: "ncache_tab s' = (ncache_tab s)[n := y]" unfolding r(7) using s5(2) by simp
  moreover have "length (filter (\<lambda>e. nc_cred e = c) (xs[n := y])) + 1 = length (filter (\<lambda>e. nc_cred e = c) xs)"
    if "n < length xs" "nc_cred (xs ! n) = c" for xs
    using that r(6) assms(6)
  proof (induction xs arbitrary: n)
    case (Cons x xs)
    then show ?case by (cases n) auto
  qed simp
  ultimately show ?thesis using r(1) assms(4) n by simp
qed

section \<open>Witnesses\<close>

definition demo_nc :: ncache where
  "demo_nc = \<lparr>nc_vp = 0, nc_dp = 0, nc_namlen = 0, nc_name = replicate 15 0, nc_cred = 0\<rparr>"

definition demo_dnlc :: dnlc where
  "demo_dnlc = dnlc_init \<lparr>ncache_tab = [demo_nc, demo_nc], nc_lru = [], nc_hash = [], doingcache = True,
     nc_stats = \<lparr>hits = 0, misses = 0, enters = 0, dbl_enters = 0, long_enter = 0, long_look = 0, lru_empty = 0,
       purges = 0\<rparr>,
     v_count = (\<lambda>v. 1), inactive = [], cr_ref = (\<lambda>c. 1), crfreelist = []\<rparr>"

lemma demo_dnlc_inv: "dn_inv (\<lambda>v. 1) demo_dnlc" "known demo_dnlc = {}" "doingcache demo_dnlc" "ncache_tab demo_dnlc \<noteq> []"
proof -
  let ?s = "\<lparr>ncache_tab = [demo_nc, demo_nc], nc_lru = [], nc_hash = [], doingcache = True,
     nc_stats = \<lparr>hits = 0, misses = 0, enters = 0, dbl_enters = 0, long_enter = 0, long_look = 0, lru_empty = 0,
       purges = 0\<rparr>,
     v_count = (\<lambda>v. 1), inactive = [], cr_ref = (\<lambda>c. 1), crfreelist = []\<rparr> :: dnlc"
  have "dn_inv (v_count ?s) (dnlc_init ?s) \<and> known (dnlc_init ?s) = {}"
    using dnlc_init_inv[of ?s] by (simp add: demo_nc_def NC_NAMLEN_def NOCRED_def base_ok_def)
  then show "dn_inv (\<lambda>v. 1) demo_dnlc" "known demo_dnlc = {}" by (simp_all add: demo_dnlc_def)
  show "doingcache demo_dnlc" "ncache_tab demo_dnlc \<noteq> []" by (simp_all add: demo_dnlc_def dnlc_init_def Let_def)
qed

lemma dnlc_never_stale_witness:
  "case dn_run [Enter 100 [97, 98] 200 7, Remove 100 [97, 98], Lookup 100 [97, 98] 7] demo_dnlc of
     Ok (s', [a, b, r]) \<Rightarrow> r = 0 | _ \<Rightarrow> False"
proof -
  let ?ops = "[Enter 100 [97, 98] 200 7, Remove 100 [97, 98], Lookup 100 [97, 98] 7]"
  obtain s' rs where r: "dn_run ?ops demo_dnlc = Ok (s', rs)" "fresh {} ?ops rs"
    using dnlc_never_stale[OF demo_dnlc_inv(1), of "{}" ?ops] demo_dnlc_inv(2) by auto
  obtain a b c where abc: "rs = [a, b, c]" using r(2) by (auto elim!: fresh.elims)
  then have "c = 0" using r(2) by simp
  then show ?thesis unfolding r(1) abc by simp
qed

lemma dnlc_enter_lookup_witness:
  "case dnlc_enter 100 [97, 98] 200 7 demo_dnlc of
     Ok s1 \<Rightarrow> (case dnlc_lookup 100 [97, 98] 7 s1 of Ok (s2, v) \<Rightarrow> v = 200 | _ \<Rightarrow> False) | _ \<Rightarrow> False"
proof -
  have "\<forall>v. \<not> found demo_dnlc 100 [97, 98] 7 v" by (simp add: found_def demo_dnlc_inv(2))
  from dnlc_enter_lookup[OF demo_dnlc_inv(1), of "[97, 98]" 100 200 7, OF _ _ _ _ _ demo_dnlc_inv(3,4) this]
  obtain s1 s2 where "dnlc_enter 100 [97, 98] 200 7 demo_dnlc = Ok s1" "dnlc_lookup 100 [97, 98] 7 s1 = Ok (s2, 200)"
    by (auto simp: NC_NAMLEN_def ANYCRED_def)
  then show ?thesis by simp
qed

text \<open>A cache of one entry.\<close>

definition one_dnlc :: dnlc where
  "one_dnlc = demo_dnlc\<lparr>ncache_tab := [\<lparr>nc_vp = 200, nc_dp = 100, nc_namlen = 1, nc_name = 97 # replicate 14 0, nc_cred = 7\<rparr>],
     nc_lru := [0], nc_hash := (replicate 8 [])[7 := [0]], v_count := (\<lambda>v. if v = 100 \<or> v = 200 then 2 else 1)\<rparr>"

lemma one_dnlc_inv: "dn_inv (\<lambda>v. 1) one_dnlc"
proof -
  have "lru_ok one_dnlc" by (auto simp: lru_ok_def one_dnlc_def)
  moreover have "chains_ok (ncache_tab one_dnlc) (nc_hash one_dnlc)"
  proof -
    have "((replicate 8 [])[7 := [0]] :: nat list list) ! h = (if h = 7 then [0] else [])" if "h < 8" for h
      using that by (cases "h = 7") simp_all
    then show ?thesis by (auto simp: chains_ok_def one_dnlc_def NC_HASH_SIZE_def ent_hash_def)
  qed
  moreover have "keys_ok (ncache_tab one_dnlc)" by (simp add: keys_ok_def one_dnlc_def)
  moreover have "\<forall>e\<in>set (ncache_tab one_dnlc). ent_ok e" by (simp add: one_dnlc_def ent_ok_def NC_NAMLEN_def)
  moreover have "refs_ok (\<lambda>v. 1) one_dnlc" by (simp add: refs_ok_def holds_def one_dnlc_def ent_holds_def)
  ultimately show ?thesis by (simp add: dn_inv_def base_ok_def one_dnlc_def)
qed

lemma dnlc_purge_releases_witness:
  "case dnlc_purge one_dnlc of Ok s' \<Rightarrow> v_count s' 200 = 1 | _ \<Rightarrow> False"
  using dnlc_purge_releases[OF one_dnlc_inv, of 200] by (auto simp: holds_def one_dnlc_def ent_holds_def)

lemma dnlc_cred_leak_witness:
  "case dnlc_enter 100 [98] 300 0 one_dnlc of
     Ok s' \<Rightarrow> cr_ref s' 7 = 1 \<and> filter (\<lambda>e. nc_cred e = 7) (ncache_tab s') = [] | _ \<Rightarrow> False"
proof -
  have k: "known one_dnlc = {(100, [97], 7, 200)}" by (simp add: known_def one_dnlc_def)
  have nf: "\<forall>v. \<not> found one_dnlc 100 [98] 0 v" by (simp add: found_def k)
  have d: "doingcache one_dnlc" "ncache_tab one_dnlc \<noteq> []"
    using demo_dnlc_inv(3) by (simp_all add: one_dnlc_def)
  obtain s1 where s1: "dnlc_enter 100 [98] 300 0 one_dnlc = Ok s1" "(100, [98], 0, 300) \<in> known s1"
    using dnlc_enter_spec[OF one_dnlc_inv, of "[98]" 100 300 0] d nf
    by (auto simp: dn_step_def NC_NAMLEN_def Let_def split: if_splits)
  have e: "nc_dp (ncache_tab one_dnlc ! hd (nc_lru one_dnlc)) \<noteq> 0" "nc_cred (ncache_tab one_dnlc ! hd (nc_lru one_dnlc)) = 7"
    by (simp_all add: one_dnlc_def)
  have "known s1 \<noteq> known one_dnlc" using s1(2) k by auto
  then have "cr_ref s1 7 = cr_ref one_dnlc 7 \<and> length (filter (\<lambda>e. nc_cred e = 7) (ncache_tab s1)) + 1 =
      length (filter (\<lambda>e. nc_cred e = 7) (ncache_tab one_dnlc))"
    using dnlc_cred_leak[OF s1(1) one_dnlc_inv e] by (simp add: NOCRED_def)
  then show ?thesis using s1(1) by (simp add: one_dnlc_def demo_dnlc_def dnlc_init_def Let_def)
qed

end
